(* ===== verification/Chord_Prelude.thy ===== *)
theory Chord_Prelude
  imports Main "HOL-Library.Word" "HOL-Library.List_Lexorder"
begin

unbundle bit_operations_syntax

text \<open>
  Shared ground of the development: the machine types of the C++ sources, the outcomes an
  operation can have instead of a value, big-endian values of byte arrays, and the list facts
  the components use. \<open>std::array<uint8_t, n>\<close> and \<open>std::vector<uint8_t>\<close> are byte lists;
  their comparison operators are lexicographic, which is the order
  \<^verbatim>\<open>HOL-Library.List_Lexorder\<close> puts on lists.
\<close>

type_synonym byte = "8 word"
type_synonym u16 = "16 word"
type_synonym u32 = "32 word"
type_synonym u64 = "64 word"
type_synonym bytes = "byte list"

text \<open>
  What an operation does when it does not return: a C++ exception by its class, the failure of a
  remote call (\<open>kj::Exception\<close>), or a read or write the language gives no meaning to
  (an iterator range outside its vector, an empty \<open>std::optional\<close> that is dereferenced).
  \<open>Never_Returns\<close> is no error but a call that waits for ever.
\<close>

datatype cpp_error =
    Undefined_Behaviour string
  | Runtime_Error string
  | Bad_Buffer_Size string
  | Bad_Request string
  | Out_Of_Range string
  | Rpc_Exception string
  | Bad_Cast
  | Never_Returns

type_synonym 'a result = "cpp_error + 'a"

named_theorems range_simps \<open>how the ring intervals of the lookup evaluate\<close>
named_theorems node_simps \<open>accessors and setters of a node's state\<close>
named_theorems codec_simps \<open>lengths and slices of encoded messages\<close>

fun be_val :: "bytes \<Rightarrow> nat" where
  "be_val [] = 0"
| "be_val (b # bs) = unat b * 256 ^ length bs + be_val bs"

text \<open>The bytes of a word as a little-endian machine lays them out.\<close>

definition le_bytes :: "nat \<Rightarrow> 'a::len word \<Rightarrow> bytes" where
  "le_bytes n w = map (\<lambda>q. ucast (drop_bit (8 * q) w)) [0..<n]"

definition is_ub :: "'a result \<Rightarrow> bool" where
  "is_ub r = (case r of Inl (Undefined_Behaviour _) \<Rightarrow> True | _ \<Rightarrow> False)"

definition slice :: "'a list \<Rightarrow> nat \<Rightarrow> nat \<Rightarrow> 'a list" where
  "slice xs i j = take (j - i) (drop i xs)"

definition overwrite :: "'a list \<Rightarrow> nat \<Rightarrow> 'a list \<Rightarrow> 'a list" where
  "overwrite xs i ys = take i xs @ ys @ drop (i + length ys) xs"

lemma is_ub_simps [simp]:
  "is_ub (Inr x) = False"
  "is_ub (Inl (Undefined_Behaviour s)) = True"
  "is_ub (Inl (Runtime_Error s)) = False"
  "is_ub (Inl (Bad_Buffer_Size s)) = False"
  "is_ub (Inl (Bad_Request s)) = False"
  "is_ub (Inl (Out_Of_Range s)) = False"
  "is_ub (Inl (Rpc_Exception s)) = False"
  "is_ub (Inl Bad_Cast) = False"
  "is_ub (Inl Never_Returns) = False"
  by (simp_all add: is_ub_def)

lemma length_slice [simp]: "j \<le> length xs \<Longrightarrow> length (slice xs i j) = j - i"
  by (simp add: slice_def)

lemma length_overwrite [simp]:
  "i + length ys \<le> length xs \<Longrightarrow> length (overwrite xs i ys) = length xs"
  by (simp add: overwrite_def)

lemma unat_byte_less: "unat (b :: byte) < 256"
  using unsigned_less [of b, where 'a = nat] by simp

lemma unat_byte_le: "unat (b :: byte) \<le> 255"
  using unat_byte_less [of b] by linarith

lemma be_val_append: "be_val (xs @ ys) = be_val xs * 256 ^ length ys + be_val ys"
  by (induction xs) (simp_all add: algebra_simps power_add)

lemma be_val_less: "be_val bs < 256 ^ length bs"
proof (induction bs)
  case Nil
  then show ?case by simp
next
  case (Cons b bs)
  have "unat b * 256 ^ length bs + be_val bs < (unat b + 1) * 256 ^ length bs"
    using Cons by simp
  also have "\<dots> \<le> 256 * 256 ^ length bs"
    by (rule mult_right_mono) (use unat_byte_less [of b] in simp_all)
  finally show ?case by simp
qed

lemma be_val_replicate_0 [simp]: "be_val (replicate n 0) = 0"
  by (induction n) simp_all

lemma be_digit_less:
  fixes P r s :: nat
  assumes "r < P" and "s < P"
  shows "x * P + r < y * P + s \<longleftrightarrow> x < y \<or> x = y \<and> r < s"
proof (cases "x = y")
  case True
  then show ?thesis by simp
next
  case False
  have step: "a * P + c < b * P + d" if "a < b" "c < P" for a b c d
  proof -
    have "a * P + c < (a + 1) * P" using that by simp
    also have "\<dots> \<le> b * P" by (rule mult_right_mono) (use that in auto)
    finally show ?thesis by simp
  qed
  from False consider "x < y" | "y < x" by linarith
  then show ?thesis
  proof cases
    case 1
    with step [OF 1 assms(1)] show ?thesis by simp
  next
    case 2
    with step [OF 2 assms(2), of r] show ?thesis by simp
  qed
qed

lemma be_val_less_iff:
  "length xs = length ys \<Longrightarrow> xs < ys \<longleftrightarrow> be_val xs < be_val ys"
proof (induction xs ys rule: list_induct2)
  case Nil
  then show ?case by simp
next
  case (Cons x xs y ys)
  have "be_val (x # xs) < be_val (y # ys) \<longleftrightarrow>
      unat x < unat y \<or> unat x = unat y \<and> be_val xs < be_val ys"
    using be_digit_less [OF be_val_less [of xs] be_val_less [of ys, folded Cons.hyps]] Cons.hyps
    by simp
  then show ?case using Cons by (simp add: word_less_nat_alt word_unat_eq_iff)
qed

lemma be_val_inj: "length xs = length ys \<Longrightarrow> be_val xs = be_val ys \<Longrightarrow> xs = ys"
  using be_val_less_iff [of xs ys] be_val_less_iff [of ys xs] by (metis linorder_neq_iff)

lemma be_val_le_iff:
  "length xs = length ys \<Longrightarrow> xs \<le> ys \<longleftrightarrow> be_val xs \<le> be_val ys"
  using be_val_less_iff [of ys xs] by (simp add: not_less [symmetric])

lemma ball_option: "(\<forall>f \<in> A. case f of None \<Rightarrow> True | Some n \<Rightarrow> P n) \<longleftrightarrow> (\<forall>n. Some n \<in> A \<longrightarrow> P n)"
  by (auto split: option.splits)

lemma lex_common_prefix:
  fixes xs :: "'a::linorder list"
  shows "replicate n x @ xs < replicate n x @ ys \<longleftrightarrow> xs < ys"
    "replicate n x @ xs \<le> replicate n x @ ys \<longleftrightarrow> xs \<le> ys"
  by (induction n) auto

lemma le_bytes_inj:
  fixes x y :: "'a::len word"
  assumes "le_bytes n x = le_bytes n y" and "LENGTH('a) \<le> 8 * n"
  shows "x = y"
proof (rule bit_word_eqI)
  fix k assume "k < LENGTH('a)"
  then have q: "k div 8 < n" using assms(2) by linarith
  have "le_bytes n x ! (k div 8) = le_bytes n y ! (k div 8)" using assms(1) by simp
  then have "bit (ucast (drop_bit (8 * (k div 8)) x) :: byte) (k mod 8) = bit (ucast (drop_bit (8 * (k div 8)) y) :: byte) (k mod 8)"
    using q by (simp add: le_bytes_def)
  then show "bit x k \<longleftrightarrow> bit y k" by (simp add: bit_ucast_iff bit_drop_bit_eq)
qed

end
