(* ===== verification/Util.thy ===== *)
theory Util
  imports Chord_Prelude
begin

text \<open>
  \<open>src/src/util\<close>: byte swapping, the ring interval test \<open>is_in_range_loop\<close>, the array arithmetic
  of the finger table (\<open>pow2\<close> and \<open>operator+\<close> on \<open>std::array<uint8_t, n>\<close>), and the string
  helpers. The lemmas show that byte swapping is an involution that reverses the bytes, that the
  array addition is addition of big-endian numbers modulo \<open>256 ^ n\<close>, and that
  \<open>is_in_range_loop\<close> is membership in an arc of the identifier circle.
\<close>

section \<open>Definitions\<close>

subsection \<open>Message types (constants.h)\<close>

definition DHT_PUT :: u16 where "DHT_PUT = 650"
definition DHT_GET :: u16 where "DHT_GET = 651"
definition DHT_SUCCESS :: u16 where "DHT_SUCCESS = 652"
definition DHT_FAILURE :: u16 where "DHT_FAILURE = 653"
definition DHT_PUT_KEY_IS_HASH_OF_DATA :: u16 where "DHT_PUT_KEY_IS_HASH_OF_DATA = 654"
definition DHT_GET_KEY_IS_HASH_OF_DATA :: u16 where "DHT_GET_KEY_IS_HASH_OF_DATA = 655"

lemmas msg_type_defs = DHT_PUT_def DHT_GET_def DHT_SUCCESS_def DHT_FAILURE_def
  DHT_PUT_KEY_IS_HASH_OF_DATA_def DHT_GET_KEY_IS_HASH_OF_DATA_def

subsection \<open>Byte order\<close>

text \<open>The 16-bit operands are promoted to \<open>unsigned int\<close> before they are masked and shifted.\<close>

definition swapBytes16 :: "u16 \<Rightarrow> u16" where
  "swapBytes16 x =
     ucast ((push_bit 8 (0x00ff AND (ucast x :: u32))) OR (drop_bit 8 (0xff00 AND (ucast x :: u32))))"

definition swapBytes32 :: "u32 \<Rightarrow> u32" where
  "swapBytes32 x =
     (push_bit 24 (0x000000ff AND x)) OR
     (push_bit 8 (0x0000ff00 AND x)) OR
     (drop_bit 8 (0x00ff0000 AND x)) OR
     (drop_bit 24 (0xff000000 AND x))"

definition swapBytes64 :: "u64 \<Rightarrow> u64" where
  "swapBytes64 x =
     (push_bit 56 (0x00000000000000ff AND x)) OR
     (push_bit 40 (0x000000000000ff00 AND x)) OR
     (push_bit 24 (0x0000000000ff0000 AND x)) OR
     (push_bit 8 (0x00000000ff000000 AND x)) OR
     (drop_bit 8 (0x000000ff00000000 AND x)) OR
     (drop_bit 24 (0x0000ff0000000000 AND x)) OR
     (drop_bit 40 (0x00ff000000000000 AND x)) OR
     (drop_bit 56 (0xff00000000000000 AND x))"

subsection \<open>convertToBytes\<close>

text \<open>
  \<open>ret\<close> is value-initialised to zeros; the source's prefix of length
  \<open>min size (length bs)\<close> is copied over its front.
\<close>

definition convertToBytes :: "bytes \<Rightarrow> nat option \<Rightarrow> bytes" where
  "convertToBytes bs size_opt =
     (case size_opt of
        None \<Rightarrow> overwrite (replicate (length bs) 0) 0 bs
      | Some n \<Rightarrow> overwrite (replicate n 0) 0 (take (min n (length bs)) bs))"

subsection \<open>The interval test of the identifier circle\<close>

definition is_in_range_loop :: "'a::linorder \<Rightarrow> 'a \<Rightarrow> 'a \<Rightarrow> bool \<Rightarrow> bool \<Rightarrow> bool" where
  "is_in_range_loop v min_value max_value include_min include_max =
     (if min_value \<le> max_value \<and> (min_value \<noteq> max_value \<or> (include_min \<and> include_max))
      then (if include_min then min_value \<le> v else min_value < v) \<and>
           (if include_max then v \<le> max_value else v < max_value)
      else (if include_min then min_value \<le> v else min_value < v) \<or>
           (if include_max then v \<le> max_value else v < max_value))"

subsection \<open>Array arithmetic\<close>

text \<open>
  \<open>index\<close> is a signed 64-bit value: past the array it is negative, and the guard skips the write.
\<close>

definition pow2 :: "nat \<Rightarrow> nat \<Rightarrow> bytes" where
  "pow2 sz ex =
     (let ret = replicate sz 0;
          index = int sz - 1 - int (ex div 8)
      in if index < int sz \<and> 0 \<le> index then ret[nat index := 2 ^ (ex mod 8)] else ret)"

text \<open>
  One round of the loop of \<open>operator+\<close>: the sum so far is 0 or the carry; each addition first
  compares with the space left below \<open>~0\<close>, in \<open>size_t\<close>.
\<close>

definition add_digit :: "bool \<Rightarrow> byte \<Rightarrow> byte \<Rightarrow> byte \<times> bool" where
  "add_digit carry a b =
     (let sum0 = (if carry then 0 + 1 else 0);
          carry0 = False;
          carry1 = (if (ucast (- 1 :: byte) :: u64) - ucast sum0 < ucast a then True else carry0);
          sum1 = sum0 + a;
          carry2 = (if (ucast (- 1 :: byte) :: u64) - ucast sum1 < ucast b then True else carry1);
          sum2 = sum1 + b
      in (sum2, carry2))"

fun array_add_loop :: "bytes \<Rightarrow> bytes \<Rightarrow> nat \<Rightarrow> bool \<Rightarrow> bytes \<Rightarrow> bytes" where
  "array_add_loop a b 0 carry ret = ret"
| "array_add_loop a b (Suc i) carry ret =
     (let (sum, carry') = add_digit carry (a ! i) (b ! i)
      in array_add_loop a b i carry' (ret[i := sum]))"

definition array_add :: "bytes \<Rightarrow> bytes \<Rightarrow> bytes" where
  "array_add a b = array_add_loop a b (length a) False (replicate (length a) 0)"

subsection \<open>Strings\<close>

definition char_to_lower :: "char \<Rightarrow> char" where
  "char_to_lower c =
     (let n = of_char c :: nat in if 65 \<le> n \<and> n \<le> 90 then char_of (n + 32) else c)"

definition to_lower :: "string \<Rightarrow> string" where
  "to_lower str = map char_to_lower str"

fun join_rest :: "string \<Rightarrow> string \<Rightarrow> string list \<Rightarrow> string" where
  "join_rest ret delimiter [] = ret"
| "join_rest ret delimiter (s # ss) = join_rest (ret @ delimiter @ s) delimiter ss"

definition join :: "string list \<Rightarrow> string \<Rightarrow> string" where
  "join strs delimiter = (case strs of [] \<Rightarrow> [] | s # ss \<Rightarrow> join_rest s delimiter ss)"

text \<open>\<open>std::bitset<8>\<close> prints its most significant bit first.\<close>

definition bitset8 :: "byte \<Rightarrow> string" where
  "bitset8 b = map (\<lambda>i. if bit b i then CHR ''1'' else CHR ''0'') [7, 6, 5, 4, 3, 2, 1, 0]"

definition bytedump_cell :: "bytes \<Rightarrow> nat \<Rightarrow> nat \<Rightarrow> string" where
  "bytedump_cell bs i j =
     (if 0 < j then '' '' else []) @
     (if i + j < length bs then bitset8 (bs ! (i + j)) else ''  '')"

text \<open>
  The rows of \<open>bytedump\<close>, from offset \<open>i\<close>. A stride of 0 leaves the source's loop counter
  where it is; the caller below gives that case its own outcome.
\<close>

function bytedump_rows :: "bytes \<Rightarrow> nat \<Rightarrow> nat \<Rightarrow> string" where
  "bytedump_rows bs stride i =
     (if i < length bs \<and> 0 < stride
      then (if i \<noteq> 0 then [CHR 0x0A] else []) @
           concat (map (bytedump_cell bs i) [0..<stride]) @
           bytedump_rows bs stride (i + stride)
      else [])"
  by pat_completeness auto
termination
  by (relation "measure (\<lambda>(bs, stride, i). length bs - i)") auto

declare bytedump_rows.simps [simp del]

text \<open>\<open>None\<close>: the loop does not end.\<close>

definition bytedump :: "bytes \<Rightarrow> nat \<Rightarrow> string option" where
  "bytedump bs stride =
     (if stride = 0 \<and> bs \<noteq> [] then None else Some (bytedump_rows bs stride 0))"

definition hex_digit :: "nat \<Rightarrow> char" where
  "hex_digit n = (if n < 10 then char_of (48 + n) else char_of (87 + n))"

fun hex_of_nat :: "nat \<Rightarrow> string" where
  "hex_of_nat n = (if n < 16 then [hex_digit n] else hex_of_nat (n div 16) @ [hex_digit (n mod 16)])"

declare hex_of_nat.simps [simp del]

definition setw0 :: "nat \<Rightarrow> string \<Rightarrow> string" where
  "setw0 w s = replicate (w - length s) (CHR ''0'') @ s"

definition isprint_char :: "byte \<Rightarrow> char" where
  "isprint_char b = (if 32 \<le> unat b \<and> unat b \<le> 126 then char_of (unat b) else CHR ''.'')"

definition hexdump_row :: "bytes \<Rightarrow> nat \<Rightarrow> bool \<Rightarrow> bool \<Rightarrow> nat \<Rightarrow> string" where
  "hexdump_row bs stride print_offsets print_readable i =
     (if i \<noteq> 0 then [CHR 0x0A] else []) @
     (if print_offsets then setw0 6 (hex_of_nat i) @ '': '' else []) @
     concat (map (\<lambda>j. (if 0 < j then '' '' else []) @
                      (if i + j < length bs then setw0 2 (hex_of_nat (unat (bs ! (i + j)))) else ''  ''))
                 [0..<stride]) @
     (if print_readable
      then '' '' @ concat (map (\<lambda>j. if i + j < length bs then [isprint_char (bs ! (i + j))] else [])
                               [0..<stride])
      else [])"

function hexdump_rows :: "bytes \<Rightarrow> nat \<Rightarrow> bool \<Rightarrow> bool \<Rightarrow> nat \<Rightarrow> string" where
  "hexdump_rows bs stride print_offsets print_readable i =
     (if i < length bs \<and> 0 < stride
      then hexdump_row bs stride print_offsets print_readable i @
           hexdump_rows bs stride print_offsets print_readable (i + stride)
      else [])"
  by pat_completeness auto
termination
  by (relation "measure (\<lambda>(bs, stride, po, pr, i). length bs - i)") auto

declare hexdump_rows.simps [simp del]

definition hexdump :: "bytes \<Rightarrow> nat \<Rightarrow> bool \<Rightarrow> bool \<Rightarrow> string option" where
  "hexdump bs stride print_offsets print_readable =
     (if stride = 0 \<and> bs \<noteq> [] then None
      else Some (hexdump_rows bs stride print_offsets print_readable 0))"

text \<open>
  \<open>std::to_string\<close> of an unsigned value, and the byte view the hash functions take of a
  \<open>std::string\<close>.
\<close>

fun to_string_nat :: "nat \<Rightarrow> string" where
  "to_string_nat n =
     (if n < 10 then [char_of (48 + n)] else to_string_nat (n div 10) @ [char_of (48 + n mod 10)])"

declare to_string_nat.simps [simp del]

definition bytes_of_string :: "string \<Rightarrow> bytes" where
  "bytes_of_string s = map of_char s"

text \<open>
  \<open>std::remove_if(..., ::isspace)\<close> with \<open>erase\<close>, as the proof of work applies it to a bit dump.
\<close>

definition isspace :: "char \<Rightarrow> bool" where
  "isspace c = (let n = of_char c :: nat in n = 32 \<or> 9 \<le> n \<and> n \<le> 13)"

definition strip_spaces :: "string \<Rightarrow> string" where
  "strip_spaces s = filter (\<lambda>c. \<not> isspace c) s"

subsection \<open>Vocabulary of the specifications\<close>

text \<open>
  The number a decimal numeral denotes, and the clockwise distance between two points of an
  identifier circle of \<open>M\<close> points.
\<close>

fun dec_val :: "nat \<Rightarrow> string \<Rightarrow> nat" where
  "dec_val acc [] = acc"
| "dec_val acc (c # cs) = dec_val (acc * 10 + (of_char c - 48)) cs"

definition clockwise :: "nat \<Rightarrow> bytes \<Rightarrow> bytes \<Rightarrow> nat" where
  "clockwise M a b = (be_val b + M - be_val a) mod M"

text \<open>
  The node that a key belongs to, on a ring of node identifiers \<open>N\<close>: the first node at or after the
  key, clockwise.
\<close>

definition ring_successor :: "'a::linorder set \<Rightarrow> 'a \<Rightarrow> 'a" where
  "ring_successor N k = (if \<exists>n\<in>N. k \<le> n then Min {n \<in> N. k \<le> n} else Min N)"

section \<open>Byte order\<close>

lemma byte_masks16: "(0x00ff :: u32) = mask 8" "(0xff00 :: u32) = push_bit 8 (mask 8)"
  by (simp_all add: mask_eq_exp_minus_1 push_bit_eq_mult)

lemma bit_swapBytes16:
  "bit (swapBytes16 x) n \<longleftrightarrow> n < 16 \<and> bit x (if n < 8 then n + 8 else n - 8)"
  unfolding swapBytes16_def byte_masks16
  by (auto simp: bit_simps ac_simps)

lemma byte_masks64:
  "(0x00000000000000ff :: u64) = mask 8"
  "(0x000000000000ff00 :: u64) = push_bit 8 (mask 8)"
  "(0x0000000000ff0000 :: u64) = push_bit 16 (mask 8)"
  "(0x00000000ff000000 :: u64) = push_bit 24 (mask 8)"
  "(0x000000ff00000000 :: u64) = push_bit 32 (mask 8)"
  "(0x0000ff0000000000 :: u64) = push_bit 40 (mask 8)"
  "(0x00ff000000000000 :: u64) = push_bit 48 (mask 8)"
  "(0xff00000000000000 :: u64) = push_bit 56 (mask 8)"
  by (simp_all add: mask_eq_exp_minus_1 push_bit_eq_mult)

lemma bit_swapBytes64:
  assumes "r < 8" "q < 8"
  shows "bit (swapBytes64 x) (8 * q + r) \<longleftrightarrow> bit x (8 * (7 - q) + r)"
proof -
  have "q = 0 \<or> q = 1 \<or> q = 2 \<or> q = 3 \<or> q = 4 \<or> q = 5 \<or> q = 6 \<or> q = 7" using assms(2) by linarith
  then show ?thesis
    unfolding swapBytes64_def byte_masks64
    by (elim disjE) (use assms(1) in \<open>simp add: bit_or_iff bit_push_bit_iff bit_drop_bit_eq bit_and_iff bit_mask_iff add.commute [of _ r]\<close>)+
qed

lemma byte_masks32:
  "(0x000000ff :: u32) = mask 8"
  "(0x0000ff00 :: u32) = push_bit 8 (mask 8)"
  "(0x00ff0000 :: u32) = push_bit 16 (mask 8)"
  "(0xff000000 :: u32) = push_bit 24 (mask 8)"
  by (simp_all add: mask_eq_exp_minus_1 push_bit_eq_mult)

lemma bit_swapBytes32:
  assumes "r < 8" "q < 4"
  shows "bit (swapBytes32 x) (8 * q + r) \<longleftrightarrow> bit x (8 * (3 - q) + r)"
proof -
  have "q = 0 \<or> q = 1 \<or> q = 2 \<or> q = 3" using assms(2) by linarith
  then show ?thesis
    unfolding swapBytes32_def byte_masks32
    by (elim disjE) (use assms(1) in \<open>simp add: bit_or_iff bit_push_bit_iff bit_drop_bit_eq bit_and_iff bit_mask_iff add.commute [of _ r]\<close>)+
qed

lemma bit_swapBytes16_byte:
  assumes "r < 8" "q < 2"
  shows "bit (swapBytes16 x) (8 * q + r) \<longleftrightarrow> bit x (8 * (1 - q) + r)"
proof -
  have "q = 0 \<or> q = 1" using assms(2) by linarith
  then show ?thesis using assms(1) by (elim disjE) (simp_all add: bit_swapBytes16 add.commute)
qed

lemma le_bytes_rev:
  assumes "\<And>q r. r < 8 \<Longrightarrow> q < n \<Longrightarrow> bit y (8 * q + r) \<longleftrightarrow> bit x (8 * (n - 1 - q) + r)"
  shows "le_bytes n y = rev (le_bytes n x)"
proof (rule nth_equalityI)
  fix q assume "q < length (le_bytes n y)"
  then have q: "q < n" by (simp add: le_bytes_def)
  have "bit (ucast (drop_bit (8 * q) y) :: byte) r \<longleftrightarrow> bit (ucast (drop_bit (8 * (n - 1 - q)) x) :: byte) r" for r
    using assms [OF _ q, of r] by (cases "r < 8") (simp_all add: bit_ucast_iff bit_drop_bit_eq)
  then show "le_bytes n y ! q = rev (le_bytes n x) ! q"
    using q by (simp add: le_bytes_def rev_nth bit_eq_iff)
qed (simp add: le_bytes_def)

lemma swapBytes_reverse:
  "le_bytes 2 (swapBytes16 x) = rev (le_bytes 2 x)"
  "le_bytes 4 (swapBytes32 y) = rev (le_bytes 4 y)"
  "le_bytes 8 (swapBytes64 z) = rev (le_bytes 8 z)"
  by (rule le_bytes_rev, simp add: bit_swapBytes16_byte bit_swapBytes32 bit_swapBytes64)+

lemma swapBytes_involution:
  "swapBytes16 (swapBytes16 x) = x"
  "swapBytes32 (swapBytes32 y) = y"
  "swapBytes64 (swapBytes64 z) = z"
  by (rule le_bytes_inj [of 2] le_bytes_inj [of 4] le_bytes_inj [of 8], simp add: swapBytes_reverse, simp)+

section \<open>The identifier circle\<close>

lemma range_open [range_simps]:
  "is_in_range_loop v a b False False \<longleftrightarrow> (if a < b then a < v \<and> v < b else a < v \<or> v < b)"
  by (auto simp: is_in_range_loop_def)

lemma range_half_open [range_simps]:
  "is_in_range_loop v a b False True \<longleftrightarrow> (if a < b then a < v \<and> v \<le> b else a < v \<or> v \<le> b)"
  by (auto simp: is_in_range_loop_def)

text \<open>
  What the routing code relies on: seen from a target \<open>k\<close>, \<open>between x a k\<close> (\<open>x\<close> lies strictly
  between \<open>a\<close> and \<open>k\<close>, clockwise) is a strict total order, and \<open>up_to k a b\<close> (\<open>k\<close> is in the arc
  from \<open>a\<close>, excluded, to \<open>b\<close>, included) is its complement.
\<close>

locale arc_order =
  fixes between :: "'a \<Rightarrow> 'a \<Rightarrow> 'a \<Rightarrow> bool"
    and up_to :: "'a \<Rightarrow> 'a \<Rightarrow> 'a \<Rightarrow> bool"
  assumes between_irrefl: "\<not> between a a k"
    and between_trans: "between x a k \<Longrightarrow> between y x k \<Longrightarrow> between y a k"
    and between_total: "x \<noteq> y \<Longrightarrow> between x y k \<or> between y x k"
    and up_to_iff: "up_to k a b \<longleftrightarrow> \<not> between b a k"
begin

lemma between_asym: "between x a k \<Longrightarrow> \<not> between a x k"
  using between_trans between_irrefl by blast

lemma not_between_trans: "\<not> between x a k \<Longrightarrow> \<not> between a y k \<Longrightarrow> \<not> between x y k"
  using between_trans between_total by metis

text \<open>Keeping, of a sequence of candidates, the one closest before \<open>k\<close>.\<close>

lemma keep_closest:
  "fold (\<lambda>w p. if between (f w) (f p) k then w else p) ws p0 \<in> set (p0 # ws) \<and>
   (\<forall>q \<in> set (p0 # ws). \<not> between (f q) (f (fold (\<lambda>w p. if between (f w) (f p) k then w else p) ws p0)) k)"
proof (induction ws arbitrary: p0)
  case Nil
  then show ?case by (simp add: between_irrefl)
next
  case (Cons w ws)
  let ?p = "if between (f w) (f p0) k then w else p0"
  let ?r = "fold (\<lambda>w p. if between (f w) (f p) k then w else p) ws ?p"
  have ih: "?r \<in> set (?p # ws)" "\<And>q. q \<in> set (?p # ws) \<Longrightarrow> \<not> between (f q) (f ?r) k"
    using Cons.IH [of ?p] by blast+
  have "\<not> between (f w) (f ?p) k" "\<not> between (f p0) (f ?p) k"
    using between_irrefl between_asym by auto
  then have "\<not> between (f q) (f ?r) k" if "q = w \<or> q = p0" for q
    using that not_between_trans [of "f q" "f ?p" k "f ?r"] ih(2) [of ?p] by auto
  moreover have "?r \<in> set (p0 # w # ws)" using ih(1) by (auto split: if_splits)
  ultimately show ?case using ih(2) by auto
qed

lemma arc_measure_decreases:
  assumes "finite N" and "x \<in> N" and "between x a k"
  shows "card {y \<in> N. between y x k} < card {y \<in> N. between y a k}"
proof (rule psubset_card_mono)
  show "finite {y \<in> N. between y a k}" using assms(1) by simp
  have "{y \<in> N. between y x k} \<subseteq> {y \<in> N. between y a k}"
    using between_trans [OF assms(3)] by blast
  moreover have "x \<in> {y \<in> N. between y a k}" "x \<notin> {y \<in> N. between y x k}"
    using assms between_irrefl by auto
  ultimately show "{y \<in> N. between y x k} \<subset> {y \<in> N. between y a k}" by blast
qed

end

interpretation circle: arc_order
  "\<lambda>v a b. is_in_range_loop v a b False False" "\<lambda>v a b. is_in_range_loop v a b False True"
  by unfold_locales (auto simp: range_simps split: if_splits)

lemma clockwise_eq:
  assumes "length a = n" "length b = n"
  shows "clockwise (256 ^ n) a b = (if be_val a \<le> be_val b then be_val b - be_val a else be_val b + 256 ^ n - be_val a)"
proof -
  have "be_val a < 256 ^ n" "be_val b < 256 ^ n" using be_val_less [of a] be_val_less [of b] assms by simp_all
  then show ?thesis by (auto simp: clockwise_def le_mod_geq)
qed

lemma range_open_clockwise:
  assumes "length v = n" "length a = n" "length b = n"
  shows "is_in_range_loop v a b False False \<longleftrightarrow>
    0 < clockwise (256 ^ n) a v \<and>
    clockwise (256 ^ n) a v < (if a = b then 256 ^ n else clockwise (256 ^ n) a b)"
proof -
  have *: "be_val a < 256 ^ n" "be_val b < 256 ^ n" "be_val v < 256 ^ n"
    using be_val_less assms by metis+
  have e: "a = b \<longleftrightarrow> be_val a = be_val b" using be_val_inj assms by metis
  show ?thesis
    using * unfolding e
    by (auto simp: range_simps clockwise_eq assms be_val_less_iff split: if_splits)
qed

lemma range_clockwise:
  assumes "length v = n" "length a = n" "length b = n"
  shows "is_in_range_loop v a b include_min include_max \<longleftrightarrow>
    (if a = b then (if include_min \<and> include_max then v = a else if include_min \<or> include_max then True else v \<noteq> a)
     else (include_min \<or> 0 < clockwise (256 ^ n) a v) \<and>
       (if include_max then clockwise (256 ^ n) a v \<le> clockwise (256 ^ n) a b
        else clockwise (256 ^ n) a v < clockwise (256 ^ n) a b))"
proof (cases "a = b")
  case True
  then show ?thesis by (auto simp: is_in_range_loop_def)
next
  case False
  have *: "be_val a < 256 ^ n" "be_val b < 256 ^ n" "be_val v < 256 ^ n" using be_val_less assms by metis+
  have "a < b \<longleftrightarrow> be_val a < be_val b" "a \<le> b \<longleftrightarrow> be_val a < be_val b" "v < b \<longleftrightarrow> be_val v < be_val b" "v \<le> b \<longleftrightarrow> be_val v \<le> be_val b"
    "a < v \<longleftrightarrow> be_val a < be_val v" "a \<le> v \<longleftrightarrow> be_val a \<le> be_val v"
    using False assms be_val_inj by (auto simp: be_val_less_iff order_le_less)
  note less = this
  have "clockwise (256 ^ n) a v = (if be_val a \<le> be_val v then be_val v - be_val a else be_val v + 256 ^ n - be_val a)"
    "clockwise (256 ^ n) a b = (if be_val a \<le> be_val b then be_val b - be_val a else be_val b + 256 ^ n - be_val a)"
    using clockwise_eq assms by metis+
  moreover have "be_val a \<noteq> be_val b" using False be_val_inj assms by metis
  ultimately show ?thesis
    unfolding is_in_range_loop_def less using False *
    by (cases include_min; cases include_max; cases "be_val a \<le> be_val v"; cases "be_val a \<le> be_val b") (simp_all, linarith+)
qed

lemma range_half_open_clockwise:
  assumes "length v = n" "length a = n" "length b = n"
  shows "is_in_range_loop v a b False True \<longleftrightarrow>
    a = b \<or> 0 < clockwise (256 ^ n) a v \<and> clockwise (256 ^ n) a v \<le> clockwise (256 ^ n) a b"
proof -
  have *: "be_val a < 256 ^ n" "be_val b < 256 ^ n" "be_val v < 256 ^ n"
    using be_val_less assms by metis+
  have e: "a = b \<longleftrightarrow> be_val a = be_val b" using be_val_inj assms by metis
  show ?thesis
    using * unfolding e
    by (auto simp: range_simps clockwise_eq assms be_val_less_iff be_val_le_iff split: if_splits)
qed

lemma ring_successor_eqI:
  assumes "finite N" and "a \<in> N" and "s \<in> N"
    and gap: "\<And>y. y \<in> N \<Longrightarrow> \<not> is_in_range_loop y a s False False"
    and k: "is_in_range_loop k a s False True"
  shows "ring_successor N k = s"
proof (cases "\<exists>n\<in>N. k \<le> n")
  case True
  have "k \<le> s"
  proof (rule ccontr)
    assume "\<not> k \<le> s"
    with k have "s < k" "a < k" "s \<le> a" by (auto simp: range_simps split: if_splits)
    moreover from True obtain n where "n \<in> N" "k \<le> n" by blast
    ultimately show False using gap [of n] by (auto simp: range_simps split: if_splits)
  qed
  moreover have "s \<le> y" if "y \<in> N" "k \<le> y" for y
    using gap [OF that(1)] that(2) k \<open>k \<le> s\<close> by (auto simp: range_simps split: if_splits)
  ultimately have "Min {n \<in> N. k \<le> n} = s"
    using assms(1,3) by (intro Min_eqI) auto
  with True show ?thesis by (simp add: ring_successor_def)
next
  case False
  then have "s < k" "a < k" using assms(2,3) by (auto simp: not_le)
  then have "s \<le> a" using k by (auto simp: range_simps split: if_splits)
  have "s \<le> y" if "y \<in> N" for y
    using gap [OF that] False that \<open>s \<le> a\<close> by (auto simp: range_simps split: if_splits)
  then have "Min N = s" using assms(1,3) by (intro Min_eqI) auto
  with False show ?thesis by (simp add: ring_successor_def)
qed

section \<open>Array arithmetic\<close>

lemma unat_ucast_byte [simp]: "unat (ucast b :: u64) = unat b" for b :: byte
proof -
  have "unat b < 2 ^ 64" by (rule less_le_trans [OF unat_byte_less]) simp
  then show ?thesis by (simp add: unsigned_ucast_eq take_bit_nat_eq_self_iff)
qed

lemma room_below_max:
  "((ucast (- 1 :: byte) :: u64) - ucast s < ucast a) \<longleftrightarrow> 255 < unat s + unat (a :: byte)" for s :: byte
proof -
  have m: "unat (- 1 :: byte) = 255" by code_simp
  have "unat ((ucast (- 1 :: byte) :: u64) - ucast s) = 255 - unat s"
    unfolding unat_sub_if' unat_ucast_byte m using unat_byte_le [of s] by simp
  then have "((ucast (- 1 :: byte) :: u64) - ucast s < ucast a) \<longleftrightarrow> 255 - unat s < unat a"
    by (simp only: word_less_nat_alt unat_ucast_byte)
  then show ?thesis using unat_byte_le [of s] by linarith
qed

lemma if_then_True: "(if p then True else q) \<longleftrightarrow> q \<or> p"
  by auto

lemma add_digit_eq:
  "add_digit carry a b =
     (of_bool carry + a + b,
      255 < of_bool carry + unat a \<or> 255 < unat (of_bool carry + a) + unat b)"
  unfolding add_digit_def Let_def room_below_max if_then_True
  by (cases carry) (simp_all only: if_True if_False unsigned_1 unsigned_0 add_0 of_bool_eq simp_thms)

lemma unat_byte_add:
  "unat (x + y) = (if 255 < unat x + unat y then unat x + unat y - 256 else unat x + unat y)"
  for x y :: byte
proof -
  have "unat (x + y) = (unat x + unat y) mod 256" by (simp add: unat_word_ariths)
  then show ?thesis
    using unat_byte_less [of x] unat_byte_less [of y] by (simp add: le_mod_geq not_less)
qed

lemma add_digit_correct:
  assumes "add_digit carry a b = (s, carry')"
  shows "unat s + 256 * of_bool carry' = unat a + unat b + of_bool carry"
proof -
  have "unat (of_bool carry :: byte) = of_bool carry" by simp
  then show ?thesis
    using assms unat_byte_less [of a] unat_byte_less [of b]
    by (cases carry) (auto simp: add_digit_eq unat_byte_add split: if_splits)
qed

lemma shift_digit_mod:
  fixes t s n :: nat
  assumes "s < n"
  shows "(t * n + s) mod n ^ Suc i = (t mod n ^ i) * n + s"
  using assms mod_mult2_eq [of "t * n + s" n "n ^ i"] by (simp add: mult.commute)

lemma length_array_add_loop [simp]: "length (array_add_loop a b i carry ret) = length ret"
  by (induction a b i carry ret rule: array_add_loop.induct) (simp_all split: prod.splits)

lemma array_add_loop_split:
  assumes "i \<le> length a" "length b = length a" "length ret = length a"
  shows "\<exists>ds. length ds = i \<and> array_add_loop a b i carry ret = ds @ drop i ret \<and>
           be_val ds = (be_val (take i a) + be_val (take i b) + of_bool carry) mod 256 ^ i"
  using assms
proof (induction i arbitrary: carry ret)
  case 0
  then show ?case by simp
next
  case (Suc i)
  obtain s c' where d: "add_digit carry (a ! i) (b ! i) = (s, c')" by fastforce
  note ad = add_digit_correct [OF d]
  obtain ds where ds: "length ds = i" "array_add_loop a b i c' (ret[i := s]) = ds @ drop i (ret[i := s])"
    "be_val ds = (be_val (take i a) + be_val (take i b) + of_bool c') mod 256 ^ i"
    using Suc.IH [of "ret[i := s]" c'] Suc.prems by auto
  have dr: "drop i (ret[i := s]) = s # drop (Suc i) ret"
    using Suc.prems by (simp add: Cons_nth_drop_Suc [symmetric] drop_update_swap)
  have ta: "be_val (take (Suc i) a) = be_val (take i a) * 256 + unat (a ! i)"
    and tb: "be_val (take (Suc i) b) = be_val (take i b) * 256 + unat (b ! i)"
    using Suc.prems by (simp_all add: take_Suc_conv_app_nth be_val_append)
  let ?t = "be_val (take i a) + be_val (take i b) + of_bool c'"
  have tot: "be_val (take (Suc i) a) + be_val (take (Suc i) b) + of_bool carry = ?t * 256 + unat s"
    using ad by (simp add: ta tb algebra_simps)
  have "be_val (ds @ [s]) = (?t mod 256 ^ i) * 256 + unat s"
    by (simp add: be_val_append ds(3))
  also have "\<dots> = (?t * 256 + unat s) mod 256 ^ Suc i"
    by (rule shift_digit_mod [symmetric]) (rule unat_byte_less)
  finally have "be_val (ds @ [s]) = (?t * 256 + unat s) mod 256 ^ Suc i" .
  then show ?case
    using ds(1,2) d dr by (intro exI [of _ "ds @ [s]"]) (simp add: tot del: power_Suc)
qed

lemma be_val_array_add:
  "length b = length a \<Longrightarrow> be_val (array_add a b) = (be_val a + be_val b) mod 256 ^ length a"
  using array_add_loop_split [of "length a" a b "replicate (length a) 0" False]
  by (auto simp: array_add_def)

lemma length_array_add [simp]: "length (array_add a b) = length a"
  by (simp add: array_add_def)

lemma length_pow2 [simp]: "length (pow2 sz ex) = sz"
  by (simp add: pow2_def Let_def)

lemma be_val_pow2:
  assumes "ex < 8 * sz"
  shows "be_val (pow2 sz ex) = 2 ^ ex"
proof -
  let ?q = "ex div 8" and ?r = "ex mod 8"
  have q: "?q < sz" using assms by linarith
  then have idx: "nat (int sz - 1 - int ?q) = sz - Suc ?q" by linarith
  have "(2 :: nat) ^ ?r < 2 ^ 8" by (rule power_strict_increasing) simp_all
  then have u: "unat ((2 :: byte) ^ ?r) = 2 ^ ?r"
    by (simp add: unsigned_of_nat [of "2 ^ ?r", where 'b = 8, simplified] take_bit_nat_eq_self_iff)
  have "pow2 sz ex = (replicate sz 0)[sz - Suc ?q := 2 ^ ?r]"
    using q by (simp add: pow2_def Let_def idx)
  also have "\<dots> = replicate (sz - Suc ?q) 0 @ 2 ^ ?r # replicate ?q 0"
    using q by (simp add: upd_conv_take_nth_drop)
  finally have "be_val (pow2 sz ex) = 2 ^ ?r * 256 ^ ?q"
    by (simp add: be_val_append u)
  also have "\<dots> = 2 ^ ?r * 2 ^ (8 * ?q)"
    by (simp add: power_mult)
  finally show ?thesis
    by (simp add: power_add [symmetric])
qed

section \<open>Strings\<close>

lemma isspace_simps [simp]:
  "isspace CHR '' ''" "isspace CHR 0x0A" "\<not> isspace CHR ''0''" "\<not> isspace CHR ''1''"
  by (simp_all add: isspace_def)

lemma bitset8_no_space: "filter (\<lambda>c. \<not> isspace c) (bitset8 b) = bitset8 b"
  by (simp add: bitset8_def)

lemma length_bitset8 [simp]: "length (bitset8 b) = 8"
  by (simp add: bitset8_def)

lemma strip_cell: "strip_spaces (bytedump_cell bs i j) = (if i + j < length bs then bitset8 (bs ! (i + j)) else [])"
  by (simp add: bytedump_cell_def strip_spaces_def bitset8_no_space)

lemma strip_row:
  "strip_spaces (concat (map (bytedump_cell bs i) [0..<n])) = concat (map bitset8 (take n (drop i bs)))"
proof (induction n)
  case 0
  then show ?case by (simp add: strip_spaces_def)
next
  case (Suc n)
  then have "strip_spaces (concat (map (bytedump_cell bs i) [0..<Suc n])) =
      concat (map bitset8 (take n (drop i bs))) @ strip_spaces (bytedump_cell bs i n)"
    by (simp add: strip_spaces_def)
  also have "\<dots> = concat (map bitset8 (take (Suc n) (drop i bs)))"
    by (simp add: strip_cell take_Suc_conv_app_nth)
  finally show ?case .
qed

lemma strip_bytedump_rows:
  "0 < stride \<Longrightarrow> strip_spaces (bytedump_rows bs stride i) = concat (map bitset8 (drop i bs))"
proof (induction bs stride i rule: bytedump_rows.induct)
  case (1 bs stride i)
  show ?case
  proof (cases "i < length bs")
    case True
    have nl: "strip_spaces (if i \<noteq> 0 then [CHR 0x0A] else []) = []" by (simp add: strip_spaces_def)
    have app: "strip_spaces (x @ y) = strip_spaces x @ strip_spaces y" for x y by (simp add: strip_spaces_def)
    have "drop i bs = take stride (drop i bs) @ drop (i + stride) bs"
      by (metis append_take_drop_id drop_drop add.commute)
    with True 1 show ?thesis
      by (subst bytedump_rows.simps) (simp only: app nl strip_row if_True append_Nil simp_thms flip: concat_append map_append)
  qed (subst bytedump_rows.simps, simp add: strip_spaces_def)
qed

lemma to_string_nat_digit: "c \<in> set (to_string_nat n) \<Longrightarrow> 48 \<le> (of_char c :: nat) \<and> (of_char c :: nat) < 58"
proof (induction n arbitrary: c rule: to_string_nat.induct)
  case (1 n)
  show ?case
    using 1 by (cases "n < 10") (auto simp: to_string_nat.simps [of n])
qed

lemma dec_val_append: "dec_val acc (xs @ [c]) = dec_val acc xs * 10 + (of_char c - 48)"
  by (induction xs arbitrary: acc) simp_all

lemma dec_val_to_string: "dec_val 0 (to_string_nat n) = n"
proof (induction n rule: to_string_nat.induct)
  case (1 n)
  then show ?case
    by (cases "n < 10") (auto simp: to_string_nat.simps [of n] dec_val_append)
qed

lemma to_string_nat_inj [simp]: "to_string_nat m = to_string_nat n \<longleftrightarrow> m = n"
  using dec_val_to_string by metis

lemma split_last_separator:
  assumes "xs @ c # ys = xs' @ c # ys'" "c \<notin> set ys" "c \<notin> set ys'"
  shows "xs = xs' \<and> ys = ys'"
proof -
  have r: "rev ys @ c # rev xs = rev ys' @ c # rev xs'"
    using assms(1) by (metis rev.simps(2) rev_append append_Cons append_Nil append_assoc)
  have tw: "takeWhile (\<lambda>d. d \<noteq> c) (zs @ c # ws) = zs" if "c \<notin> set zs" for zs ws
    using that by (induction zs) auto
  have "rev ys = rev ys'"
    using tw [of "rev ys" "rev xs"] tw [of "rev ys'" "rev xs'"] assms(2,3) r by simp
  with assms(1) show ?thesis by simp
qed

section \<open>Properties\<close>

text \<open>
  Swapping the bytes of a 16-, 32- or 64-bit value reverses its bytes in memory, and swapping
  twice gives the value back.
\<close>

theorem swap_bytes_correct:
  "(le_bytes 2 (swapBytes16 a) = rev (le_bytes 2 a) \<and> swapBytes16 (swapBytes16 a) = a) \<and>
   (le_bytes 4 (swapBytes32 b) = rev (le_bytes 4 b) \<and> swapBytes32 (swapBytes32 b) = b) \<and>
   (le_bytes 8 (swapBytes64 c) = rev (le_bytes 8 c) \<and> swapBytes64 (swapBytes64 c) = c)"
  by (simp add: swapBytes_reverse swapBytes_involution)

text \<open>
  C32: On identifiers of \<open>n\<close> bytes, the interval test is membership in an arc of the identifier circle, for every choice
  of the two flags. With different ends, the value is at a clockwise distance from the start that is at most that of the
  end: smaller if the end is excluded, and positive if the start is. With coinciding ends, the arc is that point if both
  are included, the circle without that point if both are excluded, and the whole circle if only one is.
\<close>

theorem interval_is_arc:
  assumes "length v = n" and "length a = n" and "length b = n"
  shows "is_in_range_loop v a b include_min include_max \<longleftrightarrow>
    (if a = b then (if include_min \<and> include_max then v = a else if include_min \<or> include_max then True else v \<noteq> a)
     else (include_min \<or> 0 < clockwise (256 ^ n) a v) \<and>
       (if include_max then clockwise (256 ^ n) a v \<le> clockwise (256 ^ n) a b
        else clockwise (256 ^ n) a v < clockwise (256 ^ n) a b))"
  by (rule range_clockwise [OF assms])

theorem interval_is_arc_witness:
  "is_in_range_loop [5] [250] [(10 :: byte)] False False \<and> \<not> is_in_range_loop [11] [250] [(10 :: byte)] True True \<and>
   clockwise 256 [250] [5] = 11"
  using interval_is_arc [of "[5]" 1 "[250]" "[10]" False False] interval_is_arc [of "[11]" 1 "[250]" "[10]" True True]
  by (simp add: clockwise_def)

text \<open>
  The start of a finger's interval: adding \<open>2 ^ i\<close> to an identifier, byte by byte with a carry,
  is addition modulo \<open>2 ^ (8 * n)\<close> of big-endian numbers, with no carry lost or invented.
\<close>

theorem finger_start_correct:
  assumes "length a = n" and "i < 8 * n"
  shows "be_val (array_add a (pow2 n i)) = (be_val a + 2 ^ i) mod 2 ^ (8 * n) \<and>
    length (array_add a (pow2 n i)) = n"
  using be_val_array_add [of "pow2 n i" a] assms
  by (simp add: be_val_pow2 power_mult)

theorem finger_start_correct_witness:
  "be_val (array_add [255, 255] (pow2 2 3)) = 7"
  using finger_start_correct [of "[255, 255]" 2 3] by simp

text \<open>
  With its white space removed, the bit dump of a byte string is the concatenation of the eight
  binary digits of each byte, whatever the stride; so the leading characters of a dumped digest are
  its leading bits.
\<close>

theorem bytedump_digits:
  assumes "0 < stride"
  shows "map_option strip_spaces (bytedump bs stride) = Some (concat (map bitset8 bs))"
  using assms by (simp add: bytedump_def strip_bytedump_rows)

theorem bytedump_digits_witness:
  "map_option strip_spaces (bytedump [1, 128, 3] 2) = Some ''000000011000000000000011''"
  by (subst bytedump_digits) (simp_all add: bitset8_def)

end
