(* ===== verification/Std_Map.thy ===== *)
theory Std_Map
  imports Chord_Prelude
begin

text \<open>
  \<open>std::map\<close> as the sources use it: an association list kept in strictly ascending key order, so
  that iterating the list is iterating the map. \<open>key_value_map\<close> is the interface the node state and
  the request handlers rely on; its lemmas about erasing and assigning a whole list of entries are
  proved from the laws once, and the sorted list is shown to satisfy the laws.
\<close>

section \<open>Definitions\<close>

definition smap_ok :: "('k::linorder \<times> 'v) list \<Rightarrow> bool" where
  "smap_ok m = sorted_wrt (<) (map fst m)"

text \<open>\<open>m[k] = v\<close> (\<open>insert_or_assign\<close>), \<open>m.insert({k, v})\<close> (which keeps an entry that is there),
  \<open>m.erase(k)\<close> and \<open>m.contains(k)\<close>. \<open>m.find(k)\<close> is \<open>map_of m k\<close>.\<close>

fun smap_assign :: "'k::linorder \<Rightarrow> 'v \<Rightarrow> ('k \<times> 'v) list \<Rightarrow> ('k \<times> 'v) list" where
  "smap_assign k v [] = [(k, v)]"
| "smap_assign k v ((k', v') # m) =
     (if k < k' then (k, v) # (k', v') # m
      else if k = k' then (k, v) # m
      else (k', v') # smap_assign k v m)"

fun smap_insert :: "'k::linorder \<Rightarrow> 'v \<Rightarrow> ('k \<times> 'v) list \<Rightarrow> ('k \<times> 'v) list" where
  "smap_insert k v [] = [(k, v)]"
| "smap_insert k v ((k', v') # m) =
     (if k < k' then (k, v) # (k', v') # m
      else if k = k' then (k', v') # m
      else (k', v') # smap_insert k v m)"

fun smap_erase :: "'k::linorder \<Rightarrow> ('k \<times> 'v) list \<Rightarrow> ('k \<times> 'v) list" where
  "smap_erase k [] = []"
| "smap_erase k ((k', v') # m) = (if k = k' then m else (k', v') # smap_erase k m)"

definition smap_contains :: "('k \<times> 'v) list \<Rightarrow> 'k \<Rightarrow> bool" where
  "smap_contains m k = (map_of m k \<noteq> None)"

section \<open>The interface\<close>

locale key_value_map =
  fixes empty :: "'m"
    and find :: "'m \<Rightarrow> 'k \<Rightarrow> 'v option"
    and assign :: "'k \<Rightarrow> 'v \<Rightarrow> 'm \<Rightarrow> 'm"
    and erase :: "'k \<Rightarrow> 'm \<Rightarrow> 'm"
    and ok :: "'m \<Rightarrow> bool"
  assumes find_empty: "find empty k = None"
    and find_assign: "ok m \<Longrightarrow> find (assign k v m) k' = (if k' = k then Some v else find m k')"
    and find_erase: "ok m \<Longrightarrow> find (erase k m) k' = (if k' = k then None else find m k')"
    and ok_empty: "ok empty"
    and ok_assign: "ok m \<Longrightarrow> ok (assign k v m)"
    and ok_erase: "ok m \<Longrightarrow> ok (erase k m)"
begin

lemma ok_erase_list: "ok m \<Longrightarrow> ok (fold erase ks m)"
  by (induction ks arbitrary: m) (simp_all add: ok_erase)

lemma find_erase_list:
  "ok m \<Longrightarrow> find (fold erase ks m) k = (if k \<in> set ks then None else find m k)"
  by (induction ks arbitrary: m) (auto simp: ok_erase find_erase)

lemma ok_assign_list: "ok m \<Longrightarrow> ok (fold (\<lambda>(k, v). assign k v) kvs m)"
  by (induction kvs arbitrary: m) (auto simp: ok_assign)

lemma find_assign_list:
  "ok m \<Longrightarrow> distinct (map fst kvs) \<Longrightarrow>
     find (fold (\<lambda>(k, v). assign k v) kvs m) k =
       (case map_of kvs k of Some v \<Rightarrow> Some v | None \<Rightarrow> find m k)"
proof (induction kvs arbitrary: m)
  case Nil
  then show ?case by simp
next
  case (Cons kv kvs)
  obtain k' v' where kv: "kv = (k', v')" by fastforce
  have "k = k' \<Longrightarrow> map_of kvs k = None"
    using Cons.prems(2) by (simp add: kv map_of_eq_None_iff)
  then show ?case
    using Cons.prems Cons.IH [of "assign k' v' m"]
    by (cases "k = k'") (simp_all add: kv ok_assign find_assign split: option.splits)
qed

end

section \<open>The sorted list satisfies it\<close>

lemma smap_ok_simps [simp]:
  "smap_ok []"
  "smap_ok ((k, v) # m) \<longleftrightarrow> (\<forall>k'\<in>fst ` set m. k < k') \<and> smap_ok m"
  by (simp_all add: smap_ok_def)

lemma smap_ok_distinct: "smap_ok m \<Longrightarrow> distinct (map fst m)"
  by (simp add: smap_ok_def strict_sorted_iff)

lemma map_of_smap_assign: "map_of (smap_assign k v m) k' = (if k' = k then Some v else map_of m k')"
  by (induction m) auto

lemma map_of_smap_insert:
  "map_of m k = None \<Longrightarrow> map_of (smap_insert k v m) k' = (if k' = k then Some v else map_of m k')"
  by (induction m) auto

lemma fst_set_smap_assign: "fst ` set (smap_assign k v m) = insert k (fst ` set m)"
  unfolding dom_map_of_conv_image_fst [symmetric] by (auto simp: map_of_smap_assign dom_def)

lemma set_smap_erase: "set (smap_erase k m) \<subseteq> set m"
  by (induction m) (auto split: if_splits)

lemma fst_set_smap_erase: "fst ` set (smap_erase k m) \<subseteq> fst ` set m"
  using set_smap_erase by (rule image_mono)

lemma map_of_smap_erase:
  "smap_ok m \<Longrightarrow> map_of (smap_erase k m) k' = (if k' = k then None else map_of m k')"
proof (induction m)
  case Nil
  then show ?case by simp
next
  case (Cons e m)
  then have "map_of m (fst e) = None"
    by (cases e) (auto simp: map_of_eq_None_iff)
  then show ?case using Cons by (cases e) auto
qed

lemma smap_ok_assign: "smap_ok m \<Longrightarrow> smap_ok (smap_assign k v m)"
  by (induction m) (fastforce simp: fst_set_smap_assign)+

lemma smap_ok_erase: "smap_ok m \<Longrightarrow> smap_ok (smap_erase k m)"
  using fst_set_smap_erase by (induction m) fastforce+

interpretation smap: key_value_map "[]" map_of smap_assign smap_erase smap_ok
  by unfold_locales
    (simp_all add: map_of_smap_assign map_of_smap_erase smap_ok_assign smap_ok_erase)

lemmas smap_laws = smap.find_empty smap.find_assign smap.find_erase smap.ok_empty smap.ok_assign
  smap.ok_erase smap.ok_erase_list smap.find_erase_list smap.ok_assign_list

text \<open>Inserting entries in ascending order appends them: the copy loop of a filter is a filter.\<close>

lemma smap_insert_last:
  "(\<And>k'. k' \<in> fst ` set m \<Longrightarrow> k' < k) \<Longrightarrow> smap_insert k v m = m @ [(k, v)]"
  by (induction m) fastforce+

lemma smap_ok_filter: "smap_ok m \<Longrightarrow> smap_ok (filter P m)"
  by (induction m) auto

lemma map_of_filter_key:
  "map_of (filter (\<lambda>e. P (fst e)) m) k = (if P k then map_of m k else None)"
  by (induction m) auto

lemma fold_smap_insert_filter:
  assumes "smap_ok (acc @ m)"
  shows "fold (\<lambda>(k, v) acc. if P k then smap_insert k v acc else acc) m acc =
    acc @ filter (\<lambda>e. P (fst e)) m"
  using assms
proof (induction m arbitrary: acc)
  case Nil
  then show ?case by simp
next
  case (Cons e m)
  obtain k v where e: "e = (k, v)" by fastforce
  have lt: "k' < k" if "k' \<in> fst ` set acc" for k'
    using Cons.prems that by (auto simp: e smap_ok_def sorted_wrt_append)
  have "smap_ok ((acc @ [(k, v)]) @ m)" "smap_ok (acc @ m)"
    using Cons.prems by (auto simp: e smap_ok_def sorted_wrt_append)
  then show ?case
    using Cons.IH by (simp add: e smap_insert_last [OF lt])
qed

end
