(* ===== verification/Node_Information.thy ===== *)
theory Node_Information
  imports Util Std_Map
begin

text \<open>
  \<open>src/src/dht/NodeInformation\<close>: the state of a peer. A node's identifier is cached and recomputed
  after a change of address; SHA-256 (OpenSSL) is the parameter \<open>h\<close> of every definition that
  hashes. The object's own fields are the record \<open>NodeInformation\<close>, the class's static fields, one
  per process, the record \<open>NodeStatics\<close>. Reader and writer locks make every method atomic, so each
  is one function of the state. Points in time are nanoseconds since the epoch, as
  \<open>std::chrono::system_clock\<close> counts them.
\<close>

section \<open>Definitions\<close>

subsection \<open>Nodes\<close>

record Node =
  m_ip :: string
  m_port :: u16
  id_valid :: bool
  m_id :: bytes
  m_explicit_id :: "bytes option"

definition updateId :: "(bytes \<Rightarrow> bytes) \<Rightarrow> Node \<Rightarrow> Node" where
  "updateId h n =
     n\<lparr>id_valid := True,
       m_id := (case m_explicit_id n of
                  Some i \<Rightarrow> i
                | None \<Rightarrow> h (bytes_of_string (m_ip n @ '':'' @ to_string_nat (unat (m_port n)))))\<rparr>"

definition mkNode :: "(bytes \<Rightarrow> bytes) \<Rightarrow> string \<Rightarrow> u16 \<Rightarrow> Node" where
  "mkNode h ip port =
     updateId h \<lparr>m_ip = ip, m_port = port, id_valid = True, m_id = replicate 32 0,
                 m_explicit_id = None\<rparr>"

definition mkNode_id :: "string \<Rightarrow> u16 \<Rightarrow> bytes \<Rightarrow> Node" where
  "mkNode_id ip port i =
     \<lparr>m_ip = ip, m_port = port, id_valid = True, m_id = i, m_explicit_id = Some i\<rparr>"

definition Node_setIp :: "string \<Rightarrow> Node \<Rightarrow> Node" where
  "Node_setIp ip n = n\<lparr>m_ip := ip, id_valid := False\<rparr>"

definition Node_setPort :: "u16 \<Rightarrow> Node \<Rightarrow> Node" where
  "Node_setPort port n = n\<lparr>m_port := port, id_valid := False\<rparr>"

definition Node_setId :: "bytes option \<Rightarrow> Node \<Rightarrow> Node" where
  "Node_setId i n = n\<lparr>m_explicit_id := i\<rparr>"

text \<open>\<open>getId\<close> is \<open>const\<close> but refreshes the mutable cache: the value, and the object afterwards.\<close>

definition Node_refresh :: "(bytes \<Rightarrow> bytes) \<Rightarrow> Node \<Rightarrow> Node" where
  "Node_refresh h n = (if \<not> id_valid n then updateId h n else n)"

definition getId :: "(bytes \<Rightarrow> bytes) \<Rightarrow> Node \<Rightarrow> bytes" where
  "getId h n = m_id (Node_refresh h n)"

definition node_eq :: "(bytes \<Rightarrow> bytes) \<Rightarrow> Node \<Rightarrow> Node \<Rightarrow> bool" where
  "node_eq h a b = (getId h a = getId h b)"

fun Node_hash_loop :: "bytes \<Rightarrow> nat \<Rightarrow> u64 \<Rightarrow> u64 \<Rightarrow> u64" where
  "Node_hash_loop [] i ret tmp = ret XOR tmp"
| "Node_hash_loop (b # bs) i ret tmp =
     (let tmp' = tmp + push_bit (8 * (i mod 8)) (ucast b)
      in if (i + 1) mod 8 = 0 then Node_hash_loop bs (i + 1) (ret XOR tmp') 0
         else Node_hash_loop bs (i + 1) ret tmp')"

definition Node_hash :: "(bytes \<Rightarrow> bytes) \<Rightarrow> Node \<Rightarrow> u64" where
  "Node_hash h n = Node_hash_loop (getId h n) 0 0 0"

subsection \<open>The state of a peer\<close>

definition key_bits :: nat where "key_bits = 32 * 8"

definition time_max :: int where "time_max = 2 ^ 63 - 1"

definition duration_max :: int where "duration_max = 2 ^ 63 - 1"

definition seconds :: "nat \<Rightarrow> int" where "seconds s = int s * 10 ^ 9"

type_synonym data_type = "(bytes \<times> (bytes \<times> int)) list"

record NodeInformation =
  m_node :: Node
  m_fingerTable :: "Node option list"
  m_predecessor :: "Node option"
  m_data :: data_type
  m_bootstrapNodeAddress :: "Node option"

record NodeStatics =
  m_allReplicationIndices :: "byte list"
  m_difficulty :: byte
  m_replicationLimit :: byte

definition DEFAULT_DIFFICULTY :: byte where "DEFAULT_DIFFICULTY = 1"
definition DEFAULT_REPLICATION_LIMIT :: byte where "DEFAULT_REPLICATION_LIMIT = 5"
definition DEFAULT_NUM_OF_REPLICATION_TO_CALCULATE_AVERAGE :: nat where
  "DEFAULT_NUM_OF_REPLICATION_TO_CALCULATE_AVERAGE = 50"

definition statics_init :: NodeStatics where
  "statics_init =
     \<lparr>m_allReplicationIndices = [], m_difficulty = DEFAULT_DIFFICULTY,
      m_replicationLimit = DEFAULT_REPLICATION_LIMIT\<rparr>"

definition NodeInformation_init :: "(bytes \<Rightarrow> bytes) \<Rightarrow> string \<Rightarrow> u16 \<Rightarrow> NodeInformation" where
  "NodeInformation_init h host port =
     \<lparr>m_node = mkNode h host port, m_fingerTable = replicate key_bits None, m_predecessor = None,
      m_data = [], m_bootstrapNodeAddress = None\<rparr>"

subsection \<open>Accessors\<close>

definition getNode :: "NodeInformation \<Rightarrow> Node" where
  "getNode ni = m_node ni"

definition setNode :: "Node \<Rightarrow> NodeInformation \<Rightarrow> NodeInformation" where
  "setNode n ni = ni\<lparr>m_node := n\<rparr>"

definition NI_getIp :: "NodeInformation \<Rightarrow> string" where
  "NI_getIp ni = m_ip (m_node ni)"

definition NI_setIp :: "string \<Rightarrow> NodeInformation \<Rightarrow> NodeInformation" where
  "NI_setIp ip ni = ni\<lparr>m_node := Node_setIp ip (m_node ni)\<rparr>"

definition NI_getPort :: "NodeInformation \<Rightarrow> u16" where
  "NI_getPort ni = m_port (m_node ni)"

definition NI_setPort :: "u16 \<Rightarrow> NodeInformation \<Rightarrow> NodeInformation" where
  "NI_setPort port ni = ni\<lparr>m_node := Node_setPort port (m_node ni)\<rparr>"

definition NI_getId :: "(bytes \<Rightarrow> bytes) \<Rightarrow> NodeInformation \<Rightarrow> bytes" where
  "NI_getId h ni = getId h (m_node ni)"

definition NI_setId :: "bytes option \<Rightarrow> NodeInformation \<Rightarrow> NodeInformation" where
  "NI_setId i ni = ni\<lparr>m_node := Node_setId i (m_node ni)\<rparr>"

definition getFinger :: "NodeInformation \<Rightarrow> nat \<Rightarrow> Node option result" where
  "getFinger ni index =
     (if length (m_fingerTable ni) \<le> index then Inl (Out_Of_Range ''index out of bounds'')
      else Inr (m_fingerTable ni ! index))"

definition setFinger :: "nat \<Rightarrow> Node option \<Rightarrow> NodeInformation \<Rightarrow> NodeInformation result" where
  "setFinger index node ni =
     (if length (m_fingerTable ni) \<le> index then Inl (Out_Of_Range ''index out of bounds'')
      else Inr (ni\<lparr>m_fingerTable := (m_fingerTable ni)[index := node]\<rparr>))"

fun first_finger :: "Node option list \<Rightarrow> Node option" where
  "first_finger [] = None"
| "first_finger (Some n # fs) = Some n"
| "first_finger (None # fs) = first_finger fs"

text \<open>The loop over the fingers, then \<open>m_fingerTable[0]\<close>, which is empty when the loop finds none.\<close>

definition getSuccessor :: "NodeInformation \<Rightarrow> Node option" where
  "getSuccessor ni =
     (case first_finger (m_fingerTable ni) of Some n \<Rightarrow> Some n | None \<Rightarrow> m_fingerTable ni ! 0)"

definition setSuccessor :: "Node option \<Rightarrow> NodeInformation \<Rightarrow> NodeInformation" where
  "setSuccessor node ni = ni\<lparr>m_fingerTable := (m_fingerTable ni)[0 := node]\<rparr>"

definition getPredecessor :: "NodeInformation \<Rightarrow> Node option" where
  "getPredecessor ni = m_predecessor ni"

definition setPredecessor :: "Node option \<Rightarrow> NodeInformation \<Rightarrow> NodeInformation" where
  "setPredecessor node ni = ni\<lparr>m_predecessor := node\<rparr>"

definition getBootstrapNode :: "NodeInformation \<Rightarrow> Node option" where
  "getBootstrapNode ni = m_bootstrapNodeAddress ni"

definition setBootstrapNode :: "Node option \<Rightarrow> NodeInformation \<Rightarrow> NodeInformation" where
  "setBootstrapNode node ni = ni\<lparr>m_bootstrapNodeAddress := node\<rparr>"

subsection \<open>Data\<close>

definition getData :: "NodeInformation \<Rightarrow> bytes \<Rightarrow> bytes option" where
  "getData ni key = (if smap_contains (m_data ni) key then map_option fst (map_of (m_data ni) key) else None)"

definition setDataExpires :: "bytes \<Rightarrow> bytes \<Rightarrow> int \<Rightarrow> NodeInformation \<Rightarrow> NodeInformation" where
  "setDataExpires key val expires ni = ni\<lparr>m_data := smap_assign key (val, expires) (m_data ni)\<rparr>"

text \<open>\<open>now\<close> is the reading of \<open>system_clock::now()\<close>.\<close>

definition setData :: "int \<Rightarrow> bytes \<Rightarrow> bytes \<Rightarrow> int \<Rightarrow> NodeInformation \<Rightarrow> NodeInformation" where
  "setData now key val ttl' ni =
     setDataExpires key val (if ttl' = duration_max then time_max else now + ttl') ni"

text \<open>
  One pass of the background cleaner: the clock is read again for every entry, \<open>now i\<close> at the
  \<open>i\<close>-th.
\<close>

fun dataCleaner_loop :: "(nat \<Rightarrow> int) \<Rightarrow> nat \<Rightarrow> data_type \<Rightarrow> data_type" where
  "dataCleaner_loop now i [] = []"
| "dataCleaner_loop now i ((k, v, expires) # rest) =
     (if expires < now i then dataCleaner_loop now (i + 1) rest
      else (k, v, expires) # dataCleaner_loop now (i + 1) rest)"

definition dataCleaner_pass :: "(nat \<Rightarrow> int) \<Rightarrow> NodeInformation \<Rightarrow> NodeInformation" where
  "dataCleaner_pass now ni = ni\<lparr>m_data := dataCleaner_loop now 0 (m_data ni)\<rparr>"

definition getDataItemsForNodeId ::
    "(bytes \<Rightarrow> bytes) \<Rightarrow> NodeInformation \<Rightarrow> Node \<Rightarrow> data_type option" where
  "getDataItemsForNodeId h ni newNode =
     (let new_id = getId h newNode;
          pred_id = (case getPredecessor ni of Some p \<Rightarrow> getId h p | None \<Rightarrow> new_id)
      in Some (fold (\<lambda>(k, v) dataToReturn.
            if is_in_range_loop (h k) pred_id new_id False True then smap_insert k v dataToReturn
            else dataToReturn) (m_data ni) []))"

definition getAllDataInNode :: "NodeInformation \<Rightarrow> data_type" where
  "getAllDataInNode ni = m_data ni"

definition deleteDataAssignedToPredecessor :: "bytes list \<Rightarrow> NodeInformation \<Rightarrow> NodeInformation" where
  "deleteDataAssignedToPredecessor ks ni = ni\<lparr>m_data := fold smap_erase ks (m_data ni)\<rparr>"

subsection \<open>Static settings\<close>

definition setReplicationIndex :: "byte \<Rightarrow> NodeStatics \<Rightarrow> NodeStatics" where
  "setReplicationIndex r st =
     (if length (m_allReplicationIndices st) < DEFAULT_NUM_OF_REPLICATION_TO_CALCULATE_AVERAGE
      then st\<lparr>m_allReplicationIndices := m_allReplicationIndices st @ [r]\<rparr>
      else st\<lparr>m_allReplicationIndices := tl (m_allReplicationIndices st) @ [r]\<rparr>)"

text \<open>
  \<open>std::accumulate\<close> sums in the type of its initial value, \<open>uint8_t\<close>; the quotient by the
  \<open>size_t\<close> count is then narrowed to \<open>uint8_t\<close>.
\<close>

definition getAverageReplicationIndex :: "NodeStatics \<Rightarrow> byte option" where
  "getAverageReplicationIndex st =
     (if m_allReplicationIndices st \<noteq> []
      then Some (of_nat (unat (foldl (+) (0 :: byte) (m_allReplicationIndices st)) div
                         length (m_allReplicationIndices st)))
      else Some 0)"

definition getDifficulty :: "NodeStatics \<Rightarrow> byte" where
  "getDifficulty st = m_difficulty st"

definition setDifficulty :: "byte \<Rightarrow> NodeStatics \<Rightarrow> NodeStatics" where
  "setDifficulty d st = (if m_difficulty st = DEFAULT_DIFFICULTY then st\<lparr>m_difficulty := d\<rparr> else st)"

definition getReplicationLimitOnEachNode :: "NodeStatics \<Rightarrow> byte" where
  "getReplicationLimitOnEachNode st = m_replicationLimit st"

definition setReplicationLimitOnEachNode :: "byte \<Rightarrow> NodeStatics \<Rightarrow> NodeStatics" where
  "setReplicationLimitOnEachNode l st =
     (if m_replicationLimit st = DEFAULT_REPLICATION_LIMIT then st\<lparr>m_replicationLimit := l\<rparr> else st)"

subsection \<open>Well-formedness\<close>

text \<open>
  A finger table of \<open>key_bits\<close> entries, a data map in key order, at most 50 remembered replication
  indices.
\<close>

definition ni_ok :: "NodeInformation \<Rightarrow> bool" where
  "ni_ok ni \<longleftrightarrow> length (m_fingerTable ni) = key_bits \<and> smap_ok (m_data ni)"

definition statics_ok :: "NodeStatics \<Rightarrow> bool" where
  "statics_ok st \<longleftrightarrow>
     length (m_allReplicationIndices st) \<le> DEFAULT_NUM_OF_REPLICATION_TO_CALCULATE_AVERAGE"

subsection \<open>Vocabulary of the specifications\<close>

text \<open>
  The text that names a node, and the exclusive or of the little-endian 64-bit words of a byte
  string, the last one padded.
\<close>

definition node_name :: "string \<Rightarrow> u16 \<Rightarrow> string" where
  "node_name ip port = ip @ '':'' @ to_string_nat (unat port)"

fun xor_words :: "bytes \<Rightarrow> u64" where
  "xor_words [] = 0"
| "xor_words (b # bs) =
     (\<Sum>j < length (take 8 (b # bs)). push_bit (8 * j) (ucast ((b # bs) ! j))) XOR xor_words (drop 8 (b # bs))"

section \<open>Nodes\<close>

lemma node_name_inj: "node_name ip p = node_name ip' p' \<longleftrightarrow> ip = ip' \<and> p = p'"
proof -
  have colon: "CHR '':'' \<notin> set (to_string_nat n)" for n
    using to_string_nat_digit [of "CHR '':''" n] by auto
  show ?thesis
    using split_last_separator [of ip "CHR '':''" "to_string_nat (unat p)" ip' "to_string_nat (unat p')"] colon
    by (auto simp: node_name_def word_unat_eq_iff)
qed

lemma bytes_of_string_inj: "bytes_of_string s = bytes_of_string t \<longleftrightarrow> s = t"
proof -
  have "inj (of_char :: char \<Rightarrow> byte)"
  proof (rule injI)
    fix c d :: char assume eq: "(of_char c :: byte) = of_char d"
    have u: "unat (of_char e :: byte) = of_char e" for e
      by (subst of_nat_of_char [symmetric]) (simp add: unsigned_of_nat take_bit_eq_mod)
    have "(of_char c :: nat) = of_char d" using arg_cong [OF eq, of unat] by (simp only: u)
    then show "c = d" by simp
  qed
  then show ?thesis by (simp add: bytes_of_string_def inj_map_eq_map)
qed

lemma mkNode_simps [node_simps]:
  "m_ip (mkNode h ip p) = ip"
  "m_port (mkNode h ip p) = p"
  "id_valid (mkNode h ip p)"
  "m_explicit_id (mkNode h ip p) = None"
  "m_id (mkNode h ip p) = h (bytes_of_string (node_name ip p))"
  by (simp_all add: mkNode_def updateId_def node_name_def)

lemma getId_mkNode [node_simps]: "getId h (mkNode h ip p) = h (bytes_of_string (node_name ip p))"
  by (simp add: getId_def Node_refresh_def node_simps)

lemma getId_refresh: "getId h (Node_refresh h n) = getId h n"
  by (simp add: getId_def Node_refresh_def updateId_def)

lemma getId_setters:
  "getId h (Node_setIp ip' (mkNode h ip p)) = getId h (mkNode h ip' p)"
  "getId h (Node_setPort p' (mkNode h ip p)) = getId h (mkNode h ip p')"
  "getId h (Node_setId i (mkNode h ip p)) = getId h (mkNode h ip p)"
  by (simp_all add: getId_def Node_refresh_def updateId_def Node_setIp_def Node_setPort_def
      Node_setId_def node_simps) (simp_all add: node_name_def)

lemma Node_hash_chunk:
  assumes "i mod 8 + length xs < 8"
  shows "Node_hash_loop (xs @ ys) i ret tmp =
    Node_hash_loop ys (i + length xs) ret (tmp + (\<Sum>j < length xs. push_bit (8 * (i mod 8 + j)) (ucast (xs ! j))))"
  using assms
proof (induction xs arbitrary: i tmp)
  case Nil
  then show ?case by simp
next
  case (Cons x xs)
  then have m: "Suc i mod 8 = Suc (i mod 8)" by (simp add: mod_Suc)
  have "(\<Sum>j < length (x # xs). push_bit (8 * (i mod 8 + j)) (ucast ((x # xs) ! j)) :: u64) =
      push_bit (8 * (i mod 8)) (ucast x) + (\<Sum>j < length xs. push_bit (8 * (Suc i mod 8 + j)) (ucast (xs ! j)))"
    by (simp add: sum.lessThan_Suc_shift m ac_simps del: sum.lessThan_Suc)
  then show ?case
    using Cons.IH [of "Suc i"] Cons.prems by (simp add: m Let_def add.assoc)
qed

lemma Node_hash_loop_xor:
  "i mod 8 = 0 \<Longrightarrow> Node_hash_loop bs i ret 0 = ret XOR xor_words bs"
proof (induction bs arbitrary: i ret rule: xor_words.induct)
  case 1
  then show ?case by simp
next
  case (2 b bs)
  let ?bs = "b # bs"
  show ?case
  proof (cases "length ?bs < 8")
    case True
    then show ?thesis
      using Node_hash_chunk [of i ?bs "[]" ret 0] 2(2) by simp
  next
    case False
    obtain xs x ys where bs: "?bs = xs @ x # ys" and xs: "length xs = 7" and ys: "drop 8 ?bs = ys"
    proof
      show "?bs = take 7 ?bs @ ?bs ! 7 # drop 8 ?bs"
        using False id_take_nth_drop [of 7 ?bs] by (simp add: numeral_eq_Suc)
    qed (use False in simp_all)
    have len: "length (take 8 ?bs) = Suc 7" using False by simp
    have m: "(i + 7) mod 8 = 7" "(i + 7 + 1) mod 8 = 0" "(i + 8) mod 8 = 0" using 2(2) by presburger+
    have sum: "(\<Sum>j < Suc 7. push_bit (8 * j) (ucast (?bs ! j)) :: u64) =
        (\<Sum>j < 7. push_bit (8 * j) (ucast (xs ! j))) + push_bit (8 * 7) (ucast x)"
      unfolding bs sum.lessThan_Suc by (simp add: nth_append xs)
    have "Node_hash_loop ?bs i ret 0 =
        Node_hash_loop (x # ys) (i + 7) ret (\<Sum>j < 7. push_bit (8 * j) (ucast (xs ! j)))"
      unfolding bs using Node_hash_chunk [of i xs "x # ys" ret 0] 2(2) xs by simp
    also have "\<dots> = Node_hash_loop ys (i + 7 + 1) (ret XOR (\<Sum>j < Suc 7. push_bit (8 * j) (ucast (?bs ! j)))) 0"
      unfolding sum by (simp only: Node_hash_loop.simps(2) Let_def m simp_thms if_True)
    also have "\<dots> = ret XOR (\<Sum>j < Suc 7. push_bit (8 * j) (ucast (?bs ! j))) XOR xor_words ys"
      by (simp only: 2(1) [of "i + 7 + 1", unfolded ys, OF m(2)] xor.assoc)
    finally show ?thesis by (simp only: xor_words.simps(2) len ys xor.assoc)
  qed
qed

section \<open>The state of a peer\<close>

lemmas ni_defs = NodeInformation_init_def setNode_def NI_setIp_def NI_setPort_def NI_setId_def
  setFinger_def setSuccessor_def setPredecessor_def setBootstrapNode_def setDataExpires_def
  setData_def dataCleaner_pass_def deleteDataAssignedToPredecessor_def

lemma set_dataCleaner: "set (dataCleaner_loop now i m) \<subseteq> set m"
  by (induction now i m rule: dataCleaner_loop.induct) auto

lemma smap_ok_dataCleaner: "smap_ok m \<Longrightarrow> smap_ok (dataCleaner_loop now i m)"
  by (induction now i m rule: dataCleaner_loop.induct) (use set_dataCleaner in \<open>force+\<close>)

lemma ni_ok_init: "ni_ok (NodeInformation_init h ip p)"
  by (simp add: ni_ok_def ni_defs)

lemma ni_ok_update:
  assumes "ni_ok ni"
  shows "ni_ok (setNode n ni)" "ni_ok (NI_setIp ip ni)" "ni_ok (NI_setPort p ni)" "ni_ok (NI_setId i ni)"
    "ni_ok (setSuccessor s ni)" "ni_ok (setPredecessor s ni)" "ni_ok (setBootstrapNode s ni)"
    "ni_ok (setDataExpires k v e ni)" "ni_ok (setData now k v t ni)" "ni_ok (dataCleaner_pass clock ni)"
    "ni_ok (deleteDataAssignedToPredecessor ks ni)"
  using assms by (simp_all add: ni_ok_def ni_defs smap_laws smap_ok_dataCleaner)

lemma ni_ok_setFinger: "ni_ok ni \<Longrightarrow> setFinger j f ni = Inr ni' \<Longrightarrow> ni_ok ni'"
  by (auto simp: ni_ok_def setFinger_def split: if_splits)

lemma getData_eq: "getData ni k = map_option fst (map_of (m_data ni) k)"
  by (cases "map_of (m_data ni) k") (simp_all add: getData_def smap_contains_def)

lemma dataCleaner_expired:
  "smap_ok m \<Longrightarrow> (\<And>j. t \<le> now j) \<Longrightarrow> map_of m k = Some (v, e) \<Longrightarrow> e < t \<Longrightarrow> map_of (dataCleaner_loop now i m) k = None"
proof (induction now i m rule: dataCleaner_loop.induct)
  case (1 now i)
  then show ?case by simp
next
  case (2 now i k' v' e' rest)
  have notin: "map_of (dataCleaner_loop now (i + 1) rest) k = None" if "k' = k"
    using 2(3) that set_dataCleaner [of now "i + 1" rest] by (force simp: map_of_eq_None_iff)
  show ?case
  proof (cases "k' = k")
    case True
    have "t \<le> now i" by (rule 2(4))
    with 2(5,6) True notin show ?thesis by simp
  next
    case False
    then show ?thesis using 2 by (auto split: if_splits)
  qed
qed

lemma dataCleaner_alive:
  "smap_ok m \<Longrightarrow> (\<And>j. now j \<le> e) \<Longrightarrow> map_of m k = Some (v, e) \<Longrightarrow> map_of (dataCleaner_loop now i m) k = Some (v, e)"
proof (induction now i m rule: dataCleaner_loop.induct)
  case (1 now i)
  then show ?case by simp
next
  case (2 now i k' v' e' rest)
  have alive: "\<not> e < now i" by (rule leD [OF 2(4)])
  show ?case
  proof (cases "k' = k")
    case True
    then show ?thesis using alive 2(5) by simp
  next
    case False
    then show ?thesis using 2 by (auto split: if_splits)
  qed
qed

lemma getDataItemsForNodeId_eq:
  "smap_ok (m_data ni) \<Longrightarrow> getDataItemsForNodeId h ni n = Some (filter (\<lambda>e. is_in_range_loop (h (fst e))
      (case m_predecessor ni of Some p \<Rightarrow> getId h p | None \<Rightarrow> getId h n) (getId h n) False True) (m_data ni))"
  using fold_smap_insert_filter [of "[]" "m_data ni"]
  by (simp add: getDataItemsForNodeId_def Let_def getPredecessor_def)

lemma foldl_byte_sum: "unat (foldl (+) (s :: byte) rs) = (unat s + sum_list (map unat rs)) mod 256"
proof (induction rs arbitrary: s)
  case Nil
  then show ?case by (simp add: unat_byte_less)
next
  case (Cons r rs)
  then show ?case by (simp add: unat_word_ariths mod_simps add.assoc)
qed

lemma replication_indices_history:
  "m_allReplicationIndices (fold setReplicationIndex rs (st\<lparr>m_allReplicationIndices := q\<rparr>)) = drop (length q + length rs - 50) (q @ rs)"
  if "length q \<le> 50"
  using that
proof (induction rs arbitrary: q)
  case Nil
  then show ?case by simp
next
  case (Cons r rs)
  have N: "DEFAULT_NUM_OF_REPLICATION_TO_CALCULATE_AVERAGE = 50" by (simp add: DEFAULT_NUM_OF_REPLICATION_TO_CALCULATE_AVERAGE_def)
  show ?case
  proof (cases "length q < 50")
    case True
    then show ?thesis using Cons.IH [of "q @ [r]"] by (simp add: setReplicationIndex_def N)
  next
    case False
    then have "q \<noteq> []" "length q = 50" using Cons.prems by auto
    then show ?thesis using Cons.IH [of "tl q @ [r]"] Cons.prems
      by (cases q) (simp_all add: setReplicationIndex_def N)
  qed
qed

text \<open>
  What the storage operations promise the request handlers: a value stored under a key is the value
  found there, and other keys are untouched. A sequence of writes then leaves the last one.
\<close>

locale data_store =
  fixes lookup :: "'s \<Rightarrow> bytes \<Rightarrow> bytes option"
    and store :: "int \<Rightarrow> bytes \<Rightarrow> bytes \<Rightarrow> int \<Rightarrow> 's \<Rightarrow> 's"
  assumes lookup_store: "lookup (store now k v t s) k' = (if k' = k then Some v else lookup s k')"
begin

lemma lookup_after_writes:
  "lookup (fold (\<lambda>(now, k, v, t). store now k v t) ws s) k =
     (case map_of (rev (map (\<lambda>(now, k, v, t). (k, v)) ws)) k of
        Some v \<Rightarrow> Some v | None \<Rightarrow> lookup s k)"
  by (induction ws rule: rev_induct) (auto simp: lookup_store split: option.splits)

lemma lookup_store_same: "lookup (store now k v t s) k = Some v"
  by (simp add: lookup_store)

end

lemma getData_setData:
  "getData (setData now k v t ni) k' = (if k' = k then Some v else getData ni k')"
  by (simp add: getData_eq setData_def setDataExpires_def map_of_smap_assign)

interpretation ni_store: data_store getData setData
  by unfold_locales (rule getData_setData)

section \<open>Properties\<close>

text \<open>
  Every operation that changes a peer's state keeps it well-formed: a finger table of
  \<open>key_bits\<close> entries and a data map in strictly ascending key order. The constructor establishes it.
\<close>

theorem node_state_invariant:
  "ni_ok (NodeInformation_init h ip p) \<and>
   (ni_ok ni \<longrightarrow>
      ni_ok (setNode n ni) \<and> ni_ok (NI_setIp ip ni) \<and> ni_ok (NI_setPort p ni) \<and> ni_ok (NI_setId i ni) \<and>
      ni_ok (setSuccessor s ni) \<and> ni_ok (setPredecessor s ni) \<and> ni_ok (setBootstrapNode s ni) \<and>
      (\<forall>ni'. setFinger j s ni = Inr ni' \<longrightarrow> ni_ok ni') \<and>
      ni_ok (setDataExpires k v e ni) \<and> ni_ok (setData now k v t ni) \<and>
      ni_ok (dataCleaner_pass clock ni) \<and> ni_ok (deleteDataAssignedToPredecessor ks ni))"
  by (auto simp: ni_ok_init ni_ok_update intro: ni_ok_setFinger)

theorem node_state_invariant_witness:
  "ni_ok (setData 0 [1] [2] 5 (NodeInformation_init (\<lambda>_. replicate 32 7) ''a'' 1))"
  using node_state_invariant [of "\<lambda>_. replicate 32 7" "''a''" 1
      "NodeInformation_init (\<lambda>_. replicate 32 7) ''a'' 1"] by blast

text \<open>
  A node built from an address has the hash of \<open>ip:port\<close> as its identifier, also after the
  address is changed; two such nodes compare equal exactly when they have the same address, as far
  as the hash does not collide on their two names.
\<close>

theorem node_identity:
  assumes "h (bytes_of_string (node_name ip p)) = h (bytes_of_string (node_name ip' p')) \<longrightarrow>
    node_name ip p = node_name ip' p'"
  shows "(node_eq h (mkNode h ip p) (mkNode h ip' p') \<longleftrightarrow> ip = ip' \<and> p = p') \<and>
    getId h (Node_setIp ip' (mkNode h ip p)) = h (bytes_of_string (node_name ip' p)) \<and>
    getId h (Node_setPort p' (mkNode h ip p)) = h (bytes_of_string (node_name ip p'))"
  using assms by (auto simp: node_eq_def getId_setters node_simps node_name_inj)

theorem node_identity_witness:
  "\<not> node_eq id (mkNode id ''127.0.0.1'' 6002) (mkNode id ''127.0.0.1'' 6003)"
  using node_identity [of id "''127.0.0.1''" 6002 "''127.0.0.1''" 6003]
  by (simp add: bytes_of_string_inj)

text \<open>
  \<open>Node::setId\<close> leaves the cached identifier valid, so on a node built from an address it has no
  effect: \<open>getId\<close> still returns the hash of the address, not the identifier that was set.
\<close>

theorem setId_has_no_effect:
  "getId h (Node_setId (Some i) (mkNode h ip p)) = h (bytes_of_string (node_name ip p)) \<and>
   getId h (mkNode_id ip p i) = i"
  by (simp add: getId_setters node_simps) (simp add: getId_def Node_refresh_def mkNode_id_def)

text \<open>
  The hash that the set of distrusted nodes uses is the exclusive or of the identifier's
  little-endian 64-bit words, a last partial word included, for identifiers of any length.
\<close>

theorem node_hash_xor: "Node_hash h n = xor_words (getId h n)"
  by (simp add: Node_hash_def Node_hash_loop_xor)

text \<open>
  A value stored under a key is found there, whatever its time to live, and no other key is
  affected.
\<close>

theorem get_after_set:
  "getData (setData now k v t ni) k' = (if k' = k then Some v else getData ni k')"
  by (rule ni_store.lookup_store)

text \<open>
  One pass of the cleaner, with its clock readings between \<open>t0\<close> and \<open>t1\<close>, removes every entry
  that expired before \<open>t0\<close> and keeps every entry that does not expire before \<open>t1\<close>; it adds nothing.
\<close>

theorem cleaner_pass_correct:
  assumes "ni_ok ni" and "\<And>j. t0 \<le> now j" and "\<And>j. now j \<le> t1"
    and "map_of (m_data ni) k = Some (v, expires)"
  shows "(expires < t0 \<longrightarrow> getData (dataCleaner_pass now ni) k = None) \<and>
    (t1 \<le> expires \<longrightarrow> getData (dataCleaner_pass now ni) k = Some v) \<and>
    set (m_data (dataCleaner_pass now ni)) \<subseteq> set (m_data ni)"
proof (intro conjI impI)
  have ok: "smap_ok (m_data ni)" using assms(1) by (simp add: ni_ok_def)
  show "getData (dataCleaner_pass now ni) k = None" if "expires < t0"
    using dataCleaner_expired [OF ok assms(2,4) that, where i = 0] by (simp add: getData_eq dataCleaner_pass_def)
  show "getData (dataCleaner_pass now ni) k = Some v" if "t1 \<le> expires"
    using dataCleaner_alive [OF ok order.trans [OF assms(3) that] assms(4), where i = 0]
    by (simp add: getData_eq dataCleaner_pass_def)
  show "set (m_data (dataCleaner_pass now ni)) \<subseteq> set (m_data ni)"
    using set_dataCleaner by (simp add: dataCleaner_pass_def)
qed

theorem cleaner_pass_correct_witness:
  "getData (dataCleaner_pass (\<lambda>_. 100)
     (setDataExpires [1] [9] 50 (NodeInformation_init (\<lambda>_. []) ''a'' 1))) [1] = None"
proof -
  let ?ni = "setDataExpires [1] [9] 50 (NodeInformation_init (\<lambda>_. []) ''a'' 1)"
  have "ni_ok ?ni" by (simp add: ni_ok_update ni_ok_init)
  moreover have "map_of (m_data ?ni) [1] = Some ([9], 50)"
    by (simp add: setDataExpires_def map_of_smap_assign)
  ultimately show ?thesis
    using cleaner_pass_correct [of ?ni 100 "\<lambda>_. 100" 100 "[1]" "[9]" 50] by simp
qed

text \<open>
  The average replication index is computed in eight bits: it is the sum of the remembered
  indices modulo 256, divided by their number, and not their average once the sum exceeds 255.
\<close>

theorem average_replication_wraps:
  "map_option unat (getAverageReplicationIndex st) =
     Some (if m_allReplicationIndices st = [] then 0
           else (sum_list (map unat (m_allReplicationIndices st)) mod 256) div
                length (m_allReplicationIndices st))"
proof -
  let ?q = "(sum_list (map unat (m_allReplicationIndices st)) mod 256) div length (m_allReplicationIndices st)"
  have "?q \<le> sum_list (map unat (m_allReplicationIndices st)) mod 256" by (rule div_le_dividend)
  also have "\<dots> < 256" by simp
  finally have "unat (of_nat ?q :: byte) = ?q" by (simp add: unsigned_of_nat take_bit_nat_eq_self)
  then show ?thesis by (simp add: getAverageReplicationIndex_def foldl_byte_sum)
qed

text \<open>
  The process remembers the replication indices of the last 50 put requests, oldest first.
\<close>

theorem replication_history:
  "m_allReplicationIndices (fold setReplicationIndex rs statics_init) = drop (length rs - 50) rs"
proof -
  have "statics_init = statics_init\<lparr>m_allReplicationIndices := []\<rparr>" by (simp add: statics_init_def)
  then show ?thesis using replication_indices_history [of "[]" rs statics_init] by simp
qed

end
