(* ===== verification/Peer.thy ===== *)
theory Peer
  imports Node_Information
begin

text \<open>
  \<open>src/src/dht/Peer\<close>: the server methods a peer offers to the others, the conversion between nodes
  and their Cap'n Proto form, and the lookup \<open>getSuccessor\<close> with its set of distrusted nodes. A
  remote call is a field of the parameter \<open>rpc_env\<close>: given the address called, it answers, or
  fails with the exception the caller's error handler receives. Nothing is assumed of the answers
  here, so a peer may lie. The two loops of the lookup end only if the answers let them: they are
  partial functions, and \<open>None\<close> is a lookup that never returns. One lookup is evaluated against one
  state of the network.
\<close>

section \<open>Definitions\<close>

subsection \<open>Conversion (peer.capnp)\<close>

record WireNode =
  w_id :: bytes
  w_ip :: string
  w_port :: u16

record DataItem =
  di_key :: bytes
  di_data :: bytes
  di_expires :: u64

definition nodeFromReader :: "(bytes \<Rightarrow> bytes) \<Rightarrow> WireNode \<Rightarrow> Node" where
  "nodeFromReader h w = mkNode h (w_ip w) (w_port w)"

definition nodeFromReader_opt :: "(bytes \<Rightarrow> bytes) \<Rightarrow> WireNode option \<Rightarrow> Node option" where
  "nodeFromReader_opt h w = (case w of None \<Rightarrow> None | Some v \<Rightarrow> Some (nodeFromReader h v))"

definition buildNode :: "(bytes \<Rightarrow> bytes) \<Rightarrow> Node \<Rightarrow> WireNode" where
  "buildNode h n = \<lparr>w_id = getId h n, w_ip = m_ip n, w_port = m_port n\<rparr>"

definition buildNode_opt :: "(bytes \<Rightarrow> bytes) \<Rightarrow> Node option \<Rightarrow> WireNode option" where
  "buildNode_opt h n = (case n of Some m \<Rightarrow> Some (buildNode h m) | None \<Rightarrow> None)"

definition idFromReader :: "bytes \<Rightarrow> bytes" where
  "idFromReader i = overwrite (replicate 32 0) 0 (take (min (length i) 32) i)"

subsection \<open>Remote calls\<close>

record rpc_env =
  rpc_getPredecessor :: "string \<Rightarrow> u16 \<Rightarrow> WireNode option result"
  rpc_getClosestPreceding :: "string \<Rightarrow> u16 \<Rightarrow> bytes \<Rightarrow> (WireNode option \<times> WireNode option) result"
  rpc_getSuccessor :: "string \<Rightarrow> u16 \<Rightarrow> bytes \<Rightarrow> WireNode option result option"

subsection \<open>The closest preceding finger\<close>

fun getClosestPreceding_loop ::
    "(bytes \<Rightarrow> bytes) \<Rightarrow> NodeInformation \<Rightarrow> bytes \<Rightarrow> nat \<Rightarrow> Node option result" where
  "getClosestPreceding_loop h ni i 0 = Inr None"
| "getClosestPreceding_loop h ni i (Suc j) =
     (case getFinger ni j of
        Inl e \<Rightarrow> Inl e
      | Inr None \<Rightarrow> getClosestPreceding_loop h ni i j
      | Inr (Some finger) \<Rightarrow>
          if is_in_range_loop (getId h finger) (NI_getId h ni) i False False then Inr (Some finger)
          else getClosestPreceding_loop h ni i j)"

definition getClosestPreceding ::
    "(bytes \<Rightarrow> bytes) \<Rightarrow> NodeInformation \<Rightarrow> bytes \<Rightarrow> Node option result" where
  "getClosestPreceding h ni i = getClosestPreceding_loop h ni i key_bits"

subsection \<open>The lookup\<close>

record ClosestPrecedingPair =
  closestPreceding :: "Node option"
  successor :: "Node option"

datatype GetSuccessorMethod = PASS_ON | LOCAL

text \<open>\<open>std::unordered_set<Node, Node_hash>\<close>: membership is by \<open>operator==\<close>.\<close>

definition uset_contains :: "(bytes \<Rightarrow> bytes) \<Rightarrow> Node list \<Rightarrow> Node \<Rightarrow> bool" where
  "uset_contains h ds n = list_ex (node_eq h n) ds"

definition uset_insert :: "(bytes \<Rightarrow> bytes) \<Rightarrow> Node \<Rightarrow> Node list \<Rightarrow> Node list" where
  "uset_insert h n ds = (if uset_contains h ds n then ds else n # ds)"

text \<open>
  \<open>checkResult\<close> has the target of the whole lookup as its \<open>id\<close>; a failed call to the successor is
  not handled and ends the lookup with its exception.
\<close>

definition checkResult ::
    "(bytes \<Rightarrow> bytes) \<Rightarrow> rpc_env \<Rightarrow> NodeInformation \<Rightarrow> Node \<Rightarrow> bytes \<Rightarrow> ClosestPrecedingPair \<Rightarrow>
     ClosestPrecedingPair result" where
  "checkResult h env ni node i result =
     (let result = (case closestPreceding result of
            Some c \<Rightarrow> if \<not> is_in_range_loop (getId h c) (getId h node) i False False
                      then result\<lparr>closestPreceding := None\<rparr> else result
          | None \<Rightarrow> result)
      in case successor result of
           None \<Rightarrow> Inr result
         | Some s \<Rightarrow>
             if node_eq h s (getNode ni) then Inr (result\<lparr>successor := None\<rparr>)
             else (case rpc_getPredecessor env (m_ip s) (m_port s) of
                     Inl e \<Rightarrow> Inl e
                   | Inr res \<Rightarrow>
                       (case nodeFromReader_opt h res of
                          None \<Rightarrow> Inr (result\<lparr>successor := None\<rparr>)
                        | Some pred \<Rightarrow>
                            if \<not> is_in_range_loop i (getId h pred) (getId h node) False True
                            then Inr (result\<lparr>successor := None\<rparr>)
                            else Inr result)))"

definition helper_impl ::
    "(bytes \<Rightarrow> bytes) \<Rightarrow> rpc_env \<Rightarrow> NodeInformation \<Rightarrow> Node \<Rightarrow> bytes \<Rightarrow> bytes \<Rightarrow>
     ClosestPrecedingPair result" where
  "helper_impl h env ni node i j =
     (if node_eq h node (getNode ni)
      then (case getClosestPreceding h ni j of
              Inl e \<Rightarrow> Inl e
            | Inr c \<Rightarrow> checkResult h env ni node i \<lparr>closestPreceding = c, successor = getSuccessor ni\<rparr>)
      else (case rpc_getClosestPreceding env (m_ip node) (m_port node) j of
              Inl e \<Rightarrow> checkResult h env ni node i \<lparr>closestPreceding = None, successor = None\<rparr>
            | Inr (p, s) \<Rightarrow>
                checkResult h env ni node i
                  \<lparr>closestPreceding = nodeFromReader_opt h p, successor = nodeFromReader_opt h s\<rparr>))"

partial_function (option) helper_iterate ::
    "(bytes \<Rightarrow> bytes) \<Rightarrow> rpc_env \<Rightarrow> NodeInformation \<Rightarrow> Node \<Rightarrow> bytes \<Rightarrow> Node list \<Rightarrow> bytes \<Rightarrow>
     ClosestPrecedingPair result option" where
  "helper_iterate h env ni node i distrusted j =
     (case helper_impl h env ni node i j of
        Inl e \<Rightarrow> Some (Inl e)
      | Inr result \<Rightarrow>
          (case closestPreceding result of
             None \<Rightarrow> Some (Inr result)
           | Some c \<Rightarrow>
               if uset_contains h distrusted c
               then helper_iterate h env ni node i distrusted (getId h c)
               else Some (Inr result)))"

definition getClosestPrecedingHelper ::
    "(bytes \<Rightarrow> bytes) \<Rightarrow> rpc_env \<Rightarrow> NodeInformation \<Rightarrow> Node \<Rightarrow> bytes \<Rightarrow> Node list \<Rightarrow>
     ClosestPrecedingPair result option" where
  "getClosestPrecedingHelper h env ni node i distrusted =
     helper_iterate h env ni node i distrusted i"

partial_function (option) getSuccessorAlgorithm ::
    "(bytes \<Rightarrow> bytes) \<Rightarrow> rpc_env \<Rightarrow> NodeInformation \<Rightarrow> bytes \<Rightarrow> Node list \<Rightarrow> Node list \<Rightarrow>
     Node option result option" where
  "getSuccessorAlgorithm h env ni i hops distrusted =
     (case hops of
        [] \<Rightarrow> Some (Inr None)
      | current # below \<Rightarrow>
          Option.bind (getClosestPrecedingHelper h env ni current i distrusted)
            (\<lambda>r. case r of
               Inl e \<Rightarrow> Some (Inl e)
             | Inr result \<Rightarrow>
                 (case closestPreceding result of
                    Some c \<Rightarrow> getSuccessorAlgorithm h env ni i (c # hops) distrusted
                  | None \<Rightarrow>
                      (case successor result of
                         Some s \<Rightarrow> Some (Inr (Some s))
                       | None \<Rightarrow>
                           getSuccessorAlgorithm h env ni i below (uset_insert h current distrusted)))))"

definition PeerImpl_getSuccessor ::
    "(bytes \<Rightarrow> bytes) \<Rightarrow> GetSuccessorMethod \<Rightarrow> rpc_env \<Rightarrow> NodeInformation \<Rightarrow> bytes \<Rightarrow>
     Node option result option" where
  "PeerImpl_getSuccessor h method env ni i =
     (if (case getPredecessor ni of
            Some p \<Rightarrow> is_in_range_loop i (getId h p) (NI_getId h ni) False True | None \<Rightarrow> False)
      then Some (Inr (Some (getNode ni)))
      else if (case getSuccessor ni of
            Some s \<Rightarrow> is_in_range_loop i (NI_getId h ni) (getId h s) False True | None \<Rightarrow> False)
      then (case getSuccessor ni of
              None \<Rightarrow> Some (Inr None)
            | Some s \<Rightarrow>
                (case rpc_getPredecessor env (m_ip s) (m_port s) of
                   Inr res \<Rightarrow> Some (Inr (Some s))
                 | Inl e \<Rightarrow> Some (Inr None)))
      else if method = PASS_ON
      then (case getClosestPreceding h ni i of
              Inl e \<Rightarrow> Some (Inl e)
            | Inr None \<Rightarrow> Some (Inr None)
            | Inr (Some c) \<Rightarrow>
                (case rpc_getSuccessor env (m_ip c) (m_port c) i of
                   None \<Rightarrow> None
                 | Some (Inr res) \<Rightarrow> Some (Inr (nodeFromReader_opt h res))
                 | Some (Inl e) \<Rightarrow> Some (Inr None)))
      else getSuccessorAlgorithm h env ni i [getNode ni] [])"

subsection \<open>Server methods\<close>

definition server_getSuccessor ::
    "(bytes \<Rightarrow> bytes) \<Rightarrow> GetSuccessorMethod \<Rightarrow> rpc_env \<Rightarrow> NodeInformation \<Rightarrow> bytes \<Rightarrow>
     WireNode option result option" where
  "server_getSuccessor h method env ni param =
     map_option (map_sum id (buildNode_opt h))
       (PeerImpl_getSuccessor h method env ni (idFromReader param))"

definition server_getClosestPreceding ::
    "(bytes \<Rightarrow> bytes) \<Rightarrow> NodeInformation \<Rightarrow> bytes \<Rightarrow> (WireNode option \<times> WireNode option) result" where
  "server_getClosestPreceding h ni param =
     (case getClosestPreceding h ni (idFromReader param) of
        Inl e \<Rightarrow> Inl e
      | Inr c \<Rightarrow> Inr (buildNode_opt h c, buildNode_opt h (getSuccessor ni)))"

definition server_getPredecessor :: "(bytes \<Rightarrow> bytes) \<Rightarrow> NodeInformation \<Rightarrow> WireNode option" where
  "server_getPredecessor h ni = buildNode_opt h (getPredecessor ni)"

definition server_notify :: "(bytes \<Rightarrow> bytes) \<Rightarrow> WireNode \<Rightarrow> NodeInformation \<Rightarrow> NodeInformation" where
  "server_notify h w ni =
     (let node = nodeFromReader h w
      in if (case getPredecessor ni of
               None \<Rightarrow> True
             | Some p \<Rightarrow> is_in_range_loop (getId h node) (getId h p) (NI_getId h ni) False False)
         then setPredecessor (Some node) ni else ni)"

definition server_getData :: "NodeInformation \<Rightarrow> bytes \<Rightarrow> bytes option" where
  "server_getData ni key = getData ni key"

definition ttl_duration :: "u16 \<Rightarrow> int" where
  "ttl_duration t = (if 0 < t then seconds (unat t) else duration_max)"

definition server_setData :: "int \<Rightarrow> bytes \<Rightarrow> bytes \<Rightarrow> u16 \<Rightarrow> NodeInformation \<Rightarrow> NodeInformation" where
  "server_setData now key val t ni = setData now key val (ttl_duration t) ni"

text \<open>\<open>duration_cast<seconds>\<close> truncates towards zero; the count is sent as a \<open>UInt64\<close>.\<close>

definition expires_to_wire :: "int \<Rightarrow> u64" where
  "expires_to_wire t = (if 0 \<le> t then of_int (t div 10 ^ 9) else of_int (- (- t div 10 ^ 9)))"

definition server_getDataItemsOnJoin ::
    "(bytes \<Rightarrow> bytes) \<Rightarrow> WireNode \<Rightarrow> NodeInformation \<Rightarrow> (NodeInformation \<times> DataItem list) result" where
  "server_getDataItemsOnJoin h w ni =
     (let newNode = nodeFromReader h w
      in case getPredecessor ni of
           None \<Rightarrow> Inl (Undefined_Behaviour ''dereference of an empty optional'')
         | Some p \<Rightarrow>
             if \<not> is_in_range_loop (getId h newNode) (getId h p) (NI_getId h ni) False False
             then Inr (ni, [])
             else (case getDataItemsForNodeId h ni newNode of
                     None \<Rightarrow> Inl (Undefined_Behaviour ''dereference of an empty optional'')
                   | Some dataForNewNode \<Rightarrow>
                       Inr (deleteDataAssignedToPredecessor (map fst dataForNewNode) ni,
                            map (\<lambda>(k, v, e). \<lparr>di_key = k, di_data = v, di_expires = expires_to_wire e\<rparr>)
                              dataForNewNode)))"

definition server_getPoWPuzzleOnJoin ::
    "(bytes \<Rightarrow> bytes) \<Rightarrow> NodeStatics \<Rightarrow> WireNode \<Rightarrow> string \<times> byte" where
  "server_getPoWPuzzleOnJoin h st w =
     (let newNode = nodeFromReader h w
      in (m_ip newNode @ '':'' @ to_string_nat (unat (m_port newNode)), getDifficulty st))"

text \<open>
  The bit string of the SHA-1 digest (parameter \<open>sha1\<close>) of a text, with the blanks of the dump
  removed. A failed \<open>KJ_ASSERT\<close> throws or, in a build without exceptions, returns at once without a
  result (parameter \<open>kj_throws\<close>).
\<close>

definition pow_bits :: "(bytes \<Rightarrow> bytes) \<Rightarrow> string \<Rightarrow> string" where
  "pow_bits sha1 s =
     strip_spaces (case bytedump (sha1 (bytes_of_string s)) 20 of Some d \<Rightarrow> d | None \<Rightarrow> [])"

definition pow_accepts :: "(bytes \<Rightarrow> bytes) \<Rightarrow> byte \<Rightarrow> string \<Rightarrow> string \<Rightarrow> string \<Rightarrow> bool" where
  "pow_accepts sha1 difficulty test resp hash_resp \<longleftrightarrow>
     take (length test) resp = test \<and>
     pow_bits sha1 resp = hash_resp \<and>
     take (unat difficulty) hash_resp = replicate (unat difficulty) (CHR ''0'')"

definition server_sendPoWPuzzleResponse ::
    "(bytes \<Rightarrow> bytes) \<Rightarrow> (bytes \<Rightarrow> bytes) \<Rightarrow> bool \<Rightarrow> GetSuccessorMethod \<Rightarrow> rpc_env \<Rightarrow> NodeInformation \<Rightarrow>
     NodeStatics \<Rightarrow> WireNode \<Rightarrow> string \<Rightarrow> string \<Rightarrow> WireNode option option result option" where
  "server_sendPoWPuzzleResponse h sha1 kj_throws method env ni st w resp hash_resp =
     (let newNode = nodeFromReader h w;
          test = m_ip newNode @ '':'' @ to_string_nat (unat (m_port newNode))
      in if \<not> pow_accepts sha1 (getDifficulty st) test resp hash_resp
         then Some (if kj_throws then Inl (Rpc_Exception ''assertion failed'') else Inr None)
         else map_option (map_sum id (\<lambda>s. Some (buildNode_opt h s)))
                (PeerImpl_getSuccessor h method env ni (getId h newNode)))"

subsection \<open>Receiving the data items of a join\<close>

definition expires_from_wire :: "u64 \<Rightarrow> int result" where
  "expires_from_wire e =
     (let t = sint e * 10 ^ 9
      in if - (2 ^ 63) \<le> t \<and> t < 2 ^ 63 then Inr t
         else Inl (Undefined_Behaviour ''overflow of a duration''))"

fun storeDataItems :: "DataItem list \<Rightarrow> NodeInformation \<Rightarrow> NodeInformation result" where
  "storeDataItems [] ni = Inr ni"
| "storeDataItems (d # ds) ni =
     (case expires_from_wire (di_expires d) of
        Inl e \<Rightarrow> Inl e
      | Inr t \<Rightarrow> storeDataItems ds (setDataExpires (di_key d) (di_data d) t ni))"

subsection \<open>Vocabulary of the specifications\<close>

text \<open>A node whose identifier is the hash of its address.\<close>

definition addressed :: "(bytes \<Rightarrow> bytes) \<Rightarrow> Node \<Rightarrow> bool" where
  "addressed h n \<longleftrightarrow> n = mkNode h (m_ip n) (m_port n)"

text \<open>What a join hands over: the entries whose hashed key lies in the arc from \<open>p\<close> to \<open>n\<close>.\<close>

definition handed_over :: "(bytes \<Rightarrow> bytes) \<Rightarrow> Node \<Rightarrow> Node \<Rightarrow> bytes \<Rightarrow> bool" where
  "handed_over h p n k = is_in_range_loop (h k) (getId h p) (getId h n) False True"

section \<open>Nodes on the wire\<close>

lemma nodeFromReader_opt_simps [node_simps]:
  "nodeFromReader_opt h None = None"
  "nodeFromReader_opt h (Some w) = Some (nodeFromReader h w)"
  "buildNode_opt h None = None"
  "buildNode_opt h (Some n) = Some (buildNode h n)"
  by (simp_all add: nodeFromReader_opt_def buildNode_opt_def)

lemma nodeFromReader_buildNode [node_simps]:
  "nodeFromReader h (buildNode h n) = mkNode h (m_ip n) (m_port n)"
  by (simp add: nodeFromReader_def buildNode_def)

lemma idFromReader_id [simp]: "length i = 32 \<Longrightarrow> idFromReader i = i"
  by (simp add: idFromReader_def overwrite_def)

lemma length_idFromReader [simp]: "length (idFromReader i) = 32"
  by (simp add: idFromReader_def overwrite_def)

lemma addressed_mkNode [simp]: "addressed h (mkNode h ip p)"
  by (simp add: addressed_def node_simps)

lemma addressed_nodeFromReader [simp]: "addressed h (nodeFromReader h w)"
  by (simp add: nodeFromReader_def)

lemma addressed_wire: "addressed h n \<Longrightarrow> nodeFromReader h (buildNode h n) = n"
  by (simp add: addressed_def node_simps)

section \<open>The closest preceding finger\<close>

lemma getClosestPreceding_loop_cases:
  assumes "j \<le> length (m_fingerTable ni)"
  shows "(\<exists>k f. getClosestPreceding_loop h ni i j = Inr (Some f) \<and> k < j \<and> m_fingerTable ni ! k = Some f \<and>
            is_in_range_loop (getId h f) (NI_getId h ni) i False False \<and>
            (\<forall>l f'. k < l \<longrightarrow> l < j \<longrightarrow> m_fingerTable ni ! l = Some f' \<longrightarrow>
               \<not> is_in_range_loop (getId h f') (NI_getId h ni) i False False)) \<or>
         getClosestPreceding_loop h ni i j = Inr None \<and>
         (\<forall>l f'. l < j \<longrightarrow> m_fingerTable ni ! l = Some f' \<longrightarrow>
            \<not> is_in_range_loop (getId h f') (NI_getId h ni) i False False)"
  using assms
proof (induction j)
  case 0
  then show ?case by simp
next
  case (Suc j)
  have gf: "getFinger ni j = Inr (m_fingerTable ni ! j)" using Suc.prems by (simp add: getFinger_def)
  let ?hit = "\<exists>f. m_fingerTable ni ! j = Some f \<and> is_in_range_loop (getId h f) (NI_getId h ni) i False False"
  show ?case
  proof (cases ?hit)
    case True
    then show ?thesis using gf by (intro disjI1) (auto intro!: exI [of _ j])
  next
    case False
    then have "getClosestPreceding_loop h ni i (Suc j) = getClosestPreceding_loop h ni i j"
      using gf by (auto split: option.splits)
    with Suc.IH Suc.prems False show ?thesis
      by (auto simp: less_Suc_eq)
  qed
qed

lemma getClosestPreceding_Some:
  assumes "getClosestPreceding h ni i = Inr (Some f)" "length (m_fingerTable ni) = key_bits"
  shows "Some f \<in> set (m_fingerTable ni)" "is_in_range_loop (getId h f) (NI_getId h ni) i False False"
  using getClosestPreceding_loop_cases [of key_bits ni h i] assms
  by (auto simp: getClosestPreceding_def in_set_conv_nth)

lemma getClosestPreceding_None:
  assumes "getClosestPreceding h ni i = Inr None" "length (m_fingerTable ni) = key_bits" "Some f \<in> set (m_fingerTable ni)"
  shows "\<not> is_in_range_loop (getId h f) (NI_getId h ni) i False False"
  using getClosestPreceding_loop_cases [of key_bits ni h i] assms
  by (auto simp: getClosestPreceding_def in_set_conv_nth)

lemma getClosestPreceding_total:
  assumes "length (m_fingerTable ni) = key_bits"
  shows "\<exists>c. getClosestPreceding h ni i = Inr c"
  using getClosestPreceding_loop_cases [of key_bits ni h i] assms by (auto simp: getClosestPreceding_def)

section \<open>Notification\<close>

lemma notify_Some:
  "server_notify h w (ni\<lparr>m_predecessor := Some p\<rparr>) = ni\<lparr>m_predecessor := Some
     (if is_in_range_loop (getId h (nodeFromReader h w)) (getId h p) (NI_getId h ni) False False
      then nodeFromReader h w else p)\<rparr>"
  by (simp add: server_notify_def Let_def getPredecessor_def setPredecessor_def NI_getId_def)

lemma notify_None:
  "m_predecessor ni = None \<Longrightarrow> server_notify h w ni = ni\<lparr>m_predecessor := Some (nodeFromReader h w)\<rparr>"
  by (simp add: server_notify_def Let_def getPredecessor_def setPredecessor_def)

lemma notify_fold:
  "fold (server_notify h) ws (ni\<lparr>m_predecessor := Some p\<rparr>) = ni\<lparr>m_predecessor := Some
     (fold (\<lambda>n p. if is_in_range_loop (getId h n) (getId h p) (NI_getId h ni) False False then n else p)
        (map (nodeFromReader h) ws) p)\<rparr>"
  by (induction ws arbitrary: p) (simp_all only: fold_simps list.map comp_def notify_Some)

section \<open>The hand-over of a join\<close>

lemma wire_expires:
  assumes "0 \<le> e" "e < 2 ^ 63"
  shows "expires_from_wire (expires_to_wire e) = Inr (e div 10 ^ 9 * 10 ^ 9)"
proof -
  have q: "0 \<le> e div 10 ^ 9" "e div 10 ^ 9 < 2 ^ 63" "e div 10 ^ 9 * 10 ^ 9 < 2 ^ 63" "0 \<le> e div 10 ^ 9 * 10 ^ 9"
    using assms by (simp_all)
  have "sint (of_int (e div 10 ^ 9) :: u64) = e div 10 ^ 9"
    using q by (simp add: signed_of_int signed_take_bit_int_eq_self)
  then show ?thesis
    using assms q by (simp add: expires_from_wire_def expires_to_wire_def)
qed

lemma storeDataItems_fold:
  assumes "\<forall>(k, v, e) \<in> set es. 0 \<le> e \<and> e < 2 ^ 63"
  shows "storeDataItems (map (\<lambda>(k, v, e). \<lparr>di_key = k, di_data = v, di_expires = expires_to_wire e\<rparr>) es) ni =
    Inr (ni\<lparr>m_data := fold (\<lambda>(k, v). smap_assign k v)
                        (map (\<lambda>(k, v, e). (k, v, e div 10 ^ 9 * 10 ^ 9)) es) (m_data ni)\<rparr>)"
  using assms
proof (induction es arbitrary: ni)
  case (Cons x es)
  obtain k v e where x: "x = (k, v, e)" by (metis prod_cases3)
  show ?case
    using Cons.prems Cons.IH by (simp add: x wire_expires setDataExpires_def)
qed simp

lemma join_donor:
  assumes "ni_ok ni" and "m_predecessor ni = Some p"
    and "is_in_range_loop (getId h (nodeFromReader h w)) (getId h p) (NI_getId h ni) False False"
  shows "server_getDataItemsOnJoin h w ni =
    Inr (deleteDataAssignedToPredecessor
           (map fst (filter (\<lambda>e. handed_over h p (nodeFromReader h w) (fst e)) (m_data ni))) ni,
         map (\<lambda>(k, v, e). \<lparr>di_key = k, di_data = v, di_expires = expires_to_wire e\<rparr>)
           (filter (\<lambda>e. handed_over h p (nodeFromReader h w) (fst e)) (m_data ni)))"
proof -
  have "smap_ok (m_data ni)" using assms(1) by (simp add: ni_ok_def)
  from getDataItemsForNodeId_eq [OF this, of h "nodeFromReader h w"] show ?thesis
    using assms(2,3) by (simp add: server_getDataItemsOnJoin_def getPredecessor_def handed_over_def Let_def)
qed

lemma join_donor_data:
  assumes "ni_ok ni"
  shows "map_of (m_data (deleteDataAssignedToPredecessor (map fst (filter (\<lambda>e. P (fst e)) (m_data ni))) ni)) k =
    (if P k then None else map_of (m_data ni) k)"
proof -
  have "map_of (m_data ni) k = None" if "\<forall>a b. (k, a, b) \<notin> set (m_data ni)"
    using that by (auto simp: map_of_eq_None_iff)
  then show ?thesis
    using assms by (auto simp: ni_ok_def deleteDataAssignedToPredecessor_def smap_laws image_iff)
qed

lemma map_of_trunc:
  "map_of (map (\<lambda>(k, v, e). (k, v, f e)) es) k = map_option (\<lambda>(v, e). (v, f e)) (map_of es k)"
  by (induction es) auto

lemma join_receiver_data:
  assumes "ni_ok rni" and "smap_ok es" and "\<forall>(k, v, e) \<in> set es. 0 \<le> e \<and> e < 2 ^ 63"
  shows "\<exists>rni'. storeDataItems
      (map (\<lambda>(k, v, e). \<lparr>di_key = k, di_data = v, di_expires = expires_to_wire e\<rparr>) es) rni = Inr rni' \<and>
    (\<forall>k. map_of (m_data rni') k =
       (case map_of es k of Some (v, e) \<Rightarrow> Some (v, e div 10 ^ 9 * 10 ^ 9) | None \<Rightarrow> map_of (m_data rni) k))"
proof -
  let ?es = "map (\<lambda>(k, v, e). (k, v, e div 10 ^ 9 * 10 ^ 9)) es"
  have d: "distinct (map fst ?es)"
    using smap_ok_distinct [OF assms(2)] by (simp add: comp_def case_prod_unfold)
  show ?thesis
    unfolding storeDataItems_fold [OF assms(3)]
    using assms(1) smap.find_assign_list [OF _ d, of "m_data rni"]
    by (auto simp: ni_ok_def map_of_trunc split: option.splits)
qed

section \<open>Properties\<close>

text \<open>
  On a well-formed peer, the search for the closest preceding finger never indexes out of range.
  It returns the finger of the highest index that lies strictly between the peer and the identifier,
  and none exactly when no finger does.
\<close>

theorem closest_preceding_correct:
  assumes "ni_ok ni"
  shows "case getClosestPreceding h ni i of
      Inl e \<Rightarrow> False
    | Inr None \<Rightarrow> \<forall>f. Some f \<in> set (m_fingerTable ni) \<longrightarrow>
        \<not> is_in_range_loop (getId h f) (NI_getId h ni) i False False
    | Inr (Some f) \<Rightarrow> \<exists>k < key_bits. m_fingerTable ni ! k = Some f \<and>
        is_in_range_loop (getId h f) (NI_getId h ni) i False False \<and>
        (\<forall>l f'. k < l \<longrightarrow> l < key_bits \<longrightarrow> m_fingerTable ni ! l = Some f' \<longrightarrow>
           \<not> is_in_range_loop (getId h f') (NI_getId h ni) i False False)"
proof -
  have len: "length (m_fingerTable ni) = key_bits" using assms by (simp add: ni_ok_def)
  show ?thesis
    using getClosestPreceding_loop_cases [of key_bits ni h i] len
    by (auto simp: getClosestPreceding_def in_set_conv_nth)
qed

theorem closest_preceding_correct_witness:
  "ni_ok (NodeInformation_init id ''a'' 1) \<and>
   getClosestPreceding id (NodeInformation_init id ''a'' 1) [5] = Inr None"
proof -
  let ?ni = "NodeInformation_init id ''a'' 1"
  have "ni_ok ?ni" by (rule ni_ok_init)
  moreover have "m_fingerTable ?ni ! k \<noteq> Some f" if "k < key_bits" for k f
    using that by (simp add: NodeInformation_init_def)
  ultimately show ?thesis
    using closest_preceding_correct [of ?ni id "[5]"] by (auto split: sum.splits option.splits)
qed

text \<open>
  A node that arrives over the wire has the hash of its address as its identifier; the identifier
  that the sender put on the wire is ignored, so a peer cannot choose its place on the circle. Sending
  a node whose identifier is that hash and reading it back gives the node.
\<close>

theorem wire_identity:
  "getId h (nodeFromReader h w) = h (bytes_of_string (node_name (w_ip w) (w_port w))) \<and>
   nodeFromReader h (w\<lparr>w_id := i\<rparr>) = nodeFromReader h w \<and>
   nodeFromReader h (buildNode h (mkNode h ip p)) = mkNode h ip p \<and>
   buildNode h (nodeFromReader h w) = w\<lparr>w_id := getId h (nodeFromReader h w)\<rparr>"
  by (cases w) (simp add: nodeFromReader_def buildNode_def node_simps)

text \<open>
  A request for the data items of a join is answered by dereferencing the predecessor, which is
  undefined behaviour exactly when the peer has none, as it has until its first \<open>notify\<close>.
\<close>

theorem join_request_ub_iff:
  "is_ub (server_getDataItemsOnJoin h w ni) \<longleftrightarrow> m_predecessor ni = None"
  by (cases "m_predecessor ni")
    (simp_all add: server_getDataItemsOnJoin_def getPredecessor_def getDataItemsForNodeId_def Let_def)

text \<open>
  C31: A peer that has been notified by a sequence of peers keeps, of its old predecessor and of all
  of them, the one closest before it on the circle; nothing else of its state changes.
\<close>

theorem notify_keeps_closest:
  assumes "ws \<noteq> []"
  shows "\<exists>p. fold (server_notify h) ws ni = ni\<lparr>m_predecessor := Some p\<rparr> \<and>
    p \<in> set_option (m_predecessor ni) \<union> nodeFromReader h ` set ws \<and>
    (\<forall>q \<in> set_option (m_predecessor ni) \<union> nodeFromReader h ` set ws.
       \<not> is_in_range_loop (getId h q) (getId h p) (NI_getId h ni) False False)"
proof (cases "m_predecessor ni")
  case None
  obtain w ws' where ws: "ws = w # ws'" using assms by (cases ws) auto
  show ?thesis
    using None notify_fold [where ws = ws' and p = "nodeFromReader h w" and ni = ni and h = h]
      circle.keep_closest [of "getId h" "NI_getId h ni" "map (nodeFromReader h) ws'" "nodeFromReader h w"]
    by (auto simp: ws notify_None)
next
  case (Some p0)
  then have "ni\<lparr>m_predecessor := Some p0\<rparr> = ni" by simp
  then have "fold (server_notify h) ws ni = ni\<lparr>m_predecessor := Some
     (fold (\<lambda>n p. if is_in_range_loop (getId h n) (getId h p) (NI_getId h ni) False False then n else p)
        (map (nodeFromReader h) ws) p0)\<rparr>"
    using notify_fold [where ws = ws and p = p0 and ni = ni and h = h] by simp
  then show ?thesis
    using Some circle.keep_closest [of "getId h" "NI_getId h ni" "map (nodeFromReader h) ws" p0]
    by auto
qed

theorem notify_keeps_closest_witness:
  "\<exists>p. fold (server_notify id) [\<lparr>w_id = [], w_ip = ''b'', w_port = 1\<rparr>] (NodeInformation_init id ''a'' 1) =
     (NodeInformation_init id ''a'' 1)\<lparr>m_predecessor := Some p\<rparr>"
  using notify_keeps_closest [of "[\<lparr>w_id = [], w_ip = ''b'', w_port = 1\<rparr>]" id "NodeInformation_init id ''a'' 1"]
  by blast

text \<open>
  C18: When a node joins between a peer and its predecessor, the peer hands over exactly the entries
  whose hashed key lies in the arc from the predecessor to the new node, and nothing is lost: each of
  them is removed from the peer and stored at the new node with the same value and an expiry rounded
  down to whole seconds; every other entry stays where it was.
\<close>

theorem join_hands_over:
  assumes "ni_ok ni" and "ni_ok rni" and "m_predecessor ni = Some p"
    and "is_in_range_loop (getId h (nodeFromReader h w)) (getId h p) (NI_getId h ni) False False"
    and "\<forall>(k, v, e) \<in> set (m_data ni). 0 \<le> e \<and> e < 2 ^ 63"
  shows "\<exists>ni' items rni'. server_getDataItemsOnJoin h w ni = Inr (ni', items) \<and>
    storeDataItems items rni = Inr rni' \<and>
    (\<forall>k. if handed_over h p (nodeFromReader h w) k
         then map_of (m_data ni') k = None \<and>
              (case map_of (m_data ni) k of
                 None \<Rightarrow> map_of (m_data rni') k = map_of (m_data rni) k
               | Some (v, e) \<Rightarrow> \<exists>e'. map_of (m_data rni') k = Some (v, e') \<and> e' \<le> e \<and> e < e' + 10 ^ 9)
         else map_of (m_data ni') k = map_of (m_data ni) k \<and>
              map_of (m_data rni') k = map_of (m_data rni) k)"
proof -
  let ?P = "handed_over h p (nodeFromReader h w)"
  let ?es = "filter (\<lambda>e. ?P (fst e)) (m_data ni)"
  have ok: "smap_ok ?es" using assms(1) by (simp add: ni_ok_def smap_ok_filter)
  have "\<forall>(k, v, e) \<in> set ?es. 0 \<le> e \<and> e < 2 ^ 63" using assms(5) by auto
  from join_receiver_data [OF assms(2) ok this] obtain rni' where r: "storeDataItems
      (map (\<lambda>(k, v, e). \<lparr>di_key = k, di_data = v, di_expires = expires_to_wire e\<rparr>) ?es) rni = Inr rni'"
    "\<And>k. map_of (m_data rni') k = (case map_of ?es k of
       Some (v, e) \<Rightarrow> Some (v, e div 10 ^ 9 * 10 ^ 9) | None \<Rightarrow> map_of (m_data rni) k)" by blast
  have t: "e div 10 ^ 9 * 10 ^ 9 \<le> e" "e < e div 10 ^ 9 * 10 ^ 9 + 10 ^ 9" for e :: int by simp_all
  show ?thesis
    unfolding join_donor [OF assms(1,3,4)] using r(1)
    by (auto simp: join_donor_data [OF assms(1)] r(2) map_of_filter_key t split: option.splits)
qed

theorem join_hands_over_witness:
  "\<exists>ni' items rni'. server_getDataItemsOnJoin (\<lambda>x. [of_nat (length x)]) \<lparr>w_id = [], w_ip = ''aaa'', w_port = 1\<rparr>
      (setDataExpires [1, 2, 3] [7] 5000000001 (setPredecessor (Some (mkNode (\<lambda>x. [of_nat (length x)]) [] 1))
         (NodeInformation_init (\<lambda>x. [of_nat (length x)]) ''aaaaaaaaa'' 1))) = Inr (ni', items) \<and>
    storeDataItems items (NodeInformation_init (\<lambda>x. [of_nat (length x)]) ''aaa'' 1) = Inr rni' \<and>
    map_of (m_data ni') [1, 2, 3] = None \<and> (\<exists>e. map_of (m_data rni') [1, 2, 3] = Some ([7], e))"
proof -
  let ?h = "\<lambda>x :: bytes. [of_nat (length x)] :: bytes"
  let ?w = "\<lparr>w_id = [], w_ip = ''aaa'', w_port = 1\<rparr>"
  let ?ni = "setDataExpires [1, 2, 3] [7] 5000000001 (setPredecessor (Some (mkNode ?h [] 1))
         (NodeInformation_init ?h ''aaaaaaaaa'' 1))"
  let ?r = "NodeInformation_init ?h ''aaa'' 1"
  have s: "length (to_string_nat (Suc 0)) = 1" by (simp add: to_string_nat.simps)
  have ids: "getId ?h (nodeFromReader ?h ?w) = [5]" "getId ?h (mkNode ?h [] 1) = [2]" "NI_getId ?h ?ni = [11]"
    by (simp_all add: nodeFromReader_def node_simps node_name_def s bytes_of_string_def NI_getId_def ni_defs)
  have ok: "ni_ok ?ni" "ni_ok ?r" by (simp_all add: ni_ok_update ni_ok_init)
  have new: "is_in_range_loop (getId ?h (nodeFromReader ?h ?w)) (getId ?h (mkNode ?h [] 1)) (NI_getId ?h ?ni) False False"
    and k: "handed_over ?h (mkNode ?h [] 1) (nodeFromReader ?h ?w) [1, 2, 3]"
    unfolding handed_over_def ids by (simp_all add: range_simps)
  have d: "map_of (m_data ?ni) [1, 2, 3] = Some ([7], 5000000001)" "m_predecessor ?ni = Some (mkNode ?h [] 1)"
    "\<forall>(k, v, e) \<in> set (m_data ?ni). 0 \<le> e \<and> e < 2 ^ 63"
    by (simp_all add: ni_defs)
  from join_hands_over [OF ok d(2) new d(3)] show ?thesis
    apply (elim exE conjE)
    subgoal for ni' items rni'
      using k d(1) by (intro exI [of _ ni'] exI [of _ items] exI [of _ rni']) (auto dest!: spec [of _ "[1, 2, 3]"])
    done
qed

end
