(* ===== verification/Lookup.thy ===== *)
theory Lookup
  imports Network
begin

text \<open>
  The lookup outside stable rings: it returns on every honest network, whatever its fingers are and
  whichever peers are offline, and what its checks let pass when the answers are not honest.
\<close>

section \<open>Definitions\<close>

text \<open>
  An honest network: its peers hold well-formed states under their own addresses, and every node they
  know carries the hash of its address, as every node that was read from the wire does. Nothing is
  said about which nodes they know or which of those are online.
\<close>

definition honest_peer :: "(bytes \<Rightarrow> bytes) \<Rightarrow> addr \<Rightarrow> NodeInformation \<Rightarrow> bool" where
  "honest_peer h a ni \<longleftrightarrow>
     ni_ok ni \<and> m_node ni = node_of h a \<and>
     list_all (\<lambda>f. case f of None \<Rightarrow> True | Some n \<Rightarrow> addressed h n) (m_fingerTable ni)"

definition honest_net :: "(bytes \<Rightarrow> bytes) \<Rightarrow> addr list \<Rightarrow> network \<Rightarrow> bool" where
  "honest_net h addrs net \<longleftrightarrow>
     dom net \<subseteq> set addrs \<and>
     list_all (\<lambda>a. case net a of None \<Rightarrow> True | Some ni \<Rightarrow> honest_peer h a ni) addrs"

text \<open>The identifiers of all nodes that the peers of a network know.\<close>

definition finger_ids :: "(bytes \<Rightarrow> bytes) \<Rightarrow> addr list \<Rightarrow> network \<Rightarrow> bytes set" where
  "finger_ids h addrs net =
     (\<Union>a \<in> set addrs. case net a of None \<Rightarrow> {} | Some ni \<Rightarrow>
        insert (addr_id h a) (getId h ` set (List.map_filter id (m_fingerTable ni))))"

text \<open>
  What a round of the lookup may rely on: a closest preceding node that passed the checks is
  one of the nodes \<open>U\<close> and lies between the asked node and both targets.
\<close>

definition good_step :: "(bytes \<Rightarrow> bytes) \<Rightarrow> bytes set \<Rightarrow> bytes \<Rightarrow> Node \<Rightarrow> bytes \<Rightarrow> ClosestPrecedingPair result \<Rightarrow> bool" where
  "good_step h U i n j r \<longleftrightarrow>
     (case r of
        Inl e \<Rightarrow> True
      | Inr result \<Rightarrow>
          (case closestPreceding result of
             None \<Rightarrow> True
           | Some c \<Rightarrow> addressed h c \<and> getId h c \<in> U \<and>
               is_in_range_loop (getId h c) (getId h n) j False False \<and>
               is_in_range_loop (getId h c) (getId h n) i False False))"

text \<open>
  The stack of hops is strictly ordered on the circle and holds no distrusted node; so a pop removes a
  node for good, and a push comes strictly closer to the target.
\<close>

definition hops_ok :: "(bytes \<Rightarrow> bytes) \<Rightarrow> bytes set \<Rightarrow> bytes \<Rightarrow> Node list \<Rightarrow> Node list \<Rightarrow> bool" where
  "hops_ok h U i hops ds \<longleftrightarrow>
     sorted_wrt (\<lambda>x y. is_in_range_loop (getId h x) (getId h y) i False False) hops \<and>
     list_all (\<lambda>n. addressed h n \<and> getId h n \<in> U \<and> \<not> uset_contains h ds n) hops"

section \<open>Rounds of the lookup\<close>

lemma uset_contains_iff: "uset_contains h ds n \<longleftrightarrow> getId h n \<in> getId h ` set ds"
  by (auto simp: uset_contains_def list_ex_iff node_eq_def)

lemma uset_insert_ids: "getId h ` set (uset_insert h n ds) = insert (getId h n) (getId h ` set ds)"
  by (auto simp: uset_insert_def uset_contains_iff)

lemma checkResult_preceding:
  assumes "checkResult h env ni n i r = Inr r'" and "closestPreceding r' = Some c"
  shows "closestPreceding r = Some c" "is_in_range_loop (getId h c) (getId h n) i False False"
  using assms by (auto simp: checkResult_def Let_def split: option.splits if_splits sum.splits)

lemma shrink_arc:
  fixes a :: "'i::linorder"
  shows "is_in_range_loop c a j False False \<Longrightarrow> is_in_range_loop y a c False False \<Longrightarrow> is_in_range_loop y a j False False"
    "\<not> is_in_range_loop c a c False False"
  by (auto simp: range_simps split: if_splits)

lemma shrink_arc_card:
  assumes "finite U" and "c \<in> U" and "is_in_range_loop c a j False False"
  shows "card {y \<in> U. is_in_range_loop y a c False False} < card {y \<in> U. is_in_range_loop y a (j :: bytes) False False}"
proof (rule psubset_card_mono)
  have "c \<in> {y \<in> U. is_in_range_loop y a j False False}" "c \<notin> {y \<in> U. is_in_range_loop y a c False False}"
    using assms shrink_arc(2) by auto
  then show "{y \<in> U. is_in_range_loop y a c False False} \<subset> {y \<in> U. is_in_range_loop y a j False False}"
    using shrink_arc(1) [OF assms(3)] by blast
qed (use assms in simp)

lemma iterate_returns:
  assumes "finite U" and step: "\<And>j. length j = 32 \<Longrightarrow> good_step h U i n j (helper_impl h env ni n i j)"
    and len: "\<And>x. length (h x) = 32" and "length j = 32"
  shows "\<exists>r. helper_iterate h env ni n i ds j = Some r \<and> good_step h U i n i r \<and>
    (case r of Inl e \<Rightarrow> True | Inr res \<Rightarrow>
       (case closestPreceding res of None \<Rightarrow> True | Some c \<Rightarrow> \<not> uset_contains h ds c))"
  using assms(4)
proof (induction "card {y \<in> U. is_in_range_loop y (getId h n) j False False}" arbitrary: j rule: less_induct)
  case less
  have g: "good_step h U i n j (helper_impl h env ni n i j)" by (rule step [OF less.prems])
  show ?case
  proof (cases "\<exists>res c. helper_impl h env ni n i j = Inr res \<and> closestPreceding res = Some c \<and> uset_contains h ds c")
    case True
    then obtain res c where c: "helper_impl h env ni n i j = Inr res" "closestPreceding res = Some c" "uset_contains h ds c"
      by blast
    then have gc: "addressed h c" "getId h c \<in> U" "is_in_range_loop (getId h c) (getId h n) j False False"
      using g by (simp_all add: good_step_def)
    have "length (getId h c) = 32"
      using gc(1) len by (metis addressed_def getId_mkNode)
    from less.hyps [OF shrink_arc_card [OF assms(1) gc(2,3)] this] show ?thesis
      using c by (subst helper_iterate.simps) simp
  next
    case False
    then show ?thesis
      using g by (subst helper_iterate.simps) (auto simp: good_step_def split: sum.splits option.splits)
  qed
qed

section \<open>The whole lookup\<close>

lemma hops_ok_push:
  assumes "hops_ok h U i (n # below) ds" and "addressed h c" and "getId h c \<in> U" and "\<not> uset_contains h ds c"
    and "is_in_range_loop (getId h c) (getId h n) i False False"
  shows "hops_ok h U i (c # n # below) ds"
  using assms circle.between_trans by (fastforce simp: hops_ok_def list_all_iff)

lemma hops_ok_pop:
  assumes "hops_ok h U i (n # below) ds"
  shows "hops_ok h U i below (uset_insert h n ds)"
  using assms circle.between_irrefl
  by (force simp: hops_ok_def list_all_iff uset_contains_iff uset_insert_ids)

lemma algorithm_returns:
  assumes "finite U"
    and step: "\<And>n j. addressed h n \<Longrightarrow> length j = 32 \<Longrightarrow> good_step h U i n j (helper_impl h env ni n i j)"
    and len: "\<And>x. length (h x) = 32" "length i = 32"
    and "hops_ok h U i hops ds"
  shows "\<exists>r. getSuccessorAlgorithm h env ni i hops ds = Some r"
  using assms(5)
proof (induction "(hops, ds)" arbitrary: hops ds rule: wf_induct_rule [OF wf_measures [of
      "[\<lambda>(hops, ds). card (U - getId h ` set ds),
        \<lambda>(hops, ds). case hops of [] \<Rightarrow> 0 | n # _ \<Rightarrow> Suc (card {y \<in> U. is_in_range_loop y (getId h n) i False False})]"]])
  case (1 hops ds)
  show ?case
  proof (cases hops)
    case Nil
    then show ?thesis by (subst getSuccessorAlgorithm.simps) simp
  next
    case (Cons n below)
    with 1(2) have n: "addressed h n" "getId h n \<in> U" "\<not> uset_contains h ds n" by (simp_all add: hops_ok_def)
    obtain r where r: "helper_iterate h env ni n i ds i = Some r" "good_step h U i n i r"
      "case r of Inl e \<Rightarrow> True | Inr res \<Rightarrow>
         (case closestPreceding res of None \<Rightarrow> True | Some c \<Rightarrow> \<not> uset_contains h ds c)"
      using iterate_returns [OF assms(1) step [OF n(1)] len] by blast
    have push: "\<exists>r. getSuccessorAlgorithm h env ni i (c # hops) ds = Some r"
      if "r = Inr res" "closestPreceding res = Some c" for res c
    proof (rule 1(1))
      have c: "addressed h c" "getId h c \<in> U" "\<not> uset_contains h ds c"
        "is_in_range_loop (getId h c) (getId h n) i False False" using r that by (simp_all add: good_step_def)
      then show "hops_ok h U i (c # hops) ds" using 1(2) hops_ok_push Cons by blast
      show "((c # hops, ds), (hops, ds)) \<in> measures [\<lambda>(hops, ds). card (U - getId h ` set ds),
          \<lambda>(hops, ds). case hops of [] \<Rightarrow> 0 | n # _ \<Rightarrow> Suc (card {y \<in> U. is_in_range_loop y (getId h n) i False False})]"
        using circle.arc_measure_decreases [OF assms(1) c(2,4)] Cons by simp
    qed
    have pop: "\<exists>r. getSuccessorAlgorithm h env ni i below (uset_insert h n ds) = Some r"
    proof (rule 1(1))
      show "hops_ok h U i below (uset_insert h n ds)" using 1(2) hops_ok_pop Cons by blast
      have "card (U - insert (getId h n) (getId h ` set ds)) < card (U - getId h ` set ds)"
        using assms(1) n by (intro psubset_card_mono) (auto simp: uset_contains_iff)
      then show "((below, uset_insert h n ds), (hops, ds)) \<in> measures [\<lambda>(hops, ds). card (U - getId h ` set ds),
          \<lambda>(hops, ds). case hops of [] \<Rightarrow> 0 | n # _ \<Rightarrow> Suc (card {y \<in> U. is_in_range_loop y (getId h n) i False False})]"
        by (simp add: uset_insert_ids)
    qed
    show ?thesis
      using push pop r(1) Cons
      by (subst getSuccessorAlgorithm.simps)
        (auto simp: getClosestPrecedingHelper_def split: sum.splits option.splits)
  qed
qed

section \<open>Honest networks\<close>

lemma addressed_node_of: "addressed h n \<longleftrightarrow> n = node_of h (addr_of n)"
  by (simp add: addressed_def node_of_def addr_of_def)

lemma honest_netD:
  assumes "honest_net h addrs net" and "net a = Some ni"
  shows "a \<in> set addrs" "ni_ok ni" "m_node ni = node_of h a" "NI_getId h ni = addr_id h a"
    "Some f \<in> set (m_fingerTable ni) \<Longrightarrow> addressed h f \<and> getId h f \<in> finger_ids h addrs net"
    "addr_id h a \<in> finger_ids h addrs net"
proof -
  show a: "a \<in> set addrs" using assms by (auto simp: honest_net_def dom_def)
  then have p: "honest_peer h a ni" using assms by (auto simp: honest_net_def list_all_iff split: option.splits)
  then show "ni_ok ni" "m_node ni = node_of h a" "NI_getId h ni = addr_id h a"
    by (simp_all add: honest_peer_def NI_getId_def)
  show "addr_id h a \<in> finger_ids h addrs net" using a assms(2) by (auto simp: finger_ids_def intro!: bexI [of _ a])
  show "addressed h f \<and> getId h f \<in> finger_ids h addrs net" if f: "Some f \<in> set (m_fingerTable ni)"
  proof
    show "addressed h f" using p f by (force simp: honest_peer_def list_all_iff)
    have "f \<in> set (List.map_filter id (m_fingerTable ni))" using f by (force simp: List.map_filter_def)
    then show "getId h f \<in> finger_ids h addrs net" using a assms(2) by (auto simp: finger_ids_def intro!: bexI [of _ a])
  qed
qed

lemma honest_preceding:
  assumes "honest_net h addrs net" and "net a = Some ni" and "getClosestPreceding h ni j = Inr (Some c)"
  shows "addressed h c" "getId h c \<in> finger_ids h addrs net" "is_in_range_loop (getId h c) (addr_id h a) j False False"
proof -
  note d = honest_netD [OF assms(1,2)]
  have len: "length (m_fingerTable ni) = key_bits" using d(2) by (simp add: ni_ok_def)
  note g = getClosestPreceding_Some [OF assms(3) len]
  show "addressed h c" "getId h c \<in> finger_ids h addrs net" using d(5) [OF g(1)] by simp_all
  show "is_in_range_loop (getId h c) (addr_id h a) j False False" using g(2) d(4) by simp
qed

lemma good_step_checkResult:
  assumes "\<And>c. closestPreceding r = Some c \<Longrightarrow> addressed h c \<and> getId h c \<in> U \<and>
      is_in_range_loop (getId h c) (getId h n) j False False"
  shows "good_step h U i n j (checkResult h env ni n i r)"
  using assms checkResult_preceding [of h env ni n i r]
  by (auto simp: good_step_def split: sum.splits option.splits)

lemma honest_step:
  assumes net: "honest_net h addrs net" "net b = Some ni" and n: "addressed h n" and j: "length j = 32"
  shows "good_step h (finger_ids h addrs net) i n j (helper_impl h (net_env h m net f) ni n i j)"
proof (cases "node_eq h n (getNode ni)")
  case True
  then have id: "getId h n = addr_id h b"
    using honest_netD(3) [OF net] by (simp add: node_eq_def getNode_def)
  show ?thesis
  proof (cases "getClosestPreceding h ni j")
    case (Inl e)
    with True show ?thesis by (simp add: helper_impl_def good_step_def)
  next
    case (Inr c)
    with True show ?thesis
      using honest_preceding [OF net] id by (auto simp: helper_impl_def intro!: good_step_checkResult)
  qed
next
  case False
  have id: "getId h n = addr_id h (m_ip n, m_port n)" 
    using n by (metis addressed_def node_of_def addr_id_def fst_conv snd_conv)
  show ?thesis
  proof (cases "net (m_ip n, m_port n)")
    case None
    with False show ?thesis
      by (auto simp: helper_impl_def net_call_def intro!: good_step_checkResult)
  next
    case (Some nn)
    show ?thesis
    proof (cases "getClosestPreceding h nn j")
      case (Inl e)
      with False Some j show ?thesis
        by (auto simp: helper_impl_def net_call_def server_getClosestPreceding_def intro!: good_step_checkResult)
    next
      case (Inr c)
      then have "addressed h c' \<and> getId h c' \<in> finger_ids h addrs net \<and>
          is_in_range_loop (getId h c') (getId h n) j False False" if "c = Some c'" for c'
        using honest_preceding [OF net(1) Some] id that by auto
      moreover have "nodeFromReader_opt h (buildNode_opt h c) = c"
        using calculation by (cases c) (auto simp: nodeFromReader_opt_simps addressed_wire)
      ultimately show ?thesis
        using False Some j Inr
        by (auto simp: helper_impl_def net_call_def server_getClosestPreceding_def intro!: good_step_checkResult)
    qed
  qed
qed

lemma finite_finger_ids: "finite (finger_ids h addrs net)"
  by (auto simp: finger_ids_def split: option.splits)

lemma sample_lone:
  "ni_ok (setPredecessor None (sample_peer a b))"
  "getSuccessor (setPredecessor None (sample_peer a b)) = Some (node_of sample_hash b)"
  "m_predecessor (setPredecessor None (sample_peer a b)) = None"
  by (simp_all add: ni_ok_def setPredecessor_def sample_peer_def NodeInformation_init_def key_bits_def getSuccessor_def)

lemma sample_lone_id:
  "getId sample_hash (getNode (setPredecessor None (sample_peer a b))) = addr_id sample_hash a"
  "NI_getId sample_hash (setPredecessor None (sample_peer a b)) = addr_id sample_hash a"
  by (simp_all add: setPredecessor_def sample_peer_def NodeInformation_init_def getNode_def NI_getId_def addr_id_def node_of_def)

lemma sample_lone_preceding:
  assumes "is_in_range_loop (addr_id sample_hash b) (addr_id sample_hash a) i False False"
  shows "getClosestPreceding sample_hash (setPredecessor None (sample_peer a b)) i = Inr (Some (node_of sample_hash b))"
proof -
  let ?ni = "setPredecessor None (sample_peer a b)"
  have len: "length (m_fingerTable ?ni) = key_bits" using sample_lone(1) by (simp add: ni_ok_def)
  have f: "Some f \<in> set (m_fingerTable ?ni) \<longleftrightarrow> f = node_of sample_hash b" for f
    by (auto simp: setPredecessor_def sample_peer_def)
  obtain c where c: "getClosestPreceding sample_hash ?ni i = Inr c" using getClosestPreceding_total [OF len] by blast
  have "c \<noteq> None" using getClosestPreceding_None [OF _ len, of sample_hash i] c f assms sample_lone_id(2) by auto
  then show ?thesis using c getClosestPreceding_Some [OF _ len] f by auto
qed

lemma lookup_terminates:
  assumes "honest_net h addrs net" and "net b = Some ni" and "\<And>x. length (h x) = 32" and "length i = 32"
  shows "\<exists>r. PeerImpl_getSuccessor h LOCAL (net_env h LOCAL net f) ni i = Some r"
proof -
  have "hops_ok h (finger_ids h addrs net) i [getNode ni] []"
    using honest_netD [OF assms(1,2)] by (simp add: hops_ok_def getNode_def uset_contains_def)
  then have "\<exists>r. getSuccessorAlgorithm h (net_env h LOCAL net f) ni i [getNode ni] [] = Some r"
    using algorithm_returns [OF finite_finger_ids honest_step [OF assms(1,2)] assms(3,4)] by blast
  then show ?thesis
    by (auto simp: PeerImpl_getSuccessor_def split: option.splits sum.splits)
qed

section \<open>Answers that are not honest\<close>

text \<open>
  A peer that answers every request with the same distrusted node makes the search repeat itself.
\<close>

lemma iterate_diverges:
  assumes "\<And>j. helper_impl h env ni n i j = Inr r" and "closestPreceding r = Some c" and "uset_contains h ds c"
  shows "helper_iterate h env ni n i ds j = None"
proof -
  have "False" if "helper_iterate h env ni n i ds j = Some y" for y
  proof -
    have "\<not> (h = h \<and> env = env \<and> ni = ni \<and> n = n \<and> i = i \<and> ds = ds)"
      by (rule helper_iterate.raw_induct [where P = "\<lambda>h' env' ni' n' i' ds' j' y.
          \<not> (h' = h \<and> env' = env \<and> ni' = ni \<and> n' = n \<and> i' = i \<and> ds' = ds)", OF _ that])
        (use assms in \<open>auto, blast\<close>)
    then show False by simp
  qed
  then show ?thesis by (cases "helper_iterate h env ni n i ds j") auto
qed

section \<open>Properties\<close>

text \<open>
  C7: The lookup returns on every honest network, from every peer: whatever the fingers are (stale,
  missing, pointing to peers that are offline) and whichever calls fail, it ends with a node, with
  none, or with an exception. It never goes round for ever.
\<close>

theorem lookup_returns:
  assumes "honest_net h addrs net" and "net b = Some ni" and "\<And>x. length (h x) = 32" and "length i = 32"
  shows "\<exists>r. PeerImpl_getSuccessor h LOCAL (net_env h LOCAL net f) ni i = Some r"
  by (rule lookup_terminates [OF assms])

theorem lookup_returns_witness:
  "\<exists>r. PeerImpl_getSuccessor sample_hash LOCAL
     (net_env sample_hash LOCAL [(''a'', 1) \<mapsto> sample_peer (''a'', 1) (''offline'', 7)] 0)
     (sample_peer (''a'', 1) (''offline'', 7)) (replicate 32 9) = Some r"
proof (rule lookup_returns [where addrs = "[(''a'', 1)]" and b = "(''a'', 1)"])
  show "honest_net sample_hash [(''a'', 1)] [(''a'', 1) \<mapsto> sample_peer (''a'', 1) (''offline'', 7)]"
    by (simp add: honest_net_def honest_peer_def sample_peer_def ni_ok_def NodeInformation_init_def key_bits_def list_all_iff)
      (simp add: node_of_def)
qed (simp_all add: sample_hash_def)

text \<open>
  The check of a returned direct successor does not ask whether it is responsible for the
  identifier: it tests the arc from the successor's predecessor to the asked node, and when these two
  are the same node, as on every consistent ring, the successor passes for every identifier, also for
  one outside the arc that it is responsible for.
\<close>

theorem check_accepts_wrong_successor:
  assumes "rpc_getPredecessor env (m_ip s) (m_port s) = Inr (Some (buildNode h n))" and "addressed h n"
    and "\<not> node_eq h s (getNode ni)" and "\<not> is_in_range_loop i (getId h n) (getId h s) False True"
  shows "checkResult h env ni n i \<lparr>closestPreceding = None, successor = Some s\<rparr> =
    Inr \<lparr>closestPreceding = None, successor = Some s\<rparr>"
proof -
  have "is_in_range_loop i (getId h n) (getId h n) False True" by (auto simp: range_simps)
  then show ?thesis
    using assms(1,3) addressed_wire [OF assms(2)] by (simp add: checkResult_def nodeFromReader_opt_simps)
qed

theorem check_accepts_wrong_successor_witness:
  "checkResult sample_hash (net_env sample_hash LOCAL sample_net 0) (sample_peer (''ccc'', 1) (''a'', 1))
     (node_of sample_hash (''a'', 1)) (replicate 31 0 @ [200])
     \<lparr>closestPreceding = None, successor = Some (node_of sample_hash (''bb'', 1))\<rparr> =
   Inr \<lparr>closestPreceding = None, successor = Some (node_of sample_hash (''bb'', 1))\<rparr>"
proof (rule check_accepts_wrong_successor)
  show "rpc_getPredecessor (net_env sample_hash LOCAL sample_net 0) (m_ip (node_of sample_hash (''bb'', 1)))
      (m_port (node_of sample_hash (''bb'', 1))) = Inr (Some (buildNode sample_hash (node_of sample_hash (''a'', 1))))"
    by (simp add: net_call_def sample_net_def server_getPredecessor_def getPredecessor_def sample_peer_def
        nodeFromReader_opt_simps)
  show "\<not> node_eq sample_hash (node_of sample_hash (''bb'', 1)) (getNode (sample_peer (''ccc'', 1) (''a'', 1)))"
    by (simp add: node_eq_def getNode_def sample_peer_def NodeInformation_init_def sample_id
        node_of_def [symmetric, of _ "(''ccc'', 1)", simplified])
  show "\<not> is_in_range_loop (replicate 31 0 @ [200]) (getId sample_hash (node_of sample_hash (''a'', 1)))
      (getId sample_hash (node_of sample_hash (''bb'', 1))) False True"
    by (simp add: sample_id range_simps lex_common_prefix)
qed simp

text \<open>
  When a peer's direct successor is offline, its lookups that need another hop end with the
  exception of that call, whatever the fingers are: the check of the successor has no error handler.
\<close>

theorem offline_successor_aborts:
  assumes "getSuccessor ni = Some s" and "rpc_getPredecessor env (m_ip s) (m_port s) = Inl e"
    and "ni_ok ni" and "\<not> node_eq h s (getNode ni)"
    and "case m_predecessor ni of
           Some p \<Rightarrow> \<not> is_in_range_loop i (getId h p) (NI_getId h ni) False True | None \<Rightarrow> True"
    and "\<not> is_in_range_loop i (NI_getId h ni) (getId h s) False True"
  shows "PeerImpl_getSuccessor h LOCAL env ni i = Some (Inl e)"
proof -
  obtain c where c: "getClosestPreceding h ni i = Inr c"
    using getClosestPreceding_total assms(3) by (metis ni_ok_def)
  have "checkResult h env ni (getNode ni) i \<lparr>closestPreceding = c, successor = Some s\<rparr> = Inl e"
    using assms(2,4) by (cases c) (simp_all add: checkResult_def Let_def)
  then have "helper_impl h env ni (getNode ni) i i = Inl e"
    using c assms(1) by (simp add: helper_impl_def node_eq_def)
  then have "getClosestPrecedingHelper h env ni (getNode ni) i [] = Some (Inl e)"
    unfolding getClosestPrecedingHelper_def by (subst helper_iterate.simps) simp
  then have "getSuccessorAlgorithm h env ni i [getNode ni] [] = Some (Inl e)"
    by (subst getSuccessorAlgorithm.simps) simp
  then show ?thesis
    using assms(1,5,6) by (simp add: PeerImpl_getSuccessor_def getPredecessor_def split: option.splits)
qed

theorem offline_successor_aborts_witness:
  "PeerImpl_getSuccessor sample_hash LOCAL
     (net_env sample_hash LOCAL [(''a'', 1) \<mapsto> sample_peer (''a'', 1) (''bb'', 1)] 0)
     (setPredecessor None (sample_peer (''a'', 1) (''bb'', 1))) (replicate 31 0 @ [200]) =
   Some (Inl (Rpc_Exception ''connection refused''))"
  by (rule offline_successor_aborts [where s = "node_of sample_hash (''bb'', 1)"])
    (simp_all add: sample_lone sample_lone_id sample_id net_call_def range_simps lex_common_prefix node_eq_def)

text \<open>
  C33: The set of distrusted nodes does not protect a lookup from a single lying peer. If a peer on the
  route answers every request with the same node, and that node is offline, the lookup never returns:
  the node becomes distrusted, and from then on the search asks the lying peer again and again.
\<close>

theorem lying_peer_blocks_lookup:
  assumes "m_predecessor ni = None" and "getSuccessor ni = Some q" and "getClosestPreceding h ni i = Inr (Some q)"
    and "is_in_range_loop (getId h q) (NI_getId h ni) i False False"
    and "rpc_getPredecessor env (m_ip q) (m_port q) = Inr res"
    and "\<And>j. rpc_getClosestPreceding env (m_ip q) (m_port q) j = Inr (Some w, None)"
    and "\<And>j. rpc_getClosestPreceding env (w_ip w) (w_port w) j = Inl e"
    and "is_in_range_loop (getId h (nodeFromReader h w)) (getId h q) i False False"
    and "\<not> node_eq h (nodeFromReader h w) (getNode ni)"
  shows "PeerImpl_getSuccessor h LOCAL env ni i = None"
proof -
  let ?c = "nodeFromReader h w" and ?self = "getNode ni"
  have self: "getId h ?self = NI_getId h ni" by (simp add: getNode_def NI_getId_def)
  have q: "\<not> node_eq h q ?self" using assms(4) circle.between_irrefl [of "NI_getId h ni" i] by (auto simp: node_eq_def self)
  have wire: "m_ip ?c = w_ip w" "m_port ?c = w_port w" by (simp_all add: nodeFromReader_def node_simps)
  have lie: "helper_impl h env ni q i j = Inr \<lparr>closestPreceding = Some ?c, successor = None\<rparr>" for j
    using q assms(6,8) by (simp add: helper_impl_def checkResult_def nodeFromReader_opt_simps)
  have off: "helper_impl h env ni ?c i j = Inr \<lparr>closestPreceding = None, successor = None\<rparr>" for j
    using assms(7,9) by (simp add: helper_impl_def checkResult_def wire)
  have "\<exists>s. helper_impl h env ni ?self i i = Inr \<lparr>closestPreceding = Some q, successor = s\<rparr>"
    using assms(2-5) q
    by (cases "nodeFromReader_opt h res") (auto simp: helper_impl_def node_eq_def checkResult_def self Let_def)
  then obtain s where own: "helper_impl h env ni ?self i i = Inr \<lparr>closestPreceding = Some q, successor = s\<rparr>" by blast
  have "getClosestPrecedingHelper h env ni q i (uset_insert h ?c []) = None"
    unfolding getClosestPrecedingHelper_def
    by (rule iterate_diverges [OF lie]) (simp_all add: uset_contains_iff uset_insert_ids)
  then have "getSuccessorAlgorithm h env ni i [q, ?self] (uset_insert h ?c []) = None"
    by (subst getSuccessorAlgorithm.simps) simp
  moreover have "getClosestPrecedingHelper h env ni ?c i [] = Some (Inr \<lparr>closestPreceding = None, successor = None\<rparr>)"
    "getClosestPrecedingHelper h env ni q i [] = Some (Inr \<lparr>closestPreceding = Some ?c, successor = None\<rparr>)"
    "getClosestPrecedingHelper h env ni ?self i [] = Some (Inr \<lparr>closestPreceding = Some q, successor = s\<rparr>)"
    unfolding getClosestPrecedingHelper_def
    by (subst helper_iterate.simps; simp add: off lie own uset_contains_def)+
  ultimately have "getSuccessorAlgorithm h env ni i [?self] [] = None"
    by (simp add: getSuccessorAlgorithm.simps [of _ _ _ _ "[?self]"] getSuccessorAlgorithm.simps [of _ _ _ _ "[q, ?self]" "[]"]
        getSuccessorAlgorithm.simps [of _ _ _ _ "[?c, q, ?self]"])
  moreover have "\<not> is_in_range_loop i (NI_getId h ni) (getId h q) False True"
    using assms(4) circle.up_to_iff by blast
  ultimately show ?thesis
    using assms(1,2) by (simp add: PeerImpl_getSuccessor_def getPredecessor_def)
qed

theorem lying_peer_blocks_lookup_witness:
  "PeerImpl_getSuccessor sample_hash LOCAL
     \<lparr>rpc_getPredecessor = \<lambda>ip port. Inr None,
      rpc_getClosestPreceding = \<lambda>ip port j. if ip = ''bb'' then Inr (Some \<lparr>w_id = [], w_ip = ''ccc'', w_port = 1\<rparr>, None)
        else Inl (Rpc_Exception ''connection refused''),
      rpc_getSuccessor = \<lambda>ip port j. None\<rparr>
     (setPredecessor None (sample_peer (''a'', 1) (''bb'', 1))) (replicate 31 0 @ [200]) = None"
proof -
  have w: "nodeFromReader sample_hash \<lparr>w_id = [], w_ip = ''ccc'', w_port = 1\<rparr> = node_of sample_hash (''ccc'', 1)"
    by (simp add: nodeFromReader_def node_of_def)
  show ?thesis
    by (rule lying_peer_blocks_lookup [where q = "node_of sample_hash (''bb'', 1)"
          and w = "\<lparr>w_id = [], w_ip = ''ccc'', w_port = 1\<rparr>"])
      (simp_all add: w sample_lone sample_lone_id sample_id sample_lone_preceding range_simps lex_common_prefix node_eq_def)
qed

end
