(* ===== verification/Messages.thy ===== *)
theory Messages
  imports Util
begin

text \<open>
  \<open>src/src/api/message_data\<close> and \<open>src/src/api/request\<close>: the wire format of the module interface.
  The raw headers are read and written in place (\<open>reinterpret_cast\<close>) on a little-endian machine,
  then byte-swapped. The decoding constructors build their fields in the member initialiser list and
  check the announced size afterwards, in the constructor body; a field whose iterator range leaves
  the buffer has no defined behaviour, and the model says so. The lemmas are the round trips of the
  encoders and decoders, and what every branch of \<open>Request\<close> does.
\<close>

section \<open>Definitions\<close>

subsection \<open>Raw memory\<close>

definition read_u16 :: "bytes \<Rightarrow> nat \<Rightarrow> u16" where
  "read_u16 bs i = ucast (bs ! i) OR push_bit 8 (ucast (bs ! Suc i))"

definition iter_range :: "bytes \<Rightarrow> nat \<Rightarrow> nat \<Rightarrow> bytes result" where
  "iter_range bs i j =
     (if i \<le> j \<and> j \<le> length bs then Inr (slice bs i j)
      else Inl (Undefined_Behaviour ''iterator range outside the buffer''))"

subsection \<open>Headers\<close>

record MessageHeaderRaw =
  raw_size :: u16
  raw_msg_type :: u16

record MessageHeader =
  hdr_size :: u16
  msg_type :: u16

definition MessageHeader_of_raw :: "MessageHeaderRaw \<Rightarrow> MessageHeader" where
  "MessageHeader_of_raw raw =
     \<lparr>hdr_size = swapBytes16 (raw_size raw), msg_type = swapBytes16 (raw_msg_type raw)\<rparr>"

definition MessageHeader_to_raw :: "MessageHeader \<Rightarrow> MessageHeaderRaw" where
  "MessageHeader_to_raw h =
     \<lparr>raw_size = swapBytes16 (hdr_size h), raw_msg_type = swapBytes16 (msg_type h)\<rparr>"

record MessageHeaderExtendRaw =
  raw_ttl :: u16
  raw_replication :: byte
  raw_reserved :: byte

record MessageHeaderExtend =
  ttl :: u16
  replication :: byte
  reserved :: byte

definition MessageHeaderExtend_of_raw :: "MessageHeaderExtendRaw \<Rightarrow> MessageHeaderExtend" where
  "MessageHeaderExtend_of_raw raw =
     \<lparr>ttl = swapBytes16 (raw_ttl raw), replication = raw_replication raw, reserved = raw_reserved raw\<rparr>"

definition MessageHeaderExtend_to_raw :: "MessageHeaderExtend \<Rightarrow> MessageHeaderExtendRaw" where
  "MessageHeaderExtend_to_raw h =
     \<lparr>raw_ttl = swapBytes16 (ttl h), raw_replication = replication h, raw_reserved = reserved h\<rparr>"

text \<open>The two raw structs as memory: 4 bytes each, no padding (\<open>#pragma pack\<close>).\<close>

definition header_at :: "bytes \<Rightarrow> nat \<Rightarrow> MessageHeaderRaw" where
  "header_at bs i = \<lparr>raw_size = read_u16 bs i, raw_msg_type = read_u16 bs (i + 2)\<rparr>"

definition header_bytes :: "MessageHeaderRaw \<Rightarrow> bytes" where
  "header_bytes raw = le_bytes 2 (raw_size raw) @ le_bytes 2 (raw_msg_type raw)"

definition extend_at :: "bytes \<Rightarrow> nat \<Rightarrow> MessageHeaderExtendRaw" where
  "extend_at bs i =
     \<lparr>raw_ttl = read_u16 bs i, raw_replication = bs ! (i + 2), raw_reserved = bs ! (i + 3)\<rparr>"

definition extend_bytes :: "MessageHeaderExtendRaw \<Rightarrow> bytes" where
  "extend_bytes raw = le_bytes 2 (raw_ttl raw) @ [raw_replication raw, raw_reserved raw]"

subsection \<open>Message classes\<close>

record MessageData =
  m_bytes :: bytes
  m_header :: MessageHeader

record Message_DHT_PUT = MessageData +
  m_headerExtend :: MessageHeaderExtend
  put_key :: bytes
  put_value :: bytes

record Message_DHT_PUT_KEY_IS_HASH_OF_DATA = MessageData +
  h_headerExtend :: MessageHeaderExtend
  hput_key :: bytes
  hput_value :: bytes

record Message_DHT_SUCCESS = MessageData +
  success_key :: bytes
  success_value :: bytes

record Message_KEY = MessageData +
  key_key :: bytes

record Message_DHT_GET_KEY_IS_HASH_OF_DATA = MessageData +
  hget_key :: bytes

subsection \<open>Decoding constructors\<close>

definition MessageData_init :: "bytes \<Rightarrow> MessageData result" where
  "MessageData_init bs =
     (if length bs < 4 then Inl (Undefined_Behaviour ''header outside the buffer'')
      else Inr \<lparr>m_bytes = bs, m_header = MessageHeader_of_raw (header_at bs 0)\<rparr>)"

definition extend_init :: "bytes \<Rightarrow> MessageHeaderExtend result" where
  "extend_init bs =
     (if length bs < 8 then Inl (Undefined_Behaviour ''header outside the buffer'')
      else Inr (MessageHeaderExtend_of_raw (extend_at bs 4)))"

definition Message_DHT_PUT_decode :: "bytes \<Rightarrow> Message_DHT_PUT result" where
  "Message_DHT_PUT_decode bs =
     (case MessageData_init bs of Inl e \<Rightarrow> Inl e | Inr d \<Rightarrow>
      case extend_init bs of Inl e \<Rightarrow> Inl e | Inr ext \<Rightarrow>
      case iter_range bs (4 + 4) (4 + 4 + 32) of Inl e \<Rightarrow> Inl e | Inr k \<Rightarrow>
      case iter_range bs (4 + 4 + 32) (unat (hdr_size (m_header d))) of Inl e \<Rightarrow> Inl e | Inr v \<Rightarrow>
      if unat (hdr_size (m_header d)) < 4 + 4 + 32 then Inl (Runtime_Error ''Key is too small!'')
      else Inr \<lparr>m_bytes = m_bytes d, m_header = m_header d, m_headerExtend = ext,
                put_key = k, put_value = v\<rparr>)"

definition Message_DHT_PUT_KEY_IS_HASH_OF_DATA_decode ::
    "bytes \<Rightarrow> Message_DHT_PUT_KEY_IS_HASH_OF_DATA result" where
  "Message_DHT_PUT_KEY_IS_HASH_OF_DATA_decode bs =
     (case MessageData_init bs of Inl e \<Rightarrow> Inl e | Inr d \<Rightarrow>
      case extend_init bs of Inl e \<Rightarrow> Inl e | Inr ext \<Rightarrow>
      case iter_range bs (4 + 4) (unat (hdr_size (m_header d))) of Inl e \<Rightarrow> Inl e | Inr v \<Rightarrow>
      if unat (hdr_size (m_header d)) < 4 + 4 then Inl (Runtime_Error ''Message is too small!'')
      else Inr \<lparr>m_bytes = m_bytes d, m_header = m_header d, h_headerExtend = ext,
                hput_key = v, hput_value = v\<rparr>)"

definition Message_DHT_SUCCESS_decode :: "bytes \<Rightarrow> Message_DHT_SUCCESS result" where
  "Message_DHT_SUCCESS_decode bs =
     (case MessageData_init bs of Inl e \<Rightarrow> Inl e | Inr d \<Rightarrow>
      case iter_range bs (4 + 4) (4 + 4 + 32) of Inl e \<Rightarrow> Inl e | Inr k \<Rightarrow>
      case iter_range bs (4 + 4 + 32) (unat (hdr_size (m_header d))) of Inl e \<Rightarrow> Inl e | Inr v \<Rightarrow>
      if unat (hdr_size (m_header d)) < 4 + 32 then Inl (Runtime_Error ''Key is too small!'')
      else Inr \<lparr>m_bytes = m_bytes d, m_header = m_header d, success_key = k, success_value = v\<rparr>)"

definition Message_KEY_decode :: "bytes \<Rightarrow> Message_KEY result" where
  "Message_KEY_decode bs =
     (case MessageData_init bs of Inl e \<Rightarrow> Inl e | Inr d \<Rightarrow>
      case iter_range bs 4 (4 + 32) of Inl e \<Rightarrow> Inl e | Inr k \<Rightarrow>
      if unat (hdr_size (m_header d)) < 4 + 32 then Inl (Runtime_Error ''Key is too small!'')
      else Inr \<lparr>m_bytes = m_bytes d, m_header = m_header d, key_key = k\<rparr>)"

definition Message_DHT_GET_KEY_IS_HASH_OF_DATA_decode ::
    "bytes \<Rightarrow> Message_DHT_GET_KEY_IS_HASH_OF_DATA result" where
  "Message_DHT_GET_KEY_IS_HASH_OF_DATA_decode bs =
     (case MessageData_init bs of Inl e \<Rightarrow> Inl e | Inr d \<Rightarrow>
      case iter_range bs 4 (length bs) of Inl e \<Rightarrow> Inl e | Inr k \<Rightarrow>
      if unat (hdr_size (m_header d)) < 4 then Inl (Runtime_Error ''Key is too small!'')
      else Inr \<lparr>m_bytes = m_bytes d, m_header = m_header d, hget_key = k\<rparr>)"

subsection \<open>Encoding constructors\<close>

text \<open>
  Each starts from a zeroed buffer of the final size, sets \<open>m_header\<close> with the size truncated to
  16 bits, stores the raw headers over the front of the buffer and copies key and value behind.
\<close>

definition Message_DHT_PUT_make :: "bytes \<Rightarrow> bytes \<Rightarrow> u16 \<Rightarrow> byte \<Rightarrow> Message_DHT_PUT" where
  "Message_DHT_PUT_make key val ttl_val repl =
     (let bs0 = replicate (4 + 4 + length key + length val) 0;
          hdr = \<lparr>hdr_size = of_nat (length bs0), msg_type = DHT_PUT\<rparr>;
          ext = \<lparr>ttl = ttl_val, replication = repl, reserved = 0\<rparr>;
          bs1 = overwrite bs0 0 (header_bytes (MessageHeader_to_raw hdr));
          bs2 = overwrite bs1 4 (extend_bytes (MessageHeaderExtend_to_raw ext));
          bs3 = overwrite bs2 (4 + 4) key;
          bs4 = overwrite bs3 (4 + 4 + length key) val
      in \<lparr>m_bytes = bs4, m_header = hdr, m_headerExtend = ext, put_key = [], put_value = []\<rparr>)"

definition Message_DHT_SUCCESS_make :: "bytes \<Rightarrow> bytes \<Rightarrow> Message_DHT_SUCCESS" where
  "Message_DHT_SUCCESS_make key val =
     (let bs0 = replicate (4 + length key + length val) 0;
          hdr = \<lparr>hdr_size = of_nat (length bs0), msg_type = DHT_SUCCESS\<rparr>;
          bs1 = overwrite bs0 0 (header_bytes (MessageHeader_to_raw hdr));
          bs2 = overwrite bs1 4 key;
          bs3 = overwrite bs2 (4 + length key) val
      in \<lparr>m_bytes = bs3, m_header = hdr, success_key = [], success_value = []\<rparr>)"

definition Message_KEY_make :: "u16 \<Rightarrow> bytes \<Rightarrow> Message_KEY" where
  "Message_KEY_make mt key =
     (let bs0 = replicate (4 + length key) 0;
          hdr = \<lparr>hdr_size = of_nat (length bs0), msg_type = mt\<rparr>;
          bs1 = overwrite bs0 0 (header_bytes (MessageHeader_to_raw hdr));
          bs2 = overwrite bs1 4 key
      in \<lparr>m_bytes = bs2, m_header = hdr, key_key = []\<rparr>)"

definition Message_DHT_GET_KEY_IS_HASH_OF_DATA_make ::
    "u16 \<Rightarrow> bytes \<Rightarrow> Message_DHT_GET_KEY_IS_HASH_OF_DATA" where
  "Message_DHT_GET_KEY_IS_HASH_OF_DATA_make mt key =
     (let bs0 = replicate (4 + length key) 0;
          hdr = \<lparr>hdr_size = of_nat (length bs0), msg_type = mt\<rparr>;
          bs1 = overwrite bs0 0 (header_bytes (MessageHeader_to_raw hdr));
          bs2 = overwrite bs1 4 key
      in \<lparr>m_bytes = bs2, m_header = hdr, hget_key = []\<rparr>)"

subsection \<open>Requests\<close>

text \<open>The dynamic type of \<open>m_decodedData\<close> is the constructor; \<open>getData<T>\<close> is a dynamic cast.\<close>

datatype DecodedData =
    Data_PUT Message_DHT_PUT
  | Data_KEY Message_KEY
  | Data_PUT_HASH Message_DHT_PUT_KEY_IS_HASH_OF_DATA
  | Data_GET_HASH Message_DHT_GET_KEY_IS_HASH_OF_DATA

record Request =
  m_rawBytes :: bytes
  m_decodedData :: DecodedData

definition Request_init :: "MessageHeader \<Rightarrow> bytes \<Rightarrow> Request result" where
  "Request_init header bs =
     (if length bs < unat (hdr_size header)
      then Inl (Bad_Buffer_Size ''buffer smaller than specified in header'')
      else if msg_type header = DHT_PUT
      then map_sum id (\<lambda>d. \<lparr>m_rawBytes = bs, m_decodedData = Data_PUT d\<rparr>) (Message_DHT_PUT_decode bs)
      else if msg_type header = DHT_GET
      then map_sum id (\<lambda>d. \<lparr>m_rawBytes = bs, m_decodedData = Data_KEY d\<rparr>) (Message_KEY_decode bs)
      else if msg_type header = DHT_PUT_KEY_IS_HASH_OF_DATA
      then map_sum id (\<lambda>d. \<lparr>m_rawBytes = bs, m_decodedData = Data_PUT_HASH d\<rparr>)
             (Message_DHT_PUT_KEY_IS_HASH_OF_DATA_decode bs)
      else if msg_type header = DHT_GET_KEY_IS_HASH_OF_DATA
      then map_sum id (\<lambda>d. \<lparr>m_rawBytes = bs, m_decodedData = Data_GET_HASH d\<rparr>)
             (Message_DHT_GET_KEY_IS_HASH_OF_DATA_decode bs)
      else Inl (Bad_Request (''message type incorrect: '' @ to_string_nat (unat (msg_type header)))))"

definition getBytes :: "Request \<Rightarrow> bytes" where
  "getBytes r = m_rawBytes r"

definition getData_PUT :: "Request \<Rightarrow> Message_DHT_PUT option" where
  "getData_PUT r = (case m_decodedData r of Data_PUT d \<Rightarrow> Some d | _ \<Rightarrow> None)"

definition getData_KEY :: "Request \<Rightarrow> Message_KEY option" where
  "getData_KEY r = (case m_decodedData r of Data_KEY d \<Rightarrow> Some d | _ \<Rightarrow> None)"

section \<open>Encoding and decoding\<close>

lemma le_bytes_2: "le_bytes 2 w = [ucast w, ucast (drop_bit 8 w)]"
  by (simp add: le_bytes_def numeral_2_eq_2)

lemma length_le_bytes [simp]: "length (le_bytes n w) = n"
  by (simp add: le_bytes_def)

lemma read_u16_le_bytes:
  assumes "bs ! i = le_bytes 2 w ! 0" and "bs ! Suc i = le_bytes 2 w ! 1"
  shows "read_u16 bs i = w"
proof (rule bit_word_eqI)
  fix n assume "n < LENGTH(16)"
  then show "bit (read_u16 bs i) n \<longleftrightarrow> bit w n"
    using assms
    by (cases "n < 8")
      (auto simp: read_u16_def le_bytes_2 bit_or_iff bit_push_bit_iff bit_ucast_iff bit_drop_bit_eq)
qed

lemma length_header_bytes [simp]: "length (header_bytes raw) = 4"
  by (simp add: header_bytes_def)

lemma length_extend_bytes [simp]: "length (extend_bytes raw) = 4"
  by (simp add: extend_bytes_def)

lemma header_at_header_bytes: "header_at (header_bytes raw @ rest) 0 = raw"
proof -
  let ?bs = "header_bytes raw @ rest"
  have "read_u16 ?bs 0 = raw_size raw" "read_u16 ?bs 2 = raw_msg_type raw"
    by (rule read_u16_le_bytes; simp add: header_bytes_def le_bytes_2 nth_append numeral_2_eq_2)+
  then show ?thesis by (simp add: header_at_def numeral_2_eq_2)
qed

lemma extend_at_extend_bytes:
  assumes "length xs = 4"
  shows "extend_at (xs @ extend_bytes raw @ rest) 4 = raw"
proof -
  let ?bs = "xs @ extend_bytes raw @ rest"
  have "read_u16 ?bs 4 = raw_ttl raw"
    by (rule read_u16_le_bytes; simp add: extend_bytes_def le_bytes_2 nth_append assms)
  moreover have "?bs ! 6 = raw_replication raw" "?bs ! 7 = raw_reserved raw"
    by (simp_all add: extend_bytes_def le_bytes_2 nth_append assms)
  ultimately show ?thesis by (simp add: extend_at_def)
qed

lemma raw_round_trip [simp]:
  "MessageHeader_of_raw (MessageHeader_to_raw h) = h"
  "MessageHeaderExtend_of_raw (MessageHeaderExtend_to_raw e) = e"
  by (simp_all add: MessageHeader_of_raw_def MessageHeader_to_raw_def
      MessageHeaderExtend_of_raw_def MessageHeaderExtend_to_raw_def swapBytes_involution)

lemma PUT_make_bytes [codec_simps]:
  "m_bytes (Message_DHT_PUT_make k v t r) =
     header_bytes (MessageHeader_to_raw \<lparr>hdr_size = of_nat (8 + length k + length v), msg_type = DHT_PUT\<rparr>) @
     extend_bytes (MessageHeaderExtend_to_raw \<lparr>ttl = t, replication = r, reserved = 0\<rparr>) @ k @ v"
  by (simp add: Message_DHT_PUT_make_def Let_def overwrite_def)

lemma SUCCESS_make_bytes [codec_simps]:
  "m_bytes (Message_DHT_SUCCESS_make k v) =
     header_bytes (MessageHeader_to_raw \<lparr>hdr_size = of_nat (4 + length k + length v), msg_type = DHT_SUCCESS\<rparr>) @ k @ v"
  by (simp add: Message_DHT_SUCCESS_make_def Let_def overwrite_def)

lemma KEY_make_bytes [codec_simps]:
  "m_bytes (Message_KEY_make mt k) =
     header_bytes (MessageHeader_to_raw \<lparr>hdr_size = of_nat (4 + length k), msg_type = mt\<rparr>) @ k"
  by (simp add: Message_KEY_make_def Let_def overwrite_def)

lemma GET_HASH_make_bytes [codec_simps]:
  "m_bytes (Message_DHT_GET_KEY_IS_HASH_OF_DATA_make mt k) =
     header_bytes (MessageHeader_to_raw \<lparr>hdr_size = of_nat (4 + length k), msg_type = mt\<rparr>) @ k"
  by (simp add: Message_DHT_GET_KEY_IS_HASH_OF_DATA_make_def Let_def overwrite_def)

lemma MessageData_init_encoded [codec_simps]:
  "MessageData_init (header_bytes (MessageHeader_to_raw hdr) @ rest) =
     Inr \<lparr>m_bytes = header_bytes (MessageHeader_to_raw hdr) @ rest, m_header = hdr\<rparr>"
  by (simp add: MessageData_init_def header_at_header_bytes)

lemma extend_init_encoded [codec_simps]:
  "length xs = 4 \<Longrightarrow> extend_init (xs @ extend_bytes (MessageHeaderExtend_to_raw ext) @ rest) = Inr ext"
  by (simp add: extend_init_def extend_at_extend_bytes)

lemma unat_of_nat_u16: "n < 65536 \<Longrightarrow> unat (of_nat n :: u16) = n"
  by (simp add: unsigned_of_nat take_bit_nat_eq_self)


lemma PUT_make_header: "m_header (Message_DHT_PUT_make k v t r) =
    \<lparr>hdr_size = of_nat (8 + length k + length v), msg_type = DHT_PUT\<rparr>"
  by (simp add: Message_DHT_PUT_make_def Let_def)

lemma KEY_make_header: "m_header (Message_KEY_make mt k) =
    \<lparr>hdr_size = of_nat (4 + length k), msg_type = mt\<rparr>"
  by (simp add: Message_KEY_make_def Let_def)

lemma put_decode_make:
  assumes "length k = 32" and "8 + length k + length v < 2 ^ 16"
  shows "Message_DHT_PUT_decode (m_bytes (Message_DHT_PUT_make k v t r)) =
    Inr ((Message_DHT_PUT_make k v t r)\<lparr>put_key := k, put_value := v\<rparr>)"
proof -
  have [simp]: "unat (40 + of_nat (length v) :: u16) = 40 + length v"
    using unat_of_nat_u16 [of "40 + length v"] assms by simp
  show ?thesis
    using assms(1)
    by (simp add: Message_DHT_PUT_decode_def codec_simps iter_range_def slice_def
        Message_DHT_PUT_make_def Let_def overwrite_def)
qed

lemma key_decode_make:
  assumes "length k = 32"
  shows "Message_KEY_decode (m_bytes (Message_KEY_make mt k)) =
    Inr ((Message_KEY_make mt k)\<lparr>key_key := k\<rparr>)"
  using assms
  by (simp add: Message_KEY_decode_def codec_simps iter_range_def slice_def Message_KEY_make_def
      Let_def overwrite_def)

lemma msg_types_distinct [simp]:
  "DHT_GET \<noteq> DHT_PUT" "DHT_PUT_KEY_IS_HASH_OF_DATA \<noteq> DHT_PUT" "DHT_GET_KEY_IS_HASH_OF_DATA \<noteq> DHT_PUT"
  "DHT_PUT_KEY_IS_HASH_OF_DATA \<noteq> DHT_GET" "DHT_GET_KEY_IS_HASH_OF_DATA \<noteq> DHT_GET"
  "DHT_GET_KEY_IS_HASH_OF_DATA \<noteq> DHT_PUT_KEY_IS_HASH_OF_DATA"
  by (simp_all add: msg_type_defs)

lemma swap_read_u16:
  "unat (swapBytes16 (read_u16 bs i)) = unat (bs ! i) * 256 + unat (bs ! Suc i)"
proof -
  have "bit (swapBytes16 (read_u16 bs i)) n \<longleftrightarrow>
      bit (push_bit 8 (ucast (bs ! i) :: u16) OR ucast (bs ! Suc i)) n" if "n < 16" for n
    using that
    by (auto simp: bit_swapBytes16 read_u16_def bit_or_iff bit_push_bit_iff bit_ucast_iff
        dest: bit_imp_le_length)
  then have "swapBytes16 (read_u16 bs i) = push_bit 8 (ucast (bs ! i) :: u16) OR ucast (bs ! Suc i)"
    by (intro bit_word_eqI) simp
  also have "\<dots> = push_bit 8 (ucast (bs ! i) :: u16) + ucast (bs ! Suc i)"
    by (rule disjunctive_add [symmetric]) (auto simp: bit_push_bit_iff bit_ucast_iff dest: bit_imp_le_length)
  also have "\<dots> = of_nat (unat (bs ! i) * 256 + unat (bs ! Suc i))"
    by (simp add: push_bit_eq_mult mult.commute)
  finally have "unat (swapBytes16 (read_u16 bs i)) = unat (of_nat (unat (bs ! i) * 256 + unat (bs ! Suc i)) :: u16)"
    by simp
  also have "\<dots> = unat (bs ! i) * 256 + unat (bs ! Suc i)"
    by (rule unat_of_nat_u16) (use unat_byte_less [of "bs ! i"] unat_byte_less [of "bs ! Suc i"] in linarith)
  finally show ?thesis .
qed

lemmas decode_defs = Request_init_def Message_DHT_PUT_decode_def Message_KEY_decode_def
  Message_DHT_PUT_KEY_IS_HASH_OF_DATA_decode_def Message_DHT_GET_KEY_IS_HASH_OF_DATA_decode_def
  MessageData_init_def extend_init_def iter_range_def

lemma request_of_put:
  assumes "length k = 32" and "8 + length k + length v < 2 ^ 16"
  shows "Request_init (m_header (Message_DHT_PUT_make k v t r)) (m_bytes (Message_DHT_PUT_make k v t r)) =
    Inr \<lparr>m_rawBytes = m_bytes (Message_DHT_PUT_make k v t r),
         m_decodedData = Data_PUT ((Message_DHT_PUT_make k v t r)\<lparr>put_key := k, put_value := v\<rparr>)\<rparr>"
proof -
  have "unat (40 + of_nat (length v) :: u16) = 40 + length v"
    using unat_of_nat_u16 [of "40 + length v"] assms by simp
  then have "\<not> length (m_bytes (Message_DHT_PUT_make k v t r)) < unat (hdr_size (m_header (Message_DHT_PUT_make k v t r)))"
    using assms(1) by (simp add: codec_simps PUT_make_header)
  then show ?thesis
    by (simp add: Request_init_def put_decode_make [OF assms] PUT_make_header)
qed

lemma request_of_get:
  assumes "length k = 32"
  shows "Request_init (m_header (Message_KEY_make DHT_GET k)) (m_bytes (Message_KEY_make DHT_GET k)) =
    Inr \<lparr>m_rawBytes = m_bytes (Message_KEY_make DHT_GET k),
         m_decodedData = Data_KEY ((Message_KEY_make DHT_GET k)\<lparr>key_key := k\<rparr>)\<rparr>"
proof -
  have "length (m_bytes (Message_KEY_make DHT_GET k)) = 36"
    by (simp add: codec_simps assms)
  then show ?thesis
    by (simp add: Request_init_def key_decode_make [OF assms] KEY_make_header assms)
qed

section \<open>Properties\<close>

text \<open>
  A \<open>DHT_PUT\<close> message built from a 32-byte key and a value that fits the 16-bit size field is
  accepted by \<open>Request\<close>, and the request carries exactly that key, value, ttl and replication.
\<close>

theorem request_put_round_trip:
  assumes "length k = 32" and "8 + length k + length v < 2 ^ 16"
  shows "Request_init (m_header (Message_DHT_PUT_make k v t r)) (m_bytes (Message_DHT_PUT_make k v t r)) =
    Inr \<lparr>m_rawBytes = m_bytes (Message_DHT_PUT_make k v t r),
         m_decodedData = Data_PUT ((Message_DHT_PUT_make k v t r)\<lparr>put_key := k, put_value := v\<rparr>)\<rparr>"
  by (rule request_of_put [OF assms])

theorem request_put_round_trip_witness:
  "Request_init (m_header (Message_DHT_PUT_make (replicate 32 1) [7, 8] 60 2))
     (m_bytes (Message_DHT_PUT_make (replicate 32 1) [7, 8] 60 2)) =
   Inr \<lparr>m_rawBytes = m_bytes (Message_DHT_PUT_make (replicate 32 1) [7, 8] 60 2),
        m_decodedData = Data_PUT ((Message_DHT_PUT_make (replicate 32 1) [7, 8] 60 2)
          \<lparr>put_key := replicate 32 1, put_value := [7, 8]\<rparr>)\<rparr>"
  by (rule request_put_round_trip) simp_all

text \<open>
  A \<open>DHT_GET\<close> message built from a 32-byte key is accepted by \<open>Request\<close>, and the request
  carries exactly that key.
\<close>

theorem request_get_round_trip:
  assumes "length k = 32"
  shows "Request_init (m_header (Message_KEY_make DHT_GET k)) (m_bytes (Message_KEY_make DHT_GET k)) =
    Inr \<lparr>m_rawBytes = m_bytes (Message_KEY_make DHT_GET k),
         m_decodedData = Data_KEY ((Message_KEY_make DHT_GET k)\<lparr>key_key := k\<rparr>)\<rparr>"
  by (rule request_of_get [OF assms])

theorem request_get_round_trip_witness:
  "Request_init (m_header (Message_KEY_make DHT_GET (replicate 32 5)))
     (m_bytes (Message_KEY_make DHT_GET (replicate 32 5))) =
   Inr \<lparr>m_rawBytes = m_bytes (Message_KEY_make DHT_GET (replicate 32 5)),
        m_decodedData = Data_KEY ((Message_KEY_make DHT_GET (replicate 32 5))\<lparr>key_key := replicate 32 5\<rparr>)\<rparr>"
  by (rule request_get_round_trip) simp

text \<open>
  What an accepted request holds, for each message class: the raw bytes unchanged, the dynamic
  type that the header's message type names, and every field the bytes at its offset, with the
  16-bit fields in network byte order.
\<close>

theorem request_fields:
  assumes "Request_init hdr bs = Inr r"
  shows "getBytes r = bs \<and> unat (hdr_size hdr) \<le> length bs \<and>
    (case m_decodedData r of
       Data_PUT d \<Rightarrow> msg_type hdr = DHT_PUT \<and> put_key d = slice bs 8 40 \<and>
         put_value d = slice bs 40 (unat (bs ! 0) * 256 + unat (bs ! 1)) \<and>
         unat (ttl (m_headerExtend d)) = unat (bs ! 4) * 256 + unat (bs ! 5) \<and>
         replication (m_headerExtend d) = bs ! 6
     | Data_KEY d \<Rightarrow> msg_type hdr = DHT_GET \<and> key_key d = slice bs 4 36
     | Data_PUT_HASH d \<Rightarrow> msg_type hdr = DHT_PUT_KEY_IS_HASH_OF_DATA \<and> hput_key d = hput_value d \<and>
         hput_value d = slice bs 8 (unat (bs ! 0) * 256 + unat (bs ! 1))
     | Data_GET_HASH d \<Rightarrow> msg_type hdr = DHT_GET_KEY_IS_HASH_OF_DATA \<and> hget_key d = drop 4 bs)"
  using assms
  by (auto simp: decode_defs getBytes_def MessageHeader_of_raw_def header_at_def
      MessageHeaderExtend_of_raw_def extend_at_def swap_read_u16 slice_def split: if_splits)

theorem request_fields_witness:
  "\<exists>r. Request_init \<lparr>hdr_size = 36, msg_type = DHT_GET\<rparr> ([0, 36, 2, 139] @ replicate 32 9) = Inr r \<and>
     getBytes r = [0, 36, 2, 139] @ replicate 32 9"
proof -
  let ?hdr = "\<lparr>hdr_size = 36, msg_type = DHT_GET\<rparr>" and ?bs = "[0, 36, 2, 139] @ replicate 32 9 :: bytes"
  have "unat (swapBytes16 (read_u16 ?bs 0)) = 36"
    by (simp add: swap_read_u16)
  then obtain r where "Request_init ?hdr ?bs = Inr r"
    by (simp add: decode_defs MessageHeader_of_raw_def header_at_def)
  then show ?thesis using request_fields [of ?hdr ?bs r] by blast
qed

text \<open>
  C39: On a completely received buffer (as long as its own header announces), decoding has undefined
  behaviour exactly when the announced size is below the fixed part of the message, and it never
  raises the \<open>too small\<close> error: the constructors slice the buffer before they check its size.
\<close>

theorem request_ub_iff:
  assumes "length bs = unat (hdr_size hdr)" and "hdr = MessageHeader_of_raw (header_at bs 0)"
    and "4 \<le> length bs"
  shows "(is_ub (Request_init hdr bs) \<longleftrightarrow>
      msg_type hdr = DHT_PUT \<and> length bs < 40 \<or>
      msg_type hdr = DHT_GET \<and> length bs < 36 \<or>
      msg_type hdr = DHT_PUT_KEY_IS_HASH_OF_DATA \<and> length bs < 8) \<and>
    (\<nexists>s. Request_init hdr bs = Inl (Runtime_Error s))"
proof -
  have sz: "unat (hdr_size (MessageHeader_of_raw (header_at bs 0))) = length bs" using assms by simp
  consider "msg_type hdr = DHT_PUT" | "msg_type hdr = DHT_GET"
    | "msg_type hdr = DHT_PUT_KEY_IS_HASH_OF_DATA" | "msg_type hdr = DHT_GET_KEY_IS_HASH_OF_DATA"
    | "msg_type hdr \<notin> {DHT_PUT, DHT_GET, DHT_PUT_KEY_IS_HASH_OF_DATA, DHT_GET_KEY_IS_HASH_OF_DATA}"
    by blast
  then show ?thesis
    by cases (use assms(3) in \<open>simp_all add: decode_defs sz assms(2) msg_type_defs\<close>)
qed

theorem request_ub_iff_witness:
  "is_ub (Request_init \<lparr>hdr_size = 6, msg_type = DHT_GET\<rparr> [0, 6, 2, 139, 1, 2])"
proof -
  let ?bs = "[0, 6, 2, 139, 1, 2] :: bytes"
  have "unat (swapBytes16 (read_u16 ?bs 0)) = 6" "unat (swapBytes16 (read_u16 ?bs (Suc (Suc 0)))) = 651"
    by (simp_all add: swap_read_u16)
  then have hdr: "\<lparr>hdr_size = 6, msg_type = DHT_GET\<rparr> = MessageHeader_of_raw (header_at ?bs 0)"
    by (simp add: MessageHeader_of_raw_def header_at_def msg_type_defs word_unat_eq_iff)
  show ?thesis using request_ub_iff [OF _ hdr] by simp
qed

text \<open>
  The decoder of \<open>DHT_SUCCESS\<close> does not invert the encoder: it looks for the key behind a
  second header that the encoder does not write, so key and value come out shifted by four bytes.
\<close>

theorem success_decode_is_shifted:
  assumes "length k = 32" and "4 \<le> length v" and "4 + length k + length v < 2 ^ 16"
  shows "map_sum id (\<lambda>m. (success_key m, success_value m))
      (Message_DHT_SUCCESS_decode (m_bytes (Message_DHT_SUCCESS_make k v))) =
    Inr (drop 4 k @ take 4 v, drop 4 v)"
proof -
  have [simp]: "unat (36 + of_nat (length v) :: u16) = 36 + length v"
    using unat_of_nat_u16 [of "36 + length v"] assms by simp
  show ?thesis
    using assms(1,2)
    by (simp add: Message_DHT_SUCCESS_decode_def codec_simps iter_range_def slice_def)
qed

theorem success_decode_is_shifted_witness:
  "map_sum id (\<lambda>m. (success_key m, success_value m))
     (Message_DHT_SUCCESS_decode (m_bytes (Message_DHT_SUCCESS_make (replicate 32 1) [2, 3, 4, 5, 6]))) =
   Inr (replicate 28 1 @ [2, 3, 4, 5], [6])"
  using success_decode_is_shifted [of "replicate 32 1" "[2, 3, 4, 5, 6]"] by simp

end
