(* ===== verification/Dht.thy ===== *)
theory Dht
  imports Network Messages
begin

text \<open>
  \<open>src/src/dht/Dht\<close>: the handlers of the client's requests and the maintenance of the ring, as the
  peer at the address \<open>self\<close> runs them on a network of peers. A handler is evaluated with no other
  peer changing its state in between; the replication task that the source starts in the background
  is run to its end. An outer \<open>None\<close> is a lookup that never returns. The clock is a parameter, read
  once per stored item.
\<close>

section \<open>Definitions\<close>

subsection \<open>Access to the other peers (Peer)\<close>

definition Dht_getSuccessor :: "(bytes \<Rightarrow> bytes) \<Rightarrow> network \<Rightarrow> addr \<Rightarrow> bytes \<Rightarrow> Node option option" where
  "Dht_getSuccessor h net self key =
     (case rpc_getSuccessor (net_env h LOCAL net 1) (fst self) (snd self) key of
        None \<Rightarrow> None
      | Some (Inr res) \<Rightarrow> Some (nodeFromReader_opt h res)
      | Some (Inl e) \<Rightarrow> Some None)"

definition PeerImpl_getData :: "(bytes \<Rightarrow> bytes) \<Rightarrow> network \<Rightarrow> addr \<Rightarrow> Node \<Rightarrow> bytes \<Rightarrow> bytes option" where
  "PeerImpl_getData h net self node key =
     (case net self of
        None \<Rightarrow> None
      | Some ni \<Rightarrow>
          if node_eq h node (getNode ni) then getData ni key
          else (case net_call net (m_ip node) (m_port node) (\<lambda>n. Inr (server_getData n key)) of
                  Inr d \<Rightarrow> d | Inl e \<Rightarrow> None))"

definition PeerImpl_setData ::
    "(bytes \<Rightarrow> bytes) \<Rightarrow> int \<Rightarrow> network \<Rightarrow> addr \<Rightarrow> Node \<Rightarrow> bytes \<Rightarrow> bytes \<Rightarrow> u16 \<Rightarrow> network" where
  "PeerImpl_setData h now net self node key val t =
     (case net self of
        None \<Rightarrow> net
      | Some ni \<Rightarrow>
          if node_eq h node (getNode ni) then net(self \<mapsto> setData now key val (ttl_duration t) ni)
          else (case net (m_ip node, m_port node) of
                  None \<Rightarrow> net
                | Some n \<Rightarrow> net((m_ip node, m_port node) \<mapsto> server_setData now key val t n)))"

subsection \<open>Requests of the client\<close>

text \<open>
  The replication task: the copies of an item are stored under its key with a counter appended,
  or under the hash of that (\<open>stored\<close>), at the peer responsible for the hash; \<open>counts\<close> is
  \<open>ReplicationOfEachDataItemOnEachNode\<close>. \<open>n\<close> rounds remain, from \<open>i\<close>.
\<close>

fun replication_task ::
    "(bytes \<Rightarrow> bytes) \<Rightarrow> (bytes \<Rightarrow> bytes) \<Rightarrow> (nat \<Rightarrow> int) \<Rightarrow> addr \<Rightarrow> byte \<Rightarrow> bytes \<Rightarrow> bytes \<Rightarrow> u16 \<Rightarrow>
     nat \<Rightarrow> nat \<Rightarrow> (bytes \<times> byte) list \<Rightarrow> network \<Rightarrow> network option" where
  "replication_task h stored now self limit key val t 0 i counts net = Some net"
| "replication_task h stored now self limit key val t (Suc n) i counts net =
     (let tempKey = key @ [of_nat (i + 1)]
      in case Dht_getSuccessor h net self (h tempKey) of
           None \<Rightarrow> None
         | Some None \<Rightarrow> replication_task h stored now self limit key val t n (i + 1) counts net
         | Some (Some s) \<Rightarrow>
             (case map_of counts (getId h s) of
                Some c \<Rightarrow>
                  if c < limit
                  then replication_task h stored now self limit key val t n (i + 1)
                         (smap_assign (getId h s) (c + 1) counts)
                         (PeerImpl_setData h (now (i + 1)) net self s (stored tempKey) val t)
                  else replication_task h stored now self limit key val t n (i + 1) counts net
              | None \<Rightarrow>
                  replication_task h stored now self limit key val t n (i + 1)
                    (smap_insert (getId h s) 1 counts)
                    (PeerImpl_setData h (now (i + 1)) net self s (stored tempKey) val t)))"

definition onDhtPut ::
    "(bytes \<Rightarrow> bytes) \<Rightarrow> (nat \<Rightarrow> int) \<Rightarrow> addr \<Rightarrow> Message_DHT_PUT \<Rightarrow> network \<Rightarrow> NodeStatics \<Rightarrow>
     (bytes \<times> network \<times> NodeStatics) option" where
  "onDhtPut h now self m net st =
     (let st' = setReplicationIndex (replication (m_headerExtend m)) st
      in case Dht_getSuccessor h net self (h (put_key m)) of
           None \<Rightarrow> None
         | Some s \<Rightarrow>
             (let net' = (case s of
                    Some n \<Rightarrow> PeerImpl_setData h (now 0) net self n (put_key m) (put_value m) (ttl (m_headerExtend m))
                  | None \<Rightarrow> net);
                  counts = (case s of Some n \<Rightarrow> [(getId h n, 1)] | None \<Rightarrow> [])
              in map_option (\<lambda>net''. (m_bytes m, net'', st'))
                   (if 2 \<le> replication (m_headerExtend m)
                    then replication_task h id now self (getReplicationLimitOnEachNode st') (put_key m) (put_value m)
                           (ttl (m_headerExtend m)) (unat (replication (m_headerExtend m)) - 1) 0 counts net'
                    else Some net')))"

text \<open>The search among the replicas stops at the first one that has a responsible peer.\<close>

fun get_replicas ::
    "(bytes \<Rightarrow> bytes) \<Rightarrow> network \<Rightarrow> addr \<Rightarrow> bytes \<Rightarrow> nat \<Rightarrow> nat \<Rightarrow> bytes option option" where
  "get_replicas h net self key 0 i = Some None"
| "get_replicas h net self key (Suc n) i =
     (let tempKey = key @ [of_nat i]
      in case Dht_getSuccessor h net self (h tempKey) of
           None \<Rightarrow> None
         | Some (Some s) \<Rightarrow> Some (PeerImpl_getData h net self s tempKey)
         | Some None \<Rightarrow> get_replicas h net self key n (i + 1))"

text \<open>The average as the bound of a loop: an empty one is below every number.\<close>

definition average_bound :: "NodeStatics \<Rightarrow> nat" where
  "average_bound st = (case getAverageReplicationIndex st of Some r \<Rightarrow> unat r | None \<Rightarrow> 0)"

definition get_response :: "bytes \<Rightarrow> bytes option \<Rightarrow> bytes" where
  "get_response key response =
     (case response of
        Some v \<Rightarrow> m_bytes (Message_DHT_SUCCESS_make key v)
      | None \<Rightarrow> m_bytes (Message_KEY_make DHT_FAILURE key))"

definition onDhtGet ::
    "(bytes \<Rightarrow> bytes) \<Rightarrow> addr \<Rightarrow> Message_KEY \<Rightarrow> network \<Rightarrow> NodeStatics \<Rightarrow> bytes option" where
  "onDhtGet h self m net st =
     (case Dht_getSuccessor h net self (h (key_key m)) of
        None \<Rightarrow> None
      | Some s \<Rightarrow>
          (let response = (case s of Some n \<Rightarrow> PeerImpl_getData h net self n (key_key m) | None \<Rightarrow> None)
           in if response = None \<and> 1 \<le> average_bound st
              then map_option (get_response (key_key m)) (get_replicas h net self (key_key m) (average_bound st) 1)
              else Some (get_response (key_key m) response)))"

definition onDhtPutKeyIsHashOfData ::
    "(bytes \<Rightarrow> bytes) \<Rightarrow> (nat \<Rightarrow> int) \<Rightarrow> addr \<Rightarrow> Message_DHT_PUT_KEY_IS_HASH_OF_DATA \<Rightarrow> network \<Rightarrow>
     NodeStatics \<Rightarrow> (bytes \<times> network \<times> NodeStatics) option" where
  "onDhtPutKeyIsHashOfData h now self m net st =
     (let st' = setReplicationIndex (replication (h_headerExtend m)) st;
          finalHashedKey = h (hput_key m)
      in case Dht_getSuccessor h net self finalHashedKey of
           None \<Rightarrow> None
         | Some s \<Rightarrow>
             (let net' = (case s of
                    Some n \<Rightarrow> PeerImpl_setData h (now 0) net self n finalHashedKey (hput_value m) (ttl (h_headerExtend m))
                  | None \<Rightarrow> net);
                  counts = (case s of Some n \<Rightarrow> [(getId h n, 1)] | None \<Rightarrow> [])
              in map_option (\<lambda>net''. (m_bytes m, net'', st'))
                   (if 2 \<le> replication (h_headerExtend m)
                    then replication_task h h now self (getReplicationLimitOnEachNode st') (hput_key m) (hput_value m)
                           (ttl (h_headerExtend m)) (unat (replication (h_headerExtend m)) - 1) 0 counts net'
                    else Some net')))"

text \<open>
  The replicas of a key that is a hash: a copy is hashed without asking whether there is one, and one
  that does not match stays the response while the search goes on.
\<close>

fun get_hash_replicas ::
    "(bytes \<Rightarrow> bytes) \<Rightarrow> network \<Rightarrow> addr \<Rightarrow> bytes \<Rightarrow> bytes \<Rightarrow> nat \<Rightarrow> nat \<Rightarrow> bytes option \<Rightarrow>
     bytes option result option" where
  "get_hash_replicas h net self key finalHashedKey 0 i response = Some (Inr response)"
| "get_hash_replicas h net self key finalHashedKey (Suc n) i response =
     (let tempKey = key @ [of_nat i]
      in case Dht_getSuccessor h net self (h tempKey) of
           None \<Rightarrow> None
         | Some None \<Rightarrow> get_hash_replicas h net self key finalHashedKey n (i + 1) response
         | Some (Some s) \<Rightarrow>
             (case PeerImpl_getData h net self s tempKey of
                None \<Rightarrow> Some (Inl (Undefined_Behaviour ''dereference of an empty optional''))
              | Some v \<Rightarrow>
                  if h v = finalHashedKey then Some (Inr (Some v))
                  else get_hash_replicas h net self key finalHashedKey n (i + 1) (Some v)))"

text \<open>
  \<open>finalHashedKey\<close> is an uninitialised array of 32 bytes (\<open>garbage\<close>) that the key is copied over; a
  longer key is written past its end.
\<close>

definition onDhtGetKeyIsHashOfData ::
    "(bytes \<Rightarrow> bytes) \<Rightarrow> bytes \<Rightarrow> addr \<Rightarrow> Message_DHT_GET_KEY_IS_HASH_OF_DATA \<Rightarrow> network \<Rightarrow> NodeStatics \<Rightarrow>
     bytes result option" where
  "onDhtGetKeyIsHashOfData h garbage self m net st =
     (if 32 < length (hget_key m) then Some (Inl (Undefined_Behaviour ''write outside an array''))
      else let finalHashedKey = overwrite garbage 0 (hget_key m)
           in case Dht_getSuccessor h net self finalHashedKey of
                None \<Rightarrow> None
              | Some s \<Rightarrow>
                  (case (case s of Some n \<Rightarrow> PeerImpl_getData h net self n (hget_key m) | None \<Rightarrow> None) of
                     None \<Rightarrow> Some (Inl (Undefined_Behaviour ''dereference of an empty optional''))
                   | Some v \<Rightarrow>
                       if h v \<noteq> finalHashedKey
                       then map_option (map_sum id (get_response (hget_key m)))
                              (get_hash_replicas h net self (hget_key m) finalHashedKey (average_bound st) 1 (Some v))
                       else Some (Inr (get_response (hget_key m) (Some v)))))"

subsection \<open>Vocabulary of the specifications\<close>

text \<open>The value stored under a key at a peer, and storing one there.\<close>

definition data_at :: "network \<Rightarrow> addr \<Rightarrow> bytes \<Rightarrow> bytes option" where
  "data_at net a k = Option.bind (net a) (\<lambda>ni. getData ni k)"

definition store_at :: "addr \<Rightarrow> bytes \<Rightarrow> bytes \<Rightarrow> int \<times> u16 \<Rightarrow> network \<Rightarrow> network" where
  "store_at a k v x = update_peer a (setData (fst x) k v (ttl_duration (snd x)))"

text \<open>The copies counted for a peer, and the copies that a list of writes brings to it.\<close>

definition counted :: "(bytes \<Rightarrow> bytes) \<Rightarrow> addr list \<Rightarrow> (bytes \<times> byte) list \<Rightarrow> addr \<Rightarrow> nat" where
  "counted h addrs counts a =
     (if a \<in> set addrs then (case map_of counts (addr_id h a) of Some c \<Rightarrow> unat c | None \<Rightarrow> 0) else 0)"

definition copies_at :: "('n \<times> 'b) list \<Rightarrow> 'n \<Rightarrow> nat" where
  "copies_at ws a = length (filter (\<lambda>w. fst w = a) ws)"

text \<open>
  The writes \<open>ws\<close> of the copies \<open>J\<close> of an item, of which \<open>cnt a\<close> are at the peer \<open>a\<close> before: each
  goes to its owner under its key, no peer receives more than the limit allows, a copy is left out only when its
  owner has reached the limit, and there is at most one write for each copy.
\<close>

definition copies_ok ::
    "(nat \<Rightarrow> bytes) \<Rightarrow> (nat \<Rightarrow> 'n \<Rightarrow> bool) \<Rightarrow> nat \<Rightarrow> nat set \<Rightarrow> ('n \<Rightarrow> nat) \<Rightarrow> ('n \<times> bytes \<times> 'x) list \<Rightarrow> bool" where
  "copies_ok ckey owner limit J cnt ws \<longleftrightarrow>
     (\<forall>(a, k, x) \<in> set ws. \<exists>j \<in> J. k = ckey j \<and> owner j a) \<and>
     (\<forall>a. cnt a + copies_at ws a \<le> max (cnt a) (max 1 limit)) \<and>
     (\<forall>j \<in> J. \<exists>a. owner j a \<and> ((\<exists>x. (a, ckey j, x) \<in> set ws) \<or> limit \<le> cnt a + copies_at ws a)) \<and>
     length ws \<le> card J \<and> (\<forall>j \<in> J. (\<exists>a x. owner j a \<and> (a, ckey j, x) \<in> set ws) \<or> length ws < card J)"

text \<open>Keys of 32 bytes only, as on a ring that is used only with keys that are hashes.\<close>

definition hash_keys_only :: "addr list \<Rightarrow> network \<Rightarrow> bool" where
  "hash_keys_only addrs net \<longleftrightarrow> (\<forall>a \<in> set addrs. \<forall>k. data_at net a k \<noteq> None \<longrightarrow> length k = 32)"

subsection \<open>Sample requests\<close>

definition sample_put :: Message_DHT_PUT where
  "sample_put = \<lparr>m_bytes = [], m_header = \<lparr>hdr_size = 41, msg_type = DHT_PUT\<rparr>,
     m_headerExtend = \<lparr>ttl = 60, replication = 3, reserved = 0\<rparr>, put_key = replicate 32 5, put_value = [7]\<rparr>"

definition sample_get :: Message_KEY where
  "sample_get = \<lparr>m_bytes = [], m_header = \<lparr>hdr_size = 36, msg_type = DHT_GET\<rparr>, key_key = replicate 32 5\<rparr>"

definition sample_hash_put :: Message_DHT_PUT_KEY_IS_HASH_OF_DATA where
  "sample_hash_put = \<lparr>m_bytes = [], m_header = \<lparr>hdr_size = 9, msg_type = DHT_PUT_KEY_IS_HASH_OF_DATA\<rparr>,
     h_headerExtend = \<lparr>ttl = 60, replication = 3, reserved = 0\<rparr>, hput_key = [7], hput_value = [7]\<rparr>"

definition sample_hash_get :: "bytes \<Rightarrow> Message_DHT_GET_KEY_IS_HASH_OF_DATA" where
  "sample_hash_get k = \<lparr>m_bytes = [], m_header = \<lparr>hdr_size = 36, msg_type = DHT_GET_KEY_IS_HASH_OF_DATA\<rparr>, hget_key = k\<rparr>"

section \<open>Reading and writing on a network\<close>

text \<open>
  The storage of all peers together: reading and writing a key at a peer. What a sequence of writes
  leaves at a peer is the last value written there.
\<close>

locale networked_store =
  fixes online :: "'s \<Rightarrow> 'n \<Rightarrow> bool"
    and get_at :: "'s \<Rightarrow> 'n \<Rightarrow> 'k \<Rightarrow> 'v option"
    and put_at :: "'n \<Rightarrow> 'k \<Rightarrow> 'v \<Rightarrow> 'x \<Rightarrow> 's \<Rightarrow> 's"
  assumes get_put: "online s a \<Longrightarrow> get_at (put_at a k v x s) b k' = (if b = a \<and> k' = k then Some v else get_at s b k')"
    and online_put: "online (put_at a k v x s) b \<longleftrightarrow> online s b"
begin

lemma get_after_puts:
  "(\<And>a k x. (a, k, x) \<in> set ws \<Longrightarrow> online s a) \<Longrightarrow>
     get_at (fold (\<lambda>(a, k, x). put_at a k v x) ws s) b k' =
       (if (b, k') \<in> (\<lambda>(a, k, x). (a, k)) ` set ws then Some v else get_at s b k')"
proof (induction ws arbitrary: s)
  case (Cons w ws)
  obtain a k x where w: "w = (a, k, x)" by (metis prod_cases3)
  have "online s a" using Cons.prems w by auto
  moreover have "online (put_at a k v x s) a'" if "(a', k', x') \<in> set ws" for a' k' x'
    using Cons.prems that by (auto simp: online_put)
  ultimately show ?case using Cons.IH [of "put_at a k v x s"] by (auto simp: w get_put)
qed simp

end

lemma update_peer_simps:
  "update_peer a f net b = (if b = a then map_option f (net a) else net b)"
  by (auto simp: update_peer_def split: option.splits)

interpretation net_store: networked_store "\<lambda>net a. net a \<noteq> None" data_at store_at
  by unfold_locales (auto simp: data_at_def store_at_def update_peer_simps getData_setData)

section \<open>The handlers on a stable ring\<close>

lemma stable_ring_setData:
  assumes "stable_ring h addrs net"
  shows "stable_ring h addrs (store_at a k v x net)"
proof -
  let ?now = "fst x" and ?t = "ttl_duration (snd x)"
  have "stable_peer h addrs b (setData ?now k v ?t ni)" if "stable_peer h addrs b ni" for b ni
    using that ni_ok_update(9) [of ni] by (simp add: stable_peer_def setData_def setDataExpires_def)
  then show ?thesis
    using assms by (auto simp: stable_ring_def list_all_iff store_at_def update_peer_simps split: option.splits)
qed

lemma stable_online: "stable_ring h addrs net \<Longrightarrow> a \<in> set addrs \<Longrightarrow> \<exists>ni. net a = Some ni \<and> m_node ni = node_of h a"
  by (auto elim: stable_peerE)

lemma responsible_unique:
  "stable_ring h addrs net \<Longrightarrow> responsible h addrs i a \<Longrightarrow> responsible h addrs i b \<Longrightarrow> a = b"
  using addr_id_inj [of h addrs net a b] by (auto simp: responsible_def)

lemma Dht_getSuccessor_ring:
  assumes "stable_ring h addrs net" and "self \<in> set addrs" and "length key = 32"
  shows "\<exists>a. Dht_getSuccessor h net self key = Some (Some (node_of h a)) \<and> responsible h addrs key a"
proof -
  obtain ni where ni: "net self = Some ni" using stable_online [OF assms(1,2)] by blast
  obtain a where "server_getSuccessor h LOCAL (net_env h LOCAL net 0) ni key = Some (Inr (Some (buildNode h (node_of h a))))"
    "responsible h addrs key a"
    using server_found [OF lookup_local_ring [OF assms(1,2) ni assms(3)] assms(3), of LOCAL 0] by blast
  then show ?thesis using ni by (intro exI [of _ a]) (simp add: Dht_getSuccessor_def nodeFromReader_opt_simps)
qed

lemma PeerImpl_getData_ring:
  assumes "stable_ring h addrs net" and "self \<in> set addrs" and "a \<in> set addrs"
  shows "PeerImpl_getData h net self (node_of h a) k = data_at net a k"
proof -
  obtain ni na where "net self = Some ni" "m_node ni = node_of h self" "net a = Some na"
    using stable_online [OF assms(1,2)] stable_online [OF assms(1,3)] by blast
  then show ?thesis
    using addr_id_inj [OF assms(1,3,2)]
    by (auto simp: data_at_def PeerImpl_getData_def node_eq_def getNode_def net_call_def server_getData_def)
qed

lemma PeerImpl_setData_ring:
  assumes "stable_ring h addrs net" and "self \<in> set addrs" and "a \<in> set addrs"
  shows "PeerImpl_setData h now net self (node_of h a) k v t = store_at a k v (now, t) net"
proof -
  obtain ni na where "net self = Some ni" "m_node ni = node_of h self" "net a = Some na"
    using stable_online [OF assms(1,2)] stable_online [OF assms(1,3)] by blast
  then show ?thesis
    using addr_id_inj [OF assms(1,3,2)]
    by (auto simp: store_at_def PeerImpl_setData_def node_eq_def getNode_def update_peer_def server_setData_def)
qed

subsection \<open>The replication task\<close>

lemma copies_at_simps [simp]:
  "copies_at [] a = 0" "copies_at (w # ws) a = (if fst w = a then 1 else 0) + copies_at ws a"
  by (simp_all add: copies_at_def)

lemma copies_ok_skip:
  assumes "owner j a" and "limit \<le> cnt a" and "copies_ok ckey owner limit J cnt ws" and "finite J" "j \<notin> J"
  shows "copies_ok ckey owner limit (insert j J) cnt ws"
proof -
  have "card (insert j J) = Suc (card J)" using assms(4,5) by simp
  moreover have "length ws \<le> card J" using assms(3) by (simp add: copies_ok_def)
  ultimately have "length ws < card (insert j J)" by simp
  with assms(1-3) show ?thesis unfolding copies_ok_def by (fastforce intro: trans_le_add1)
qed

lemma copies_ok_write:
  assumes "owner j a" and "cnt a < max 1 limit" and "copies_ok ckey owner limit J (cnt(a := cnt a + 1)) ws" and "finite J" "j \<notin> J"
  shows "copies_ok ckey owner limit (insert j J) cnt ((a, ckey j, x) # ws)"
proof -
  have cnt: "(cnt(a := cnt a + 1)) b + copies_at ws b = cnt b + copies_at ((a, ckey j, x) # ws) b" for b
    by simp
  have *: "cnt b + copies_at ((a, ckey j, x) # ws) b \<le> max (cnt b) (max 1 limit)" for b
    using assms(2,3) unfolding copies_ok_def cnt by (cases "b = a") (auto split: if_splits dest: spec [of _ b])
  have **: "\<exists>a'. owner l a' \<and> ((\<exists>y. (a', ckey l, y) \<in> set ((a, ckey j, x) # ws)) \<or>
      limit \<le> cnt a' + copies_at ((a, ckey j, x) # ws) a')" if "l \<in> insert j J" for l
    using that assms(1,3) unfolding copies_ok_def cnt by (cases "l = j") fastforce+
  have card: "card (insert j J) = Suc (card J)" using assms(4,5) by simp
  have "(\<exists>a' y. owner l a' \<and> (a', ckey l, y) \<in> set ((a, ckey j, x) # ws)) \<or> length ((a, ckey j, x) # ws) < card (insert j J)"
    if "l \<in> insert j J" for l
    using that assms(1,3) unfolding copies_ok_def card by (cases "l = j") fastforce+
  moreover have "length ((a, ckey j, x) # ws) \<le> card (insert j J)" using assms(3) unfolding copies_ok_def card by simp
  moreover have "\<forall>(b, k, y) \<in> set ((a, ckey j, x) # ws). \<exists>l \<in> insert j J. k = ckey l \<and> owner l b"
    using assms(1,3) unfolding copies_ok_def by auto
  ultimately show ?thesis using * ** unfolding copies_ok_def by blast
qed

text \<open>A copy is missing only if more copies are asked for than the limit allows on one peer.\<close>

lemma copies_complete:
  assumes "copies_ok ckey owner limit {1..<r} (\<lambda>b. if b = a then 1 else 0) ws" and "r \<le> limit" and "j \<in> {1..<r}"
  shows "\<exists>b x. owner j b \<and> (b, ckey j, x) \<in> set ws"
proof (rule ccontr)
  assume missing: "\<not> ?thesis"
  then have "length ws < r - 1" using assms(1,3) unfolding copies_ok_def by fastforce
  moreover obtain b where "limit \<le> (if b = a then 1 else 0) + copies_at ws b"
    using missing assms(1,3) unfolding copies_ok_def by blast
  moreover have "copies_at ws b \<le> length ws" by (simp add: copies_at_def)
  ultimately show False using assms(2) by (auto split: if_splits)
qed

text \<open>The copies of an item have different keys.\<close>

lemma copies_counted:
  assumes "r \<le> 256" and "\<forall>j \<in> {1..<r}. \<exists>x. (a, key @ [of_nat j :: byte], x) \<in> set ws"
  shows "r - 1 \<le> length ws"
proof -
  let ?copy = "\<lambda>j. key @ [of_nat j :: byte]"
  have "inj_on ?copy {1..<r}"
  proof (rule inj_onI)
    fix i j assume ij: "i \<in> {1..<r}" "j \<in> {1..<r}" "?copy i = ?copy j"
    then have "i < 256" "j < 256" using assms(1) by auto
    moreover have "unat (of_nat i :: byte) = unat (of_nat j :: byte)" using ij(3) by simp
    ultimately show "i = j" by (simp add: unat_of_nat del: word_of_nat_eq_iff)
  qed
  then have "r - 1 = card (?copy ` {1..<r})" by (simp add: card_image)
  moreover have "?copy ` {1..<r} \<subseteq> (\<lambda>w. fst (snd w)) ` set ws"
  proof (rule image_subsetI)
    fix j assume "j \<in> {1..<r}"
    then obtain x where "(a, ?copy j, x) \<in> set ws" using assms(2) by blast
    then show "?copy j \<in> (\<lambda>w. fst (snd w)) ` set ws" by (rule rev_image_eqI) simp
  qed
  then have "card (?copy ` {1..<r}) \<le> card ((\<lambda>w. fst (snd w)) ` set ws)" by (simp add: card_mono)
  moreover have "card ((\<lambda>w. fst (snd w)) ` set ws) \<le> length ws"
    using card_image_le [of "set ws" "\<lambda>w. fst (snd w)"] card_length [of ws] by simp
  ultimately show ?thesis by simp
qed

lemma counted_assign:
  assumes "stable_ring h addrs net" and "a \<in> set addrs"
    and "map_of counts' = (map_of counts)(addr_id h a \<mapsto> c)"
  shows "counted h addrs counts' = (counted h addrs counts)(a := unat c)"
  using assms(2,3) addr_id_inj [OF assms(1) _ assms(2)] by (auto simp: counted_def fun_eq_iff)

lemma replication_task_ring:
  assumes "stable_ring h addrs net" and self: "self \<in> set addrs" and len: "\<And>x. length (h x) = 32"
  shows "\<exists>ws. replication_task h stored now self limit key val t n i counts net =
      Some (fold (\<lambda>(a, k, x). store_at a k val x) ws net) \<and>
    copies_ok (\<lambda>j. stored (key @ [of_nat j])) (\<lambda>j. responsible h addrs (h (key @ [of_nat j])))
      (unat limit) {i<..i + n} (counted h addrs counts) ws"
  using assms(1)
proof (induction n arbitrary: i counts net)
  case 0
  show ?case by (rule exI [of _ "[]"]) (simp add: copies_ok_def)
next
  case (Suc n)
  let ?key = "key @ [of_nat (i + 1)]" and ?ck = "\<lambda>j. stored (key @ [of_nat j])"
    and ?own = "\<lambda>j. responsible h addrs (h (key @ [of_nat j]))"
  have J: "{i<..i + Suc n} = insert (i + 1) {i + 1<..i + 1 + n}" by auto
  obtain a where a: "Dht_getSuccessor h net self (h ?key) = Some (Some (node_of h a))" "?own (i + 1) a"
    using Dht_getSuccessor_ring [OF Suc.prems self len] by blast
  then have mem: "a \<in> set addrs" by (simp add: responsible_def)
  have set: "PeerImpl_setData h (now (i + 1)) net self (node_of h a) (stored ?key) val t =
      store_at a (stored ?key) val (now (i + 1), t) net"
    by (rule PeerImpl_setData_ring [OF Suc.prems self mem])
  have stored_copy: ?case
    if r: "replication_task h stored now self limit key val t (Suc n) i counts net =
        replication_task h stored now self limit key val t n (i + 1) counts' (store_at a (stored ?key) val (now (i + 1), t) net)"
      and c: "map_of counts' = (map_of counts)(addr_id h a \<mapsto> c)" "unat c = counted h addrs counts a + 1"
        "counted h addrs counts a < max 1 (unat limit)" for counts' c
  proof -
    obtain ws where ws: "replication_task h stored now self limit key val t n (i + 1) counts'
          (store_at a (stored ?key) val (now (i + 1), t) net) =
        Some (fold (\<lambda>(a, k, x). store_at a k val x) ws (store_at a (stored ?key) val (now (i + 1), t) net))"
      "copies_ok ?ck ?own (unat limit) {i + 1<..i + 1 + n} (counted h addrs counts') ws"
      using Suc.IH [OF stable_ring_setData [OF Suc.prems]] by blast
    have "copies_ok ?ck ?own (unat limit) {i<..i + Suc n} (counted h addrs counts)
        ((a, ?ck (i + 1), (now (i + 1), t)) # ws)"
      unfolding J by (rule copies_ok_write [where owner = ?own and ckey = ?ck and cnt = "counted h addrs counts", OF a(2) c(3)])
        (use ws(2) counted_assign [OF Suc.prems mem c(1)] c(2) in simp_all)
    with ws(1) r show ?thesis by (intro exI [of _ "(a, ?ck (i + 1), (now (i + 1), t)) # ws"]) simp
  qed
  show ?case
  proof (cases "map_of counts (addr_id h a)")
    case None
    then have "counted h addrs counts a = 0" by (simp add: counted_def)
    with None show ?thesis
      by (intro stored_copy [where counts' = "smap_insert (addr_id h a) 1 counts" and c = 1])
        (simp_all add: a(1) [simplified] set [simplified] map_of_smap_insert fun_eq_iff)
  next
    case (Some c)
    then have cnt: "counted h addrs counts a = unat c" using mem by (simp add: counted_def)
    show ?thesis
    proof (cases "c < limit")
      case True
      then have "unat (c + 1) = unat c + 1" "unat c < unat limit"
        using unat_byte_less [of limit] by (simp_all add: word_less_nat_alt unat_word_ariths)
      with True Some cnt show ?thesis
        by (intro stored_copy [where counts' = "smap_assign (addr_id h a) (c + 1) counts" and c = "c + 1"])
          (simp_all add: a(1) [simplified] set [simplified] map_of_smap_assign fun_eq_iff)
    next
      case False
      obtain ws where ws: "replication_task h stored now self limit key val t n (i + 1) counts net =
          Some (fold (\<lambda>(a, k, x). store_at a k val x) ws net)"
        "copies_ok ?ck ?own (unat limit) {i + 1<..i + 1 + n} (counted h addrs counts) ws"
        using Suc.IH [OF Suc.prems] by blast
      have "copies_ok ?ck ?own (unat limit) {i<..i + Suc n} (counted h addrs counts) ws"
        unfolding J by (rule copies_ok_skip [where owner = ?own and ckey = ?ck and cnt = "counted h addrs counts", OF a(2) _ ws(2)])
          (use False cnt in \<open>simp_all add: word_less_nat_alt\<close>)
      with ws(1) Some False show ?thesis
        by (intro exI [of _ ws]) (simp add: a(1) [simplified])
    qed
  qed
qed

lemma stable_ring_writes:
  "stable_ring h addrs net \<Longrightarrow> stable_ring h addrs (fold (\<lambda>(a, k, x). store_at a k v x) ws net)"
  by (induction ws arbitrary: net) (auto intro!: stable_ring_setData simp del: split_paired_All)

lemma data_after_writes:
  assumes "stable_ring h addrs net" and "fst ` set ws \<subseteq> set addrs"
  shows "data_at (fold (\<lambda>(a, k, x). store_at a k v x) ws net) b k' =
    (if (b, k') \<in> (\<lambda>(a, k, x). (a, k)) ` set ws then Some v else data_at net b k')"
proof (rule net_store.get_after_puts)
  fix a k x assume "(a, k, x) \<in> set ws"
  then have "a \<in> set addrs" using assms(2) by force
  then show "net a \<noteq> None" using stable_online [OF assms(1)] by blast
qed

lemma counted_first:
  "stable_ring h addrs net \<Longrightarrow> a \<in> set addrs \<Longrightarrow> counted h addrs [(addr_id h a, 1)] = (\<lambda>b. if b = a then 1 else 0)"
  using addr_id_inj [of h addrs net _ a] by (auto simp: counted_def fun_eq_iff)

text \<open>What the two put handlers have in common: a first copy, then the replication task.\<close>

lemma put_ring:
  assumes ring: "stable_ring h addrs net" and self: "self \<in> set addrs" and len: "\<And>x. length (h x) = 32"
    and a: "a \<in> set addrs"
  shows "\<exists>ws. (if 2 \<le> (r :: byte)
      then replication_task h stored now self limit key val t (unat r - 1) 0 [(addr_id h a, 1)] (store_at a kf val x net)
      else Some (store_at a kf val x net)) = Some (fold (\<lambda>(a, k, x). store_at a k val x) ((a, kf, x) # ws) net) \<and>
    copies_ok (\<lambda>j. stored (key @ [of_nat j])) (\<lambda>j. responsible h addrs (h (key @ [of_nat j])))
      (unat limit) {1..<unat r} (\<lambda>b. if b = a then 1 else 0) ws"
proof (cases "2 \<le> r")
  case True
  have "2 \<le> unat r" using True by (simp add: word_le_nat_alt)
  then have J: "{0<..0 + (unat r - 1)} = {1..<unat r}" by auto
  show ?thesis
    using replication_task_ring [OF stable_ring_setData [OF ring] self len, of stored now limit key val t "unat r - 1" 0
        "[(addr_id h a, 1)]" a kf val x] True
    unfolding counted_first [OF ring a] J by simp
next
  case False
  then have "unat r < 2" by (simp add: word_le_nat_alt)
  then have J: "{1..<unat r} = {}" by auto
  show ?thesis unfolding J using False by (intro exI [of _ "[]"]) (simp add: copies_ok_def)
qed

lemma onDhtPut_ring:
  assumes ring: "stable_ring h addrs net" and self: "self \<in> set addrs" and len: "\<And>x. length (h x) = 32"
  shows "\<exists>a ws. onDhtPut h now self m net st = Some (m_bytes m,
      fold (\<lambda>(a, k, x). store_at a k (put_value m) x) ((a, put_key m, now 0, ttl (m_headerExtend m)) # ws) net,
      setReplicationIndex (replication (m_headerExtend m)) st) \<and>
    responsible h addrs (h (put_key m)) a \<and>
    copies_ok (\<lambda>j. put_key m @ [of_nat j]) (\<lambda>j. responsible h addrs (h (put_key m @ [of_nat j])))
      (unat (getReplicationLimitOnEachNode st)) {1..<unat (replication (m_headerExtend m))} (\<lambda>b. if b = a then 1 else 0) ws"
proof -
  obtain a where a: "Dht_getSuccessor h net self (h (put_key m)) = Some (Some (node_of h a))"
    "responsible h addrs (h (put_key m)) a" using Dht_getSuccessor_ring [OF ring self len] by blast
  then have mem: "a \<in> set addrs" by (simp add: responsible_def)
  have lim: "getReplicationLimitOnEachNode (setReplicationIndex r st) = getReplicationLimitOnEachNode st" for r
    by (simp add: getReplicationLimitOnEachNode_def setReplicationIndex_def)
  show ?thesis
    using put_ring [OF ring self len mem, where r = "replication (m_headerExtend m)" and stored = id and now = now
        and limit = "getReplicationLimitOnEachNode st" and key = "put_key m" and kf = "put_key m"
        and x = "(now 0, ttl (m_headerExtend m))" and val = "put_value m" and t = "ttl (m_headerExtend m)"] a(2)
    apply (elim exE conjE)
    subgoal for ws
      by (intro exI [of _ a] exI [of _ ws])
        (simp add: onDhtPut_def Let_def a(1) PeerImpl_setData_ring [OF ring self mem] lim split: if_splits)
    done
qed

lemma onDhtPutKeyIsHashOfData_ring:
  assumes ring: "stable_ring h addrs net" and self: "self \<in> set addrs" and len: "\<And>x. length (h x) = 32"
  shows "\<exists>a ws. onDhtPutKeyIsHashOfData h now self m net st = Some (m_bytes m,
      fold (\<lambda>(a, k, x). store_at a k (hput_value m) x) ((a, h (hput_key m), now 0, ttl (h_headerExtend m)) # ws) net,
      setReplicationIndex (replication (h_headerExtend m)) st) \<and>
    responsible h addrs (h (hput_key m)) a \<and>
    copies_ok (\<lambda>j. h (hput_key m @ [of_nat j])) (\<lambda>j. responsible h addrs (h (hput_key m @ [of_nat j])))
      (unat (getReplicationLimitOnEachNode st)) {1..<unat (replication (h_headerExtend m))} (\<lambda>b. if b = a then 1 else 0) ws"
proof -
  obtain a where a: "Dht_getSuccessor h net self (h (hput_key m)) = Some (Some (node_of h a))"
    "responsible h addrs (h (hput_key m)) a" using Dht_getSuccessor_ring [OF ring self len] by blast
  then have mem: "a \<in> set addrs" by (simp add: responsible_def)
  have lim: "getReplicationLimitOnEachNode (setReplicationIndex r st) = getReplicationLimitOnEachNode st" for r
    by (simp add: getReplicationLimitOnEachNode_def setReplicationIndex_def)
  show ?thesis
    using put_ring [OF ring self len mem, where r = "replication (h_headerExtend m)" and stored = h and now = now
        and limit = "getReplicationLimitOnEachNode st" and key = "hput_key m" and kf = "h (hput_key m)"
        and x = "(now 0, ttl (h_headerExtend m))" and val = "hput_value m" and t = "ttl (h_headerExtend m)"] a(2)
    apply (elim exE conjE)
    subgoal for ws
      by (intro exI [of _ a] exI [of _ ws])
        (simp add: onDhtPutKeyIsHashOfData_def Let_def a(1) PeerImpl_setData_ring [OF ring self mem] lim split: if_splits)
    done
qed

lemma onDhtGet_ring:
  assumes ring: "stable_ring h addrs net" and self: "self \<in> set addrs" and len: "\<And>x. length (h x) = 32"
    and a: "responsible h addrs (h (key_key m)) a"
  shows "onDhtGet h self m net st =
    (case data_at net a (key_key m) of
       Some v \<Rightarrow> Some (get_response (key_key m) (Some v))
     | None \<Rightarrow> if 1 \<le> average_bound st
               then map_option (get_response (key_key m)) (get_replicas h net self (key_key m) (average_bound st) 1)
               else Some (get_response (key_key m) None))"
proof -
  obtain b where b: "Dht_getSuccessor h net self (h (key_key m)) = Some (Some (node_of h b))"
    "responsible h addrs (h (key_key m)) b" using Dht_getSuccessor_ring [OF ring self len] by blast
  have "b = a" using responsible_unique [OF ring b(2) a] .
  moreover have "a \<in> set addrs" using a by (simp add: responsible_def)
  ultimately show ?thesis
    using b(1) PeerImpl_getData_ring [OF ring self] by (auto simp: onDhtGet_def Let_def split: option.splits)
qed

lemma get_replicas_ring:
  assumes ring: "stable_ring h addrs net" and self: "self \<in> set addrs" and len: "\<And>x. length (h x) = 32"
    and a: "responsible h addrs (h (key @ [of_nat i])) a" and "0 < n"
  shows "get_replicas h net self key n i = Some (data_at net a (key @ [of_nat i]))"
proof -
  obtain b where b: "Dht_getSuccessor h net self (h (key @ [of_nat i])) = Some (Some (node_of h b))"
    "responsible h addrs (h (key @ [of_nat i])) b" using Dht_getSuccessor_ring [OF ring self len] by blast
  have "b = a" using responsible_unique [OF ring b(2) a] .
  moreover have "a \<in> set addrs" using a by (simp add: responsible_def)
  ultimately show ?thesis
    using b(1) PeerImpl_getData_ring [OF ring self] assms(5) by (cases n) (auto simp: Let_def)
qed

lemma put_writes_mem:
  assumes "copies_ok ckey (\<lambda>j. responsible h addrs (g j)) limit J cnt ws" and "a \<in> set addrs"
  shows "fst ` set ((a, y) # ws) \<subseteq> set addrs"
  using assms by (auto simp: copies_ok_def responsible_def)

lemma responsible_ex: "stable_ring h addrs net \<Longrightarrow> self \<in> set addrs \<Longrightarrow> length i = 32 \<Longrightarrow> \<exists>a. responsible h addrs i a"
  using Dht_getSuccessor_ring by blast

lemma get_hash_ring:
  assumes ring: "stable_ring h addrs net" and self: "self \<in> set addrs"
    and a: "responsible h addrs (hget_key m) a" and key: "length (hget_key m) = 32" and "length garbage = 32"
  shows "onDhtGetKeyIsHashOfData h garbage self m net st =
    (case data_at net a (hget_key m) of
       None \<Rightarrow> Some (Inl (Undefined_Behaviour ''dereference of an empty optional''))
     | Some v \<Rightarrow>
         if h v \<noteq> hget_key m
         then map_option (map_sum id (get_response (hget_key m)))
                (get_hash_replicas h net self (hget_key m) (hget_key m) (average_bound st) 1 (Some v))
         else Some (Inr (get_response (hget_key m) (Some v))))"
proof -
  have fin: "overwrite garbage 0 (hget_key m) = hget_key m" using key assms(5) by (simp add: overwrite_def)
  obtain b where b: "Dht_getSuccessor h net self (hget_key m) = Some (Some (node_of h b))"
    "responsible h addrs (hget_key m) b" using Dht_getSuccessor_ring [OF ring self key] by blast
  have "b = a" using responsible_unique [OF ring b(2) a] .
  moreover have "a \<in> set addrs" using a by (simp add: responsible_def)
  ultimately show ?thesis
    using b(1) PeerImpl_getData_ring [OF ring self] key
    by (simp add: onDhtGetKeyIsHashOfData_def Let_def fin)
qed

section \<open>Sample requests\<close>

lemma sample_len: "length (sample_hash x) = 32"
  by (simp add: sample_hash_def)

lemma sample_empty: "a \<in> set sample_addrs \<Longrightarrow> data_at sample_net a k = None"
  by (auto simp: sample_addrs_def sample_net_def data_at_def sample_peer_def NodeInformation_init_def getData_eq)

lemma sample_corrupt:
  assumes "a \<in> set sample_addrs"
  shows "stable_ring sample_hash sample_addrs (store_at a k v x sample_net)"
    "data_at (store_at a k v x sample_net) b k' = (if b = a \<and> k' = k then Some v else data_at sample_net b k')"
proof -
  show "stable_ring sample_hash sample_addrs (store_at a k v x sample_net)"
    by (rule stable_ring_setData [OF sample_stable])
  show "data_at (store_at a k v x sample_net) b k' = (if b = a \<and> k' = k then Some v else data_at sample_net b k')"
    by (rule net_store.get_put) (use stable_online [OF sample_stable assms] in blast)
qed

lemma put_then_get_ring:
  assumes "stable_ring h addrs net" and "b \<in> set addrs" and "c \<in> set addrs" and "\<And>x. length (h x) = 32"
    and "key_key g = put_key m"
  shows "\<exists>net' st'. onDhtPut h now b m net st = Some (m_bytes m, net', st') \<and> stable_ring h addrs net' \<and>
    onDhtGet h c g net' st2 = Some (m_bytes (Message_DHT_SUCCESS_make (put_key m) (put_value m)))"
proof -
  obtain a ws where put: "onDhtPut h now b m net st = Some (m_bytes m,
      fold (\<lambda>(a, k, x). store_at a k (put_value m) x) ((a, put_key m, now 0, ttl (m_headerExtend m)) # ws) net,
      setReplicationIndex (replication (m_headerExtend m)) st)"
    and a: "responsible h addrs (h (put_key m)) a"
    and ws: "copies_ok (\<lambda>j. put_key m @ [of_nat j]) (\<lambda>j. responsible h addrs (h (put_key m @ [of_nat j])))
      (unat (getReplicationLimitOnEachNode st)) {1..<unat (replication (m_headerExtend m))} (\<lambda>b. if b = a then 1 else 0) ws"
    using onDhtPut_ring [OF assms(1,2,4)] by blast
  let ?ws = "(a, put_key m, now 0, ttl (m_headerExtend m)) # ws"
  let ?net = "fold (\<lambda>(a, k, x). store_at a k (put_value m) x) ?ws net"
  have mem: "a \<in> set addrs" using a by (simp add: responsible_def)
  have ring: "stable_ring h addrs ?net" by (rule stable_ring_writes [OF assms(1)])
  have "data_at ?net a (put_key m) = Some (put_value m)"
    using data_after_writes [OF assms(1) put_writes_mem [OF ws mem, of "(put_key m, now 0, ttl (m_headerExtend m))"],
        of "put_value m" a "put_key m"] by simp
  then have "onDhtGet h c g ?net st2 = Some (get_response (put_key m) (Some (put_value m)))"
    using onDhtGet_ring [OF ring assms(3,4), of g a st2] a assms(5) by simp
  with put ring show ?thesis by (auto simp: get_response_def)
qed

section \<open>Properties\<close>

text \<open>
  C2: A value that a client puts into the ring at one peer is what a client gets at any peer: on a
  stable ring the put returns and leaves the ring stable, and a get of the key at every peer of the
  ring answers \<open>DHT_SUCCESS\<close> with the key and the value, whatever the time to live, the number of
  replicas and the replication statistics of the asked process are.
\<close>

theorem put_then_get:
  assumes "stable_ring h addrs net" and "b \<in> set addrs" and "c \<in> set addrs" and "\<And>x. length (h x) = 32"
    and "key_key g = put_key m"
  shows "\<exists>net' st'. onDhtPut h now b m net st = Some (m_bytes m, net', st') \<and> stable_ring h addrs net' \<and>
    onDhtGet h c g net' st2 = Some (m_bytes (Message_DHT_SUCCESS_make (put_key m) (put_value m)))"
  by (rule put_then_get_ring [OF assms])

theorem put_then_get_witness:
  "\<exists>net' st'. onDhtPut sample_hash (\<lambda>_. 0) (''a'', 1) sample_put sample_net statics_init = Some ([], net', st') \<and>
     onDhtGet sample_hash (''bb'', 1) sample_get net' statics_init =
       Some (m_bytes (Message_DHT_SUCCESS_make (replicate 32 5) [7]))"
proof -
  have "key_key sample_get = put_key sample_put" by (simp add: sample_get_def sample_put_def)
  from put_then_get [OF sample_stable sample_member sample_len this, of "\<lambda>_. 0" statics_init statics_init]
  show ?thesis by (auto simp: sample_put_def)
qed

text \<open>
  C17: Where a put stores its copies on a stable ring. The item goes to the peer responsible for the
  hash of its key; copy \<open>j\<close> of a replicated item, for \<open>j\<close> from 1 to the replication index minus one,
  goes under the key with \<open>j\<close> appended to the peer responsible for the hash of that, and nothing else is written. A copy
  is left out only when its peer has received at least as many copies as the replication limit, and none is left out when
  the replication index is not above the limit.
\<close>

theorem put_places_copies:
  assumes "stable_ring h addrs net" and "self \<in> set addrs" and "\<And>x. length (h x) = 32"
    and "limit = unat (getReplicationLimitOnEachNode st)" and "r = unat (replication (m_headerExtend m))"
  shows "\<exists>a ws. onDhtPut h now self m net st = Some (m_bytes m,
      fold (\<lambda>(b, k, x). store_at b k (put_value m) x) ((a, put_key m, now 0, ttl (m_headerExtend m)) # ws) net,
      setReplicationIndex (replication (m_headerExtend m)) st) \<and>
    responsible h addrs (h (put_key m)) a \<and> length ws \<le> r - 1 \<and>
    (\<forall>(b, k, x) \<in> set ws. \<exists>j \<in> {1..<r}. k = put_key m @ [of_nat j] \<and> responsible h addrs (h k) b) \<and>
    (\<forall>j \<in> {1..<r}. \<exists>b. responsible h addrs (h (put_key m @ [of_nat j])) b \<and>
      ((\<exists>x. (b, put_key m @ [of_nat j], x) \<in> set ws) \<or> r > limit \<and> limit \<le> (if b = a then 1 else 0) + copies_at ws b))"
proof -
  obtain a ws where put: "onDhtPut h now self m net st = Some (m_bytes m,
      fold (\<lambda>(b, k, x). store_at b k (put_value m) x) ((a, put_key m, now 0, ttl (m_headerExtend m)) # ws) net,
      setReplicationIndex (replication (m_headerExtend m)) st)" "responsible h addrs (h (put_key m)) a"
    and ws: "copies_ok (\<lambda>j. put_key m @ [of_nat j]) (\<lambda>j. responsible h addrs (h (put_key m @ [of_nat j])))
      limit {1..<r} (\<lambda>b. if b = a then 1 else 0) ws"
    using onDhtPut_ring [OF assms(1-3), of now m st] unfolding assms(4,5) by blast
  have "\<forall>(b, k, x) \<in> set ws. \<exists>j \<in> {1..<r}. k = put_key m @ [of_nat j] \<and> responsible h addrs (h k) b" "length ws \<le> r - 1"
    using ws unfolding copies_ok_def by auto
  moreover have "\<exists>b. responsible h addrs (h (put_key m @ [of_nat j])) b \<and>
      ((\<exists>x. (b, put_key m @ [of_nat j], x) \<in> set ws) \<or> r > limit \<and> limit \<le> (if b = a then 1 else 0) + copies_at ws b)"
    if "j \<in> {1..<r}" for j
    using copies_complete [OF ws _ that] ws that unfolding copies_ok_def by (cases "r \<le> limit") (blast, fastforce)
  ultimately show ?thesis using put by (intro exI [of _ a] exI [of _ ws] conjI) simp_all
qed

theorem put_places_copies_witness:
  "\<exists>a ws. onDhtPut sample_hash (\<lambda>_. 0) (''a'', 1) sample_put sample_net statics_init = Some (m_bytes sample_put,
      fold (\<lambda>(b, k, x). store_at b k (put_value sample_put) x)
        ((a, put_key sample_put, 0, ttl (m_headerExtend sample_put)) # ws) sample_net,
      setReplicationIndex (replication (m_headerExtend sample_put)) statics_init) \<and>
     (\<forall>j \<in> {1..<3}. \<exists>b x. (b, put_key sample_put @ [of_nat j], x) \<in> set ws)"
proof -
  have l: "5 = unat (getReplicationLimitOnEachNode statics_init)" "3 = unat (replication (m_headerExtend sample_put))"
    by (simp_all add: statics_init_def getReplicationLimitOnEachNode_def DEFAULT_REPLICATION_LIMIT_def sample_put_def)
  have "\<not> 3 > (5 :: nat)" by simp
  with put_places_copies [OF sample_stable sample_member(1) sample_len l, of "\<lambda>_. 0"]
  show ?thesis by (elim exE conjE) (intro exI conjI, assumption, blast)
qed

text \<open>
  How many copies the replication limit permits. A peer that is alone in its ring stores, of an item put with
  replication index \<open>r\<close>, as many copies as the smaller of \<open>r\<close> and the limit, the first one included. A comment in
  \<open>NodeInformation.h\<close> says twice the limit, and one in \<open>Dht.cpp\<close> one more than the limit.
\<close>

theorem replication_limit_is_strict:
  assumes "stable_ring h [a] net" and "\<And>x. length (h x) = 32" and "limit = unat (getReplicationLimitOnEachNode st)" and "0 < limit"
    and "r = unat (replication (m_headerExtend m))" and "0 < r"
  shows "\<exists>ws. onDhtPut h now a m net st = Some (m_bytes m, fold (\<lambda>(b, k, x). store_at b k (put_value m) x) ws net,
      setReplicationIndex (replication (m_headerExtend m)) st) \<and> copies_at ws a = min r limit"
proof -
  have mem: "a \<in> set [a]" by simp
  obtain ws where put: "onDhtPut h now a m net st = Some (m_bytes m,
      fold (\<lambda>(b, k, x). store_at b k (put_value m) x) ((a, put_key m, now 0, ttl (m_headerExtend m)) # ws) net,
      setReplicationIndex (replication (m_headerExtend m)) st)"
    and ws: "copies_ok (\<lambda>j. put_key m @ [of_nat j]) (\<lambda>j. responsible h [a] (h (put_key m @ [of_nat j])))
      limit {1..<r} (\<lambda>b. if b = a then 1 else 0) ws"
    using onDhtPut_ring [OF assms(1) mem assms(2), of now m st] unfolding assms(3,5) by (auto simp: responsible_def)
  have here: "b = a" if "responsible h [a] i b" for i b using that by (simp add: responsible_def)
  have fst: "fst w = a" if "w \<in> set ws" for w using ws that here unfolding copies_ok_def by (cases w) fastforce
  then have copies: "copies_at ws a = length ws" by (simp add: copies_at_def)
  have "\<forall>b. (if b = a then 1 else 0) + copies_at ws b \<le> max (if b = a then 1 else 0) (max 1 limit)" "length ws \<le> card {1..<r}"
    using ws unfolding copies_ok_def by blast+
  from spec [OF this(1), of a] this(2) have le: "length ws \<le> r - 1" "1 + length ws \<le> limit"
    using assms(4) copies by simp_all
  have ge: "limit \<le> 1 + length ws \<or> r - 1 \<le> length ws"
  proof (cases "\<forall>j \<in> {1..<r}. \<exists>x. (a, put_key m @ [of_nat j], x) \<in> set ws")
    case True
    have "r \<le> 256" unfolding assms(5) using unat_byte_less by (rule less_imp_le)
    from copies_counted [OF this True] show ?thesis by simp
  next
    case False
    then obtain j where j: "j \<in> {1..<r}" "\<nexists>x. (a, put_key m @ [of_nat j], x) \<in> set ws" by blast
    then obtain b where b: "responsible h [a] (h (put_key m @ [of_nat j])) b"
      "(\<exists>x. (b, put_key m @ [of_nat j], x) \<in> set ws) \<or> limit \<le> (if b = a then 1 else 0) + copies_at ws b"
      using ws unfolding copies_ok_def by blast
    have "b = a" using here [OF b(1)] .
    with b(2) j(2) copies show ?thesis by auto
  qed
  show ?thesis using put copies le ge assms(4,6)
    by (intro exI [of _ "(a, put_key m, now 0, ttl (m_headerExtend m)) # ws"]) auto
qed

text \<open>
  What a get answers on a stable ring: the value stored under the key at the responsible peer; if
  there is none and the average replication index is at least one, the first replica; otherwise
  \<open>DHT_FAILURE\<close>. The second and later replicas are never asked, since every identifier has a
  responsible peer and the loop ends at the first one it finds.
\<close>

theorem get_answer:
  assumes "stable_ring h addrs net" and "self \<in> set addrs" and "\<And>x. length (h x) = 32"
    and "responsible h addrs (h (key_key m)) a" and "responsible h addrs (h (key_key m @ [1])) a1"
  shows "onDhtGet h self m net st = Some (case data_at net a (key_key m) of
      Some v \<Rightarrow> m_bytes (Message_DHT_SUCCESS_make (key_key m) v)
    | None \<Rightarrow>
        (case if 1 \<le> average_bound st then data_at net a1 (key_key m @ [1]) else None of
           Some v \<Rightarrow> m_bytes (Message_DHT_SUCCESS_make (key_key m) v)
         | None \<Rightarrow> m_bytes (Message_KEY_make DHT_FAILURE (key_key m))))"
  using onDhtGet_ring [OF assms(1-4), of st] get_replicas_ring [OF assms(1-3), of "key_key m" 1 a1 "average_bound st"] assms(5)
  by (auto simp: get_response_def split: option.splits)

theorem get_answer_witness:
  "\<exists>v. onDhtGet sample_hash (''a'', 1) sample_get sample_net statics_init = Some v"
proof -
  obtain a a1 where "responsible sample_hash sample_addrs (sample_hash (key_key sample_get)) a"
    "responsible sample_hash sample_addrs (sample_hash (key_key sample_get @ [1])) a1"
    using responsible_ex [OF sample_stable sample_member(1) sample_len] by metis
  from get_answer [OF sample_stable sample_member(1) sample_len this] show ?thesis by blast
qed

text \<open>
  C20: A value that is put under its own hash can be fetched by that hash at every peer: on a stable
  ring the put returns and leaves the ring stable, and a get with the hash answers \<open>DHT_SUCCESS\<close> with
  the hash and the value.
\<close>

theorem put_then_get_by_hash:
  assumes "stable_ring h addrs net" and "b \<in> set addrs" and "c \<in> set addrs" and "\<And>x. length (h x) = 32"
    and "hput_key m = hput_value m" and "hget_key g = h (hput_value m)" and "length garbage = 32"
  shows "\<exists>net' st'. onDhtPutKeyIsHashOfData h now b m net st = Some (m_bytes m, net', st') \<and>
    stable_ring h addrs net' \<and>
    onDhtGetKeyIsHashOfData h garbage c g net' st2 =
      Some (Inr (m_bytes (Message_DHT_SUCCESS_make (h (hput_value m)) (hput_value m))))"
proof -
  let ?k = "h (hput_value m)"
  obtain a ws where put: "onDhtPutKeyIsHashOfData h now b m net st = Some (m_bytes m,
      fold (\<lambda>(a, k, x). store_at a k (hput_value m) x) ((a, ?k, now 0, ttl (h_headerExtend m)) # ws) net,
      setReplicationIndex (replication (h_headerExtend m)) st)"
    and a: "responsible h addrs ?k a"
    and ws: "copies_ok (\<lambda>j. h (hput_key m @ [of_nat j])) (\<lambda>j. responsible h addrs (h (hput_key m @ [of_nat j])))
      (unat (getReplicationLimitOnEachNode st)) {1..<unat (replication (h_headerExtend m))} (\<lambda>b. if b = a then 1 else 0) ws"
    using onDhtPutKeyIsHashOfData_ring [OF assms(1,2,4), of now m st] unfolding assms(5) by blast
  let ?net = "fold (\<lambda>(a, k, x). store_at a k (hput_value m) x) ((a, ?k, now 0, ttl (h_headerExtend m)) # ws) net"
  have mem: "a \<in> set addrs" using a by (simp add: responsible_def)
  have ring: "stable_ring h addrs ?net" by (rule stable_ring_writes [OF assms(1)])
  have "data_at ?net a ?k = Some (hput_value m)"
    using data_after_writes [OF assms(1) put_writes_mem [OF ws mem, of "(?k, now 0, ttl (h_headerExtend m))"],
        of "hput_value m" a ?k] by simp
  then have "onDhtGetKeyIsHashOfData h garbage c g ?net st2 = Some (Inr (get_response ?k (Some (hput_value m))))"
    using get_hash_ring [OF ring assms(3), of g a garbage st2] a assms(4,6,7) by simp
  with put ring show ?thesis by (auto simp: get_response_def)
qed

theorem put_then_get_by_hash_witness:
  "\<exists>net' st'. onDhtPutKeyIsHashOfData sample_hash (\<lambda>_. 0) (''a'', 1) sample_hash_put sample_net statics_init =
       Some ([], net', st') \<and>
     onDhtGetKeyIsHashOfData sample_hash (replicate 32 0) (''bb'', 1) (sample_hash_get (sample_hash [7])) net' statics_init =
       Some (Inr (m_bytes (Message_DHT_SUCCESS_make (sample_hash [7]) [7])))"
proof -
  have "hput_key sample_hash_put = hput_value sample_hash_put"
    "hget_key (sample_hash_get (sample_hash [7])) = sample_hash (hput_value sample_hash_put)" "length (replicate 32 0 :: bytes) = 32"
    by (simp_all add: sample_hash_put_def sample_hash_get_def)
  from put_then_get_by_hash [OF sample_stable sample_member sample_len this, of "\<lambda>_. 0" statics_init statics_init]
  show ?thesis by (auto simp: sample_hash_put_def)
qed

text \<open>
  C36: A get by hash does not fail cleanly: on a stable ring, a key that is not stored at its peer, or
  one longer than 32 bytes, makes the handler execute undefined behaviour instead of answering
  \<open>DHT_FAILURE\<close>.
\<close>

theorem get_by_hash_crashes:
  assumes "stable_ring h addrs net" and "self \<in> set addrs" and "length garbage = 32"
    and "32 < length (hget_key m) \<or> length (hget_key m) = 32 \<and> (\<forall>a \<in> set addrs. data_at net a (hget_key m) = None)"
  shows "\<exists>e. onDhtGetKeyIsHashOfData h garbage self m net st = Some (Inl (Undefined_Behaviour e))"
proof (cases "32 < length (hget_key m)")
  case False
  then have key: "length (hget_key m) = 32" "\<forall>a \<in> set addrs. data_at net a (hget_key m) = None" using assms(4) by auto
  obtain a where a: "responsible h addrs (hget_key m) a" using responsible_ex [OF assms(1,2) key(1)] by blast
  then have "data_at net a (hget_key m) = None" using key(2) by (simp add: responsible_def)
  then show ?thesis using get_hash_ring [OF assms(1,2) a key(1) assms(3)] by simp
qed (simp add: onDhtGetKeyIsHashOfData_def)

theorem get_by_hash_crashes_witness:
  "\<exists>e. onDhtGetKeyIsHashOfData sample_hash (replicate 32 0) (''a'', 1) (sample_hash_get (replicate 32 1)) sample_net statics_init =
     Some (Inl (Undefined_Behaviour e))"
  by (rule get_by_hash_crashes [OF sample_stable sample_member(1)])
    (simp_all add: sample_hash_get_def sample_empty)

text \<open>
  A get by hash does not protect the integrity of the value: on a stable ring, when the
  responsible peer holds a value whose hash is not the key and the average replication index is zero,
  the handler still answers \<open>DHT_SUCCESS\<close> with that value.
\<close>

theorem get_by_hash_no_integrity:
  assumes "stable_ring h addrs net" and "self \<in> set addrs" and "length garbage = 32" and "length (hget_key m) = 32"
    and "responsible h addrs (hget_key m) a" and "data_at net a (hget_key m) = Some v" and "h v \<noteq> hget_key m"
    and "average_bound st = 0"
  shows "onDhtGetKeyIsHashOfData h garbage self m net st =
    Some (Inr (m_bytes (Message_DHT_SUCCESS_make (hget_key m) v)))"
  using get_hash_ring [OF assms(1,2,5,4,3)] assms(6-8) by (simp add: get_response_def)

theorem get_by_hash_no_integrity_witness:
  "\<exists>a. onDhtGetKeyIsHashOfData sample_hash (replicate 32 0) (''a'', 1) (sample_hash_get (replicate 32 1))
     (store_at a (replicate 32 1) [9] (0, 60) sample_net) statics_init =
   Some (Inr (m_bytes (Message_DHT_SUCCESS_make (replicate 32 1) [9])))"
proof -
  let ?k = "replicate 32 1 :: bytes"
  obtain a where a: "responsible sample_hash sample_addrs ?k a"
    using responsible_ex [OF sample_stable sample_member(1), of ?k] by auto
  then have mem: "a \<in> set sample_addrs" by (simp add: responsible_def)
  have "hget_key (sample_hash_get ?k) = ?k" "average_bound statics_init = 0"
    by (simp_all add: sample_hash_get_def average_bound_def getAverageReplicationIndex_def statics_init_def)
  moreover have "sample_hash [9] \<noteq> ?k" by (simp add: sample_hash_def numeral_eq_Suc)
  ultimately show ?thesis
    using get_by_hash_no_integrity [OF sample_corrupt(1) [OF mem] sample_member(1), where garbage = "replicate 32 0"
        and m = "sample_hash_get ?k" and a = a and v = "[9]" and st = statics_init] a
    by (intro exI [of _ a]) (simp add: sample_corrupt(2) [OF mem])
qed

text \<open>
  The replicas of an item that is put under its hash are never found: they are stored under
  hashes (keys of 32 bytes, and puts by hash keep it so), but looked up under the key with a counter
  appended (33 bytes). On such a stable ring, when the responsible peer's value does not match the key
  and the average replication index is at least one, the get ends in undefined behaviour at the
  first replica.
\<close>

theorem hash_replicas_unreachable:
  assumes "stable_ring h addrs net" and "self \<in> set addrs" and "\<And>x. length (h x) = 32" and "hash_keys_only addrs net"
  shows "(\<forall>now p st. \<exists>net' st'. onDhtPutKeyIsHashOfData h now self p net st = Some (m_bytes p, net', st') \<and>
      hash_keys_only addrs net') \<and>
    (length garbage = 32 \<and> length (hget_key m) = 32 \<and> responsible h addrs (hget_key m) a \<and>
     data_at net a (hget_key m) = Some v \<and> h v \<noteq> hget_key m \<and> 1 \<le> average_bound st \<longrightarrow>
     (\<exists>e. onDhtGetKeyIsHashOfData h garbage self m net st = Some (Inl (Undefined_Behaviour e))))"
proof (intro conjI allI impI)
  fix now p st0
  obtain a ws where put: "onDhtPutKeyIsHashOfData h now self p net st0 = Some (m_bytes p,
      fold (\<lambda>(a, k, x). store_at a k (hput_value p) x) ((a, h (hput_key p), now 0, ttl (h_headerExtend p)) # ws) net,
      setReplicationIndex (replication (h_headerExtend p)) st0)"
    and a: "responsible h addrs (h (hput_key p)) a"
    and ws: "copies_ok (\<lambda>j. h (hput_key p @ [of_nat j])) (\<lambda>j. responsible h addrs (h (hput_key p @ [of_nat j])))
      (unat (getReplicationLimitOnEachNode st0)) {1..<unat (replication (h_headerExtend p))} (\<lambda>b. if b = a then 1 else 0) ws"
    using onDhtPutKeyIsHashOfData_ring [OF assms(1-3), of now p st0] by blast
  let ?ws = "(a, h (hput_key p), now 0, ttl (h_headerExtend p)) # ws"
  have "a \<in> set addrs" using a by (simp add: responsible_def)
  note d = data_after_writes [OF assms(1) put_writes_mem [OF ws this], where v = "hput_value p"]
  have "length k = 32" if "(b, k) \<in> (\<lambda>(a, k, x). (a, k)) ` set ?ws" for b k
    using that ws assms(3) by (fastforce simp: copies_ok_def)
  then have "hash_keys_only addrs (fold (\<lambda>(a, k, x). store_at a k (hput_value p) x) ?ws net)"
    using assms(4) unfolding hash_keys_only_def d by (metis (no_types, lifting))
  with put show "\<exists>net' st'. onDhtPutKeyIsHashOfData h now self p net st0 = Some (m_bytes p, net', st') \<and>
      hash_keys_only addrs net'" by blast
next
  assume A: "length garbage = 32 \<and> length (hget_key m) = 32 \<and> responsible h addrs (hget_key m) a \<and>
     data_at net a (hget_key m) = Some v \<and> h v \<noteq> hget_key m \<and> 1 \<le> average_bound st"
  let ?k = "hget_key m @ [of_nat 1]"
  obtain b where b: "Dht_getSuccessor h net self (h ?k) = Some (Some (node_of h b))" "responsible h addrs (h ?k) b"
    using Dht_getSuccessor_ring [OF assms(1,2,3)] by blast
  then have mem: "b \<in> set addrs" by (simp add: responsible_def)
  have "data_at net b ?k = None" using assms(4) mem A unfolding hash_keys_only_def by fastforce
  then have "PeerImpl_getData h net self (node_of h b) ?k = None"
    using PeerImpl_getData_ring [OF assms(1,2) mem] by simp
  moreover obtain n where "average_bound st = Suc n" using A by (cases "average_bound st") auto
  ultimately have "get_hash_replicas h net self (hget_key m) (hget_key m) (average_bound st) 1 (Some v) =
      Some (Inl (Undefined_Behaviour ''dereference of an empty optional''))"
    using b(1) by (simp add: Let_def)
  then show "\<exists>e. onDhtGetKeyIsHashOfData h garbage self m net st = Some (Inl (Undefined_Behaviour e))"
    using get_hash_ring [OF assms(1,2), of m a garbage st] A by simp
qed

theorem hash_replicas_unreachable_witness:
  "\<exists>net' st'. onDhtPutKeyIsHashOfData sample_hash (\<lambda>_. 0) (''a'', 1) sample_hash_put sample_net statics_init =
     Some (m_bytes sample_hash_put, net', st') \<and> hash_keys_only sample_addrs net'"
proof -
  have "hash_keys_only sample_addrs sample_net" by (simp add: hash_keys_only_def sample_empty)
  from hash_replicas_unreachable [OF sample_stable sample_member(1) sample_len this] show ?thesis by blast
qed

end
