(* ===== verification/Maintenance.thy ===== *)
theory Maintenance
  imports Dht
begin

text \<open>
  \<open>src/src/dht/Dht\<close>, the maintenance of the ring: creating and joining a ring (with the proof of
  work), stabilisation, fixing fingers, checking the predecessor, and the rounds of the main loop that
  runs them. SHA-1 is the parameter \<open>sha1\<close>; the static settings of the bootstrap node's process are
  the parameter \<open>bst\<close>.
\<close>

section \<open>Definitions\<close>

subsection \<open>Creating a ring\<close>

definition create :: "addr \<Rightarrow> network \<Rightarrow> network" where
  "create self net =
     update_peer self (\<lambda>ni. let ni' = setPredecessor None ni in setSuccessor (Some (getNode ni')) ni') net"

subsection \<open>Joining a ring\<close>

text \<open>
  What the program relies on of the remote call library: \<open>kj_throws\<close>, a failed assertion throws;
  \<open>kj_nested_wait\<close>, a promise may be waited for inside a callback of the event loop.
\<close>

record kj_library =
  kj_throws :: bool
  kj_nested_wait :: bool

text \<open>
  The search for an answer to the puzzle counts in an \<open>int\<close>; incrementing its largest value is
  undefined. The answer and the bits of its hash are returned.
\<close>

function pow_solve :: "(bytes \<Rightarrow> bytes) \<Rightarrow> string \<Rightarrow> nat \<Rightarrow> nat \<Rightarrow> (string \<times> string) result" where
  "pow_solve sha1 puzzle difficulty i =
     (let possiblePuzzleResponse = puzzle @ to_string_nat i;
          bits = pow_bits sha1 possiblePuzzleResponse
      in if take difficulty bits = replicate difficulty (CHR ''0'') then Inr (possiblePuzzleResponse, bits)
         else if 2 ^ 31 - 1 \<le> i then Inl (Undefined_Behaviour ''signed overflow'')
         else pow_solve sha1 puzzle difficulty (i + 1))"
  by pat_completeness auto
termination
  by (relation "measure (\<lambda>(sha1, puzzle, difficulty, i). 2 ^ 31 - i)") auto

declare pow_solve.simps [simp del]

text \<open>
  The helper waits for its answer, and \<open>join\<close> calls it from a callback of the promise that it waits for
  itself. \<open>wait_ok\<close>: the wait is allowed there. If not, it throws before anything is sent.
\<close>

definition getDataItemsOnJoinHelper ::
    "(bytes \<Rightarrow> bytes) \<Rightarrow> bool \<Rightarrow> addr \<Rightarrow> Node option \<Rightarrow> network \<Rightarrow> network result" where
  "getDataItemsOnJoinHelper h wait_ok self successorNode net =
     (case successorNode of
        None \<Rightarrow> Inl (Undefined_Behaviour ''dereference of an empty optional'')
      | Some s \<Rightarrow>
          (case net self of
             None \<Rightarrow> Inr net
           | Some ni \<Rightarrow>
               if \<not> wait_ok then Inl (Rpc_Exception ''wait() is not allowed from within event callbacks.'')
               else
               (case net (m_ip s, m_port s) of
                  None \<Rightarrow> Inr net
                | Some sn \<Rightarrow>
                    (case server_getDataItemsOnJoin h (buildNode h (getNode ni)) sn of
                       Inl e \<Rightarrow> Inl e
                     | Inr (sn', items) \<Rightarrow>
                         (let net' = net((m_ip s, m_port s) \<mapsto> sn')
                          in case net' self of
                               None \<Rightarrow> Inr net'
                             | Some ni' \<Rightarrow>
                                 (case storeDataItems items ni' of
                                    Inl e \<Rightarrow> Inl e
                                  | Inr ni'' \<Rightarrow> Inr (net'(self \<mapsto> ni''))))))))"

text \<open>
  A join returns the network it leaves, and whether it ended with an exception: the predecessor and the
  successor of the peer may have been set before that.
\<close>

definition Dht_join ::
    "(bytes \<Rightarrow> bytes) \<Rightarrow> (bytes \<Rightarrow> bytes) \<Rightarrow> kj_library \<Rightarrow> NodeStatics \<Rightarrow> addr \<Rightarrow> Node \<Rightarrow> network \<Rightarrow>
     (network \<times> unit result) option" where
  "Dht_join h sha1 kj bst self node net =
     (case net self of
        None \<Rightarrow> Some (net, Inr ())
      | Some ni \<Rightarrow>
          (let net1 = net(self \<mapsto> setPredecessor None ni);
               newNode = buildNode h (getNode ni)
           in case net1 (m_ip node, m_port node) of
                None \<Rightarrow> Some (net1, Inr ())
              | Some bn \<Rightarrow>
                  (let (puzzle, difficulty) = server_getPoWPuzzleOnJoin h bst newNode
                   in case pow_solve sha1 puzzle (unat difficulty) 0 of
                        Inl e \<Rightarrow> Some (net1, Inl e)
                      | Inr (resp, bits) \<Rightarrow>
                          if bits = [] then Some (net1, Inr ())
                          else (case server_sendPoWPuzzleResponse h sha1 (kj_throws kj) LOCAL (net_env h LOCAL net1 0)
                                       bn bst newNode resp bits of
                                  None \<Rightarrow> None
                                | Some (Inl e) \<Rightarrow> Some (net1, Inr ())
                                | Some (Inr None) \<Rightarrow> Some (update_peer self (setSuccessor None) net1, Inr ())
                                | Some (Inr (Some res)) \<Rightarrow>
                                    (let net2 = update_peer self (setSuccessor (nodeFromReader_opt h res)) net1
                                     in case getDataItemsOnJoinHelper h (kj_nested_wait kj) self
                                               (Option.bind (net2 self) getSuccessor) net2 of
                                          Inl e \<Rightarrow> Some (net2, Inl e)
                                        | Inr net3 \<Rightarrow> Some (net3, Inr ()))))))"

subsection \<open>Stabilisation\<close>

definition send_notify :: "(bytes \<Rightarrow> bytes) \<Rightarrow> Node \<Rightarrow> Node \<Rightarrow> network \<Rightarrow> network" where
  "send_notify h target node net =
     update_peer (m_ip target, m_port target) (server_notify h (buildNode h node)) net"

definition stabilize :: "(bytes \<Rightarrow> bytes) \<Rightarrow> addr \<Rightarrow> network \<Rightarrow> network" where
  "stabilize h self net =
     (case net self of
        None \<Rightarrow> net
      | Some ni \<Rightarrow>
          (case getSuccessor ni of
             None \<Rightarrow> net
           | Some s \<Rightarrow>
               (let predOfSuccessor =
                      (case rpc_getPredecessor (net_env h LOCAL net 0) (m_ip s) (m_port s) of
                         Inr res \<Rightarrow> nodeFromReader_opt h res | Inl e \<Rightarrow> None)
                in case predOfSuccessor of
                     None \<Rightarrow> send_notify h s (getNode ni) net
                   | Some p \<Rightarrow>
                       if getId h p = NI_getId h ni then net
                       else if is_in_range_loop (getId h p) (NI_getId h ni) (getId h s) False False
                       then send_notify h p (getNode ni) (net(self \<mapsto> setSuccessor (Some p) ni))
                       else send_notify h s (getNode ni) net)))"

definition fixFingers :: "(bytes \<Rightarrow> bytes) \<Rightarrow> addr \<Rightarrow> nat \<Rightarrow> network \<Rightarrow> (network \<times> nat) result option" where
  "fixFingers h self nextFinger net =
     (case net self of
        None \<Rightarrow> Some (Inr (net, nextFinger))
      | Some ni \<Rightarrow>
          (case Dht_getSuccessor h net self (array_add (NI_getId h ni) (pow2 32 nextFinger)) of
             None \<Rightarrow> None
           | Some s \<Rightarrow>
               Some (case setFinger nextFinger s ni of
                       Inl e \<Rightarrow> Inl e
                     | Inr ni' \<Rightarrow> Inr (net(self \<mapsto> ni'), (nextFinger + 1) mod key_bits))))"

definition checkPredecessor :: "(bytes \<Rightarrow> bytes) \<Rightarrow> addr \<Rightarrow> network \<Rightarrow> network" where
  "checkPredecessor h self net =
     (case net self of
        None \<Rightarrow> net
      | Some ni \<Rightarrow>
          (case getPredecessor ni of
             None \<Rightarrow> net
           | Some p \<Rightarrow>
               (case rpc_getPredecessor (net_env h LOCAL net 0) (m_ip p) (m_port p) of
                  Inr res \<Rightarrow> net
                | Inl e \<Rightarrow> net(self \<mapsto> setPredecessor None ni))))"

subsection \<open>The main loop\<close>

text \<open>
  One round of the main loop. \<open>m_dhtCancelled\<close> is read five times, \<open>cancelled j\<close> at the \<open>j\<close>-th; the
  flag of the result tells whether the loop was left.
\<close>

definition enter_ring ::
    "(bytes \<Rightarrow> bytes) \<Rightarrow> (bytes \<Rightarrow> bytes) \<Rightarrow> kj_library \<Rightarrow> NodeStatics \<Rightarrow> addr \<Rightarrow> network \<Rightarrow>
     (network \<times> unit result) option" where
  "enter_ring h sha1 kj bst self net =
     (case net self of
        None \<Rightarrow> Some (net, Inr ())
      | Some ni \<Rightarrow>
          (case getSuccessor ni of
             Some s \<Rightarrow> Some (net, Inr ())
           | None \<Rightarrow>
               (case getBootstrapNode ni of
                  Some b \<Rightarrow> if \<not> node_eq h b (getNode ni) then Dht_join h sha1 kj bst self b net
                            else Some (create self net, Inr ())
                | None \<Rightarrow> Some (create self net, Inr ()))))"

definition mainLoop_round ::
    "(bytes \<Rightarrow> bytes) \<Rightarrow> (bytes \<Rightarrow> bytes) \<Rightarrow> kj_library \<Rightarrow> NodeStatics \<Rightarrow> addr \<Rightarrow> (nat \<Rightarrow> bool) \<Rightarrow> network \<times> nat \<Rightarrow>
     (network \<times> nat \<times> bool) result option" where
  "mainLoop_round h sha1 kj bst self cancelled s =
     (let (net, nextFinger) = s
      in if cancelled 0 then Some (Inr (net, nextFinger, True))
         else (case enter_ring h sha1 kj bst self net of
                 None \<Rightarrow> None
               | Some (net1, Inl e) \<Rightarrow> Some (Inl e)
               | Some (net1, Inr u) \<Rightarrow>
                   if cancelled 1 then Some (Inr (net1, nextFinger, True))
                   else let net2 = stabilize h self net1
                        in if cancelled 2 then Some (Inr (net2, nextFinger, True))
                           else (case fixFingers h self nextFinger net2 of
                                   None \<Rightarrow> None
                                 | Some (Inl e) \<Rightarrow> Some (Inl e)
                                 | Some (Inr (net3, nextFinger')) \<Rightarrow>
                                     if cancelled 3 then Some (Inr (net3, nextFinger', True))
                                     else Some (Inr (checkPredecessor h self net3, nextFinger', cancelled 4)))))"

subsection \<open>A sample library\<close>

definition sample_kj :: kj_library where
  "sample_kj = \<lparr>kj_throws = True, kj_nested_wait = True\<rparr>"

subsection \<open>A network with one finger changed\<close>

definition set_finger :: "network \<Rightarrow> addr \<Rightarrow> NodeInformation \<Rightarrow> nat \<Rightarrow> Node \<Rightarrow> network" where
  "set_finger net self ni f n = net(self \<mapsto> ni\<lparr>m_fingerTable := (m_fingerTable ni)[f := Some n]\<rparr>)"

section \<open>Maintenance of a stable ring\<close>

lemma length_addr_id: "(\<And>x. length (h x) = 32) \<Longrightarrow> length (addr_id h a) = 32"
  by (simp add: addr_id_def node_of_def node_simps)

lemma stable_table:
  assumes "stable_ring h addrs net" and "a \<in> set addrs" and "net a = Some ni"
  shows "length (m_fingerTable ni) = key_bits"
  using assms by (auto elim!: stable_peerE [of h addrs net a] simp: ni_ok_def)

lemma first_finger_stable:
  assumes "stable_ring h addrs net" and "x \<in> set addrs" and "net x = Some ni"
  shows "\<exists>fs. m_fingerTable ni = Some (node_of h (succ_addr net x)) # fs \<and> length fs = 255 \<and>
    (\<forall>f. Some f \<in> set fs \<longrightarrow> ring_node h addrs f)"
proof -
  have ok: "stable_peer h addrs x ni" using assms by (auto simp: stable_ring_def list_all_iff split: option.splits)
  then obtain f fs where fs: "m_fingerTable ni = Some f # fs" "length fs = 255"
    by (cases "m_fingerTable ni") (auto simp: stable_peer_def ni_ok_def key_bits_def split: option.splits)
  then have "f = node_of h (succ_addr net x)"
    using stable_neighbours(3) [OF assms] by (simp add: getSuccessor_def)
  with fs ok show ?thesis by (simp add: stable_peer_def list_all_iff ball_option)
qed

lemma stabilize_ring:
  assumes "stable_ring h addrs net" and "self \<in> set addrs"
  shows "stabilize h self net = net"
proof -
  obtain ni where ni: "net self = Some ni" using stable_online [OF assms] by blast
  show ?thesis
    using net_call_pred [OF assms] stable_neighbours [OF assms ni] ni
    by (simp add: stabilize_def nodeFromReader_opt_simps)
qed

lemma checkPredecessor_ring:
  assumes "stable_ring h addrs net" and "self \<in> set addrs"
  shows "checkPredecessor h self net = net"
proof -
  obtain ni where ni: "net self = Some ni" using stable_online [OF assms] by blast
  obtain p where p: "p \<in> set addrs" "m_predecessor ni = Some (node_of h p)"
    using stable_neighbours(5) [OF assms ni] by blast
  obtain np where "net p = Some np" using stable_online [OF assms(1) p(1)] by blast
  with ni p show ?thesis by (simp add: checkPredecessor_def getPredecessor_def net_call_def)
qed

lemma enter_ring_stable:
  assumes "stable_ring h addrs net" and "self \<in> set addrs"
  shows "enter_ring h sha1 kj bst self net = Some (net, Inr ())"
proof -
  obtain ni where ni: "net self = Some ni" using stable_online [OF assms] by blast
  then show ?thesis using stable_neighbours [OF assms ni] by (simp add: enter_ring_def)
qed

lemma nearest_unique:
  fixes x :: "'i::linorder"
  shows "\<not> is_in_range_loop x s y False False \<Longrightarrow> \<not> is_in_range_loop y s x False False \<Longrightarrow> x = y"
  by (auto simp: range_simps split: if_splits)

lemma next_point_in_arc:
  assumes "length a = 32" and "length b = 32"
  shows "is_in_range_loop (array_add a (pow2 32 0)) a b False True"
proof -
  let ?v = "array_add a (pow2 32 0)"
  have len: "length ?v = 32" using assms by simp
  have lt: "be_val a < 256 ^ 32" "be_val b < 256 ^ 32" using be_val_less [of a] be_val_less [of b] assms by simp_all
  have v: "be_val ?v = (be_val a + 1) mod 256 ^ 32"
    using be_val_array_add [of "pow2 32 0" a] be_val_pow2 [of 0 32] assms by simp
  have one: "clockwise (256 ^ 32) a ?v = 1"
    using lt by (cases "be_val a + 1 = 256 ^ 32") (auto simp: clockwise_def v)
  have "1 \<le> clockwise (256 ^ 32) a b" if "a \<noteq> b"
  proof -
    have "be_val a \<noteq> be_val b" using that be_val_inj assms by metis
    then show ?thesis using clockwise_eq [of a 32 b] lt assms by (auto split: if_splits)
  qed
  then show ?thesis
    unfolding range_half_open_clockwise [OF len assms] one by auto
qed

lemma responsible_next:
  assumes "stable_ring h addrs net" and "self \<in> set addrs" and len: "\<And>x. length (h x) = 32"
    and "responsible h addrs (array_add (addr_id h self) (pow2 32 0)) a"
  shows "a = succ_addr net self"
proof -
  have "responsible h addrs (array_add (addr_id h self) (pow2 32 0)) (succ_addr net self)"
    by (rule responsible_succ [OF assms(1,2) next_point_in_arc]) (simp_all add: length_addr_id len)
  then show ?thesis using responsible_unique [OF assms(1) assms(4)] by blast
qed

lemma stable_ring_setFinger:
  assumes ring: "stable_ring h addrs net" and self: "self \<in> set addrs" "net self = Some ni" and a: "a \<in> set addrs"
    and first: "f = 0 \<Longrightarrow> a = succ_addr net self"
  shows "stable_ring h addrs (set_finger net self ni f (node_of h a))"
proof -
  let ?ni = "ni\<lparr>m_fingerTable := (m_fingerTable ni)[f := Some (node_of h a)]\<rparr>"
  have ok: "stable_peer h addrs self ni" using ring self by (auto simp: stable_ring_def list_all_iff split: option.splits)
  have fingers: "\<forall>g \<in> set ((m_fingerTable ni)[f := Some (node_of h a)]).
      case g of None \<Rightarrow> True | Some n \<Rightarrow> ring_node h addrs n"
    using ok a set_update_subset_insert [of "m_fingerTable ni" f "Some (node_of h a)"]
    by (fastforce simp: stable_peer_def list_all_iff ring_node_def)
  have "length (m_fingerTable ni) = key_bits" using ok by (simp add: stable_peer_def ni_ok_def)
  then have "m_fingerTable ?ni ! 0 = (if f = 0 then Some (node_of h a) else m_fingerTable ni ! 0)"
    by (simp add: key_bits_def)
  moreover have "adjacent h addrs (addr_id h self) (addr_id h a)" if "f = 0"
    using first [OF that] stable_neighbours(6) [OF ring self] by simp
  ultimately have "stable_peer h addrs self ?ni"
    using ok fingers by (auto simp: stable_peer_def ni_ok_def list_all_iff)
  then show ?thesis using ring by (auto simp: stable_ring_def list_all_iff set_finger_def)
qed

lemma fixFingers_ring:
  assumes ring: "stable_ring h addrs net" and self: "self \<in> set addrs" "net self = Some ni"
    and len: "\<And>x. length (h x) = 32" and f: "f < key_bits"
  shows "\<exists>a. responsible h addrs (array_add (addr_id h self) (pow2 32 f)) a \<and>
    fixFingers h self f net =
      Some (Inr (set_finger net self ni f (node_of h a), (f + 1) mod key_bits)) \<and>
    stable_ring h addrs (set_finger net self ni f (node_of h a))"
proof -
  have id: "NI_getId h ni = addr_id h self" by (rule stable_neighbours(2) [OF ring self])
  have l: "length (array_add (addr_id h self) (pow2 32 f)) = 32" by (simp add: length_addr_id len)
  obtain a where a: "Dht_getSuccessor h net self (array_add (addr_id h self) (pow2 32 f)) = Some (Some (node_of h a))"
    "responsible h addrs (array_add (addr_id h self) (pow2 32 f)) a"
    using Dht_getSuccessor_ring [OF ring self(1) l] by blast
  have "stable_ring h addrs (set_finger net self ni f (node_of h a))"
    by (rule stable_ring_setFinger [OF ring self])
      (use a responsible_next [OF ring self(1) len] in \<open>auto simp: responsible_def\<close>)
  then show ?thesis
    using a self f stable_table [OF ring self] by (intro exI [of _ a]) (simp add: fixFingers_def id setFinger_def set_finger_def)
qed

text \<open>A new finger that leaves the ring stable changes no item and no neighbour.\<close>

lemma set_finger_data: "net self = Some ni \<Longrightarrow> data_at (set_finger net self ni f n) b k = data_at net b k"
  by (simp add: set_finger_def data_at_def getData_eq)

lemma set_finger_succ:
  assumes "stable_ring h addrs net" and "self \<in> set addrs" and "net self = Some ni"
    and ring: "stable_ring h addrs (set_finger net self ni f n)"
  shows "succ_addr (set_finger net self ni f n) b = succ_addr net b"
proof (cases "b = self")
  case True
  let ?net = "set_finger net self ni f n"
  have "adjacent h addrs (addr_id h self) (addr_id h (succ_addr ?net self))" "succ_addr ?net self \<in> set addrs"
    "adjacent h addrs (addr_id h self) (addr_id h (succ_addr net self))" "succ_addr net self \<in> set addrs"
    using stable_online [OF ring assms(2)] stable_neighbours(4,6) [OF ring assms(2)] stable_neighbours(4,6) [OF assms(1-3)] by auto
  then have "addr_id h (succ_addr ?net self) = addr_id h (succ_addr net self)"
    by (meson adjacentD nearest_unique)
  then show ?thesis
    using True addr_id_inj [OF assms(1)] \<open>succ_addr ?net self \<in> set addrs\<close> \<open>succ_addr net self \<in> set addrs\<close> by blast
qed (simp add: succ_addr_def set_finger_def)

text \<open>A round that is not cancelled before its end sets the next finger.\<close>

lemma round_ring:
  assumes ring: "stable_ring h addrs net" and self: "self \<in> set addrs" "net self = Some ni"
    and len: "\<And>x. length (h x) = 32" and f: "f < key_bits" and go: "\<not> (cancelled 0 \<or> cancelled 1 \<or> cancelled 2)"
  shows "\<exists>a. responsible h addrs (array_add (addr_id h self) (pow2 32 f)) a \<and>
    mainLoop_round h sha1 kj bst self cancelled (net, f) =
      Some (Inr (set_finger net self ni f (node_of h a), (f + 1) mod key_bits, cancelled 3 \<or> cancelled 4)) \<and>
    stable_ring h addrs (set_finger net self ni f (node_of h a))"
proof -
  obtain a where a: "responsible h addrs (array_add (addr_id h self) (pow2 32 f)) a"
    "fixFingers h self f net = Some (Inr (set_finger net self ni f (node_of h a), (f + 1) mod key_bits))"
    and ring': "stable_ring h addrs (set_finger net self ni f (node_of h a))"
    using fixFingers_ring [OF ring self len f] by blast
  have "mainLoop_round h sha1 kj bst self cancelled (net, f) =
      Some (Inr (set_finger net self ni f (node_of h a), (f + 1) mod key_bits, cancelled 3 \<or> cancelled 4))"
    using go a(2) by (auto simp: mainLoop_round_def enter_ring_stable [OF ring self(1)] stabilize_ring [OF ring self(1)]
        Let_def checkPredecessor_ring [OF ring' self(1)])
  with a(1) ring' show ?thesis by blast
qed

section \<open>Creating a ring\<close>

lemma create_ring:
  assumes "net a = Some ni" and "ni_ok ni" and "m_node ni = mkNode h (fst a) (snd a)"
    and "\<forall>f \<in> set (m_fingerTable ni). f = None"
  shows "\<exists>ni'. stabilize h a (create a net) = net(a \<mapsto> ni') \<and> m_data ni' = m_data ni \<and>
    stable_ring h [a] (stabilize h a (create a net))"
proof -
  let ?n = "node_of h a"
  let ?c = "setSuccessor (Some ?n) (setPredecessor None ni)"
  have node: "m_node ni = ?n" using assms(3) by (simp add: node_of_def)
  have c: "create a net = net(a \<mapsto> ?c)"
    using assms(1) node by (simp add: create_def update_peer_def Let_def getNode_def setPredecessor_def)
  obtain fs where fs: "m_fingerTable ni = None # fs" "length fs = 255"
    using assms(2,4) by (cases "m_fingerTable ni") (auto simp: ni_ok_def key_bits_def)
  have cs: "getSuccessor ?c = Some ?n" "m_predecessor ?c = None" "getNode ?c = ?n" "NI_getId h ?c = addr_id h a"
    using fs node by (simp_all add: getSuccessor_def setSuccessor_def setPredecessor_def getNode_def NI_getId_def)
  have "stabilize h a (create a net) = net(a \<mapsto> ?c\<lparr>m_predecessor := Some ?n\<rparr>)"
    unfolding c using cs
    by (simp add: stabilize_def net_call_def server_getPredecessor_def getPredecessor_def nodeFromReader_opt_simps
        send_notify_def update_peer_def notify_None)
  moreover have "stable_peer h [a] a (?c\<lparr>m_predecessor := Some ?n\<rparr>)"
    using fs node assms(2,4)
    by (auto simp: stable_peer_def ni_ok_def setSuccessor_def setPredecessor_def list_all_iff ring_node_def adjacent_def
        range_simps split: option.splits)
  moreover have "m_data (?c\<lparr>m_predecessor := Some ?n\<rparr>) = m_data ni" by (simp add: setSuccessor_def setPredecessor_def)
  ultimately show ?thesis by (intro exI [of _ "?c\<lparr>m_predecessor := Some ?n\<rparr>"]) (simp add: stable_ring_def)
qed

section \<open>Proof of work\<close>

lemma pow_bits_eq: "pow_bits sha1 s = concat (map bitset8 (sha1 (bytes_of_string s)))"
  by (simp add: pow_bits_def bytedump_def strip_bytedump_rows)

lemma length_pow_bits: "length (pow_bits sha1 s) = 8 * length (sha1 (bytes_of_string s))"
proof -
  have "length (concat (map bitset8 bs)) = 8 * length bs" for bs by (induction bs) simp_all
  then show ?thesis by (simp add: pow_bits_eq)
qed

lemma pow_solve_cases:
  "(\<exists>r. pow_solve sha1 puzzle d i = Inr (r, pow_bits sha1 r) \<and> take (length puzzle) r = puzzle \<and>
      take d (pow_bits sha1 r) = replicate d (CHR ''0'')) \<or>
   pow_solve sha1 puzzle d i = Inl (Undefined_Behaviour ''signed overflow'') \<and>
     (\<forall>j. i \<le> j \<and> j < 2 ^ 31 \<longrightarrow> take d (pow_bits sha1 (puzzle @ to_string_nat j)) \<noteq> replicate d (CHR ''0''))"
proof (induction sha1 puzzle d i rule: pow_solve.induct)
  case (1 sha1 puzzle d i)
  let ?hit = "take d (pow_bits sha1 (puzzle @ to_string_nat i)) = replicate d (CHR ''0'')"
  consider (hit) ?hit | (last) "\<not> ?hit" "2 ^ 31 - 1 \<le> i" | (more) "\<not> ?hit" "\<not> 2 ^ 31 - 1 \<le> i" by blast
  then show ?case
  proof cases
    case hit
    then show ?thesis by (subst pow_solve.simps) (simp add: Let_def)
  next
    case last
    have "pow_solve sha1 puzzle d i = Inl (Undefined_Behaviour ''signed overflow'')"
      using last by (subst pow_solve.simps) (simp add: Let_def)
    moreover have "j = i" if "i \<le> j" "j < 2 ^ 31" for j using that last(2) by simp
    ultimately show ?thesis using last(1) by blast
  next
    case more
    then have step: "pow_solve sha1 puzzle d i = pow_solve sha1 puzzle d (i + 1)"
      by (subst pow_solve.simps) (simp add: Let_def)
    have "j = i \<or> i + 1 \<le> j" if "i \<le> j" for j using that by auto
    with 1 [OF refl refl more] more(1) show ?thesis unfolding step by blast
  qed
qed

section \<open>Properties\<close>

text \<open>
  C13: A round of the main loop keeps a stable ring stable. It returns, changes no stored item and no
  neighbour, and, unless it is cancelled before, it stores in the peer's next finger \<open>f\<close> the peer
  responsible for the peer's identifier plus \<open>2 ^ f\<close>, and goes on to the next finger, modulo their
  number.
\<close>

theorem main_loop_keeps_ring:
  assumes "stable_ring h addrs net" and "self \<in> set addrs" and "\<And>x. length (h x) = 32" and "f < key_bits"
  shows "\<exists>net' f' out. mainLoop_round h sha1 kj bst self cancelled (net, f) = Some (Inr (net', f', out)) \<and>
    stable_ring h addrs net' \<and> f' < key_bits \<and>
    (\<forall>a k. data_at net' a k = data_at net a k) \<and> (\<forall>a. succ_addr net' a = succ_addr net a) \<and>
    (\<not> (cancelled 0 \<or> cancelled 1 \<or> cancelled 2) \<longrightarrow>
       f' = (f + 1) mod key_bits \<and>
       (\<exists>a ni. responsible h addrs (array_add (addr_id h self) (pow2 32 f)) a \<and> net' self = Some ni \<and>
          m_fingerTable ni ! f = Some (mkNode h (fst a) (snd a))))"
proof (cases "cancelled 0 \<or> cancelled 1 \<or> cancelled 2")
  case True
  then show ?thesis
    using assms(1,4) by (intro exI [of _ net] exI [of _ f] exI [of _ True])
      (auto simp: mainLoop_round_def enter_ring_stable [OF assms(1,2)] stabilize_ring [OF assms(1,2)] Let_def)
next
  case False
  obtain ni where ni: "net self = Some ni" using stable_online [OF assms(1,2)] by blast
  obtain a where a: "responsible h addrs (array_add (addr_id h self) (pow2 32 f)) a"
    and round: "mainLoop_round h sha1 kj bst self cancelled (net, f) =
      Some (Inr (set_finger net self ni f (node_of h a), (f + 1) mod key_bits, cancelled 3 \<or> cancelled 4))"
    and ring: "stable_ring h addrs (set_finger net self ni f (node_of h a))"
    using round_ring [OF assms(1,2) ni assms(3,4) False] by blast
  have "(m_fingerTable ni)[f := Some (node_of h a)] ! f = Some (mkNode h (fst a) (snd a))"
    using assms(4) stable_table [OF assms(1,2) ni] by (simp add: node_of_def)
  then show ?thesis
    unfolding round using ring a set_finger_data [of net self, OF ni] set_finger_succ [OF assms(1,2) ni ring]
    by (intro exI [of _ "set_finger net self ni f (node_of h a)"] exI [of _ "(f + 1) mod key_bits"] exI conjI)
      (auto simp: key_bits_def set_finger_def simp del: split_paired_Ex)
qed

theorem main_loop_keeps_ring_witness:
  "\<exists>net' f' out. mainLoop_round sample_hash id sample_kj statics_init (''a'', 1) (\<lambda>_. False) (sample_net, 255) =
      Some (Inr (net', f', out)) \<and> stable_ring sample_hash sample_addrs net' \<and> f' = 0"
proof -
  have "255 < key_bits" by (simp add: key_bits_def)
  from main_loop_keeps_ring [OF sample_stable sample_member(1) sample_len this, of id sample_kj statics_init "\<lambda>_. False"]
  show ?thesis by (auto simp: key_bits_def)
qed

text \<open>
  A peer that creates a ring and stabilises once forms a stable ring of one peer, whatever its
  state was before.
\<close>

theorem create_makes_ring:
  assumes "net a = Some ni" and "ni_ok ni" and "m_node ni = mkNode h (fst a) (snd a)"
    and "\<forall>f \<in> set (m_fingerTable ni). f = None"
  shows "stable_ring h [a] (stabilize h a (create a net))"
  using create_ring [where net = net and a = a, OF assms] by blast

theorem create_makes_ring_witness:
  "stable_ring sample_hash [(''a'', 1)]
     (stabilize sample_hash (''a'', 1) (create (''a'', 1) [(''a'', 1) \<mapsto> NodeInformation_init sample_hash ''a'' 1]))"
  by (rule create_makes_ring [where ni = "NodeInformation_init sample_hash ''a'' 1"])
    (simp_all add: NodeInformation_init_def ni_ok_def)

text \<open>
  C30: The proof of work: the answer that the joining peer's search returns is one that the bootstrap
  node accepts, and the search gives up only when no counter value of an \<open>int\<close> gives an acceptable
  answer. With a difficulty above the 160 bits of the digest nothing is ever accepted, and the search
  runs until its counter overflows.
\<close>

theorem proof_of_work_correct:
  assumes "server_getPoWPuzzleOnJoin h st w = (puzzle, d)" and "\<And>x. length (sha1 x) = 20"
  shows "(case pow_solve sha1 puzzle (unat d) 0 of
      Inr (r, bits) \<Rightarrow> bits \<noteq> [] \<and>
        server_sendPoWPuzzleResponse h sha1 kj method env ni st w r bits =
          map_option (map_sum id (\<lambda>s. Some (buildNode_opt h s)))
            (PeerImpl_getSuccessor h method env ni (getId h (nodeFromReader h w)))
    | Inl e \<Rightarrow> is_ub (pow_solve sha1 puzzle (unat d) 0) \<and>
        (\<forall>j bits. j < 2 ^ 31 \<longrightarrow> \<not> pow_accepts sha1 d puzzle (puzzle @ to_string_nat j) bits)) \<and>
    (160 < unat d \<longrightarrow> is_ub (pow_solve sha1 puzzle (unat d) 0) \<and> (\<forall>r bits. \<not> pow_accepts sha1 d puzzle r bits))"
proof -
  have p: "puzzle = m_ip (nodeFromReader h w) @ '':'' @ to_string_nat (unat (m_port (nodeFromReader h w)))" "d = getDifficulty st"
    using assms(1) by (simp_all add: server_getPoWPuzzleOnJoin_def Let_def)
  have bits: "length (pow_bits sha1 r) = 160" for r by (simp add: length_pow_bits assms(2))
  have big: "take (unat d) (pow_bits sha1 r) \<noteq> replicate (unat d) (CHR ''0'')" if "160 < unat d" for r
  proof
    assume "take (unat d) (pow_bits sha1 r) = replicate (unat d) (CHR ''0'')"
    then have "length (take (unat d) (pow_bits sha1 r)) = unat d" by simp
    with that bits [of r] show False by simp
  qed
  have ne: "pow_bits sha1 r \<noteq> []" for r using bits [of r] by auto
  have never: "160 < unat d \<longrightarrow> (\<forall>r bits. \<not> pow_accepts sha1 d puzzle r bits)"
    using big by (auto simp: pow_accepts_def)
  from pow_solve_cases [of sha1 puzzle "unat d" 0] show ?thesis
  proof (elim disjE exE conjE)
    fix r assume r: "pow_solve sha1 puzzle (unat d) 0 = Inr (r, pow_bits sha1 r)" "take (length puzzle) r = puzzle"
      "take (unat d) (pow_bits sha1 r) = replicate (unat d) (CHR ''0'')"
    have "pow_accepts sha1 (getDifficulty st) puzzle r (pow_bits sha1 r)" using r by (simp add: pow_accepts_def p(2))
    then have "server_sendPoWPuzzleResponse h sha1 kj method env ni st w r (pow_bits sha1 r) =
        map_option (map_sum id (\<lambda>s. Some (buildNode_opt h s)))
          (PeerImpl_getSuccessor h method env ni (getId h (nodeFromReader h w)))"
      by (simp add: server_sendPoWPuzzleResponse_def Let_def p(1))
    with r ne big show ?thesis by auto
  next
    assume u: "pow_solve sha1 puzzle (unat d) 0 = Inl (Undefined_Behaviour ''signed overflow'')"
      "\<forall>j. 0 \<le> j \<and> j < 2 ^ 31 \<longrightarrow>
         take (unat d) (pow_bits sha1 (puzzle @ to_string_nat j)) \<noteq> replicate (unat d) (CHR ''0'')"
    then show ?thesis using never by (auto simp: pow_accepts_def)
  qed
qed

theorem proof_of_work_correct_witness:
  "is_ub (pow_solve (\<lambda>_. replicate 20 0) ''a:1'' 200 0) \<and>
   \<not> pow_accepts (\<lambda>_. replicate 20 0) 200 ''a:1'' ''a:10'' (pow_bits (\<lambda>_. replicate 20 0) ''a:10'')"
proof -
  have "server_getPoWPuzzleOnJoin id (statics_init\<lparr>m_difficulty := 200\<rparr>) \<lparr>w_id = [], w_ip = ''a'', w_port = 1\<rparr> = (''a:1'', 200)"
    by (simp add: server_getPoWPuzzleOnJoin_def nodeFromReader_def node_simps getDifficulty_def statics_init_def Let_def
        to_string_nat.simps char_of_def bit_0)
  from proof_of_work_correct [OF this, of "\<lambda>_. replicate 20 0"] show ?thesis by simp
qed

end
