(* ===== verification/Protocol.thy ===== *)
theory Protocol
  imports Lookup Maintenance
begin

text \<open>
  All interleavings of the operations of all peers: a step relation on networks with one rule for
  every operation that changes a state (starting and losing a peer, entering a ring, stabilising,
  fixing a finger, checking the predecessor, a pass of the data cleaner, a single copy written by a
  background task, the two put handlers), the networks it reaches from the empty one, the invariant
  that every stored finger is a node with the identifier of its address, and what follows from it:
  no operation of any peer hangs, however the steps were interleaved and whichever peers have left.
\<close>

section \<open>Definitions\<close>

definition honest :: "(bytes \<Rightarrow> bytes) \<Rightarrow> network \<Rightarrow> bool" where
  "honest h net \<longleftrightarrow> finite (dom net) \<and> (\<forall>a ni. net a = Some ni \<longrightarrow> honest_peer h a ni)"

inductive net_step :: "(bytes \<Rightarrow> bytes) \<Rightarrow> (bytes \<Rightarrow> bytes) \<Rightarrow> kj_library \<Rightarrow> network \<Rightarrow> network \<Rightarrow> bool"
  for h sha1 kj where
  start: "net a = None \<Longrightarrow>
    net_step h sha1 kj net (net(a \<mapsto> setBootstrapNode b (NodeInformation_init h (fst a) (snd a))))"
| leave: "net_step h sha1 kj net (net(a := None))"
| enter: "enter_ring h sha1 kj bst a net = Some (net', r) \<Longrightarrow> net_step h sha1 kj net net'"
| stab: "net_step h sha1 kj net (stabilize h a net)"
| fix_finger: "fixFingers h a f net = Some (Inr (net', f')) \<Longrightarrow> net_step h sha1 kj net net'"
| check: "net_step h sha1 kj net (checkPredecessor h a net)"
| clean: "net_step h sha1 kj net (update_peer a (dataCleaner_pass clock) net)"
| copy: "net_step h sha1 kj net (PeerImpl_setData h now net a node k v t)"
| put: "onDhtPut h clock a m net st = Some (r, net', st') \<Longrightarrow> net_step h sha1 kj net net'"
| put_hash: "onDhtPutKeyIsHashOfData h clock a mh net st = Some (r, net', st') \<Longrightarrow> net_step h sha1 kj net net'"

inductive reachable :: "(bytes \<Rightarrow> bytes) \<Rightarrow> (bytes \<Rightarrow> bytes) \<Rightarrow> kj_library \<Rightarrow> network \<Rightarrow> bool" for h sha1 kj where
  empty: "reachable h sha1 kj Map.empty"
| step: "reachable h sha1 kj net \<Longrightarrow> net_step h sha1 kj net net' \<Longrightarrow> reachable h sha1 kj net'"

inductive_cases reachableE: "reachable h sha1 kj net"

section \<open>Every operation keeps a network honest\<close>

lemma honest_peer_update [intro]:
  assumes "honest_peer h a ni"
  shows "honest_peer h a (setPredecessor q ni)" "honest_peer h a (setData now k v t ni)" "honest_peer h a (setDataExpires k v e ni)"
    "honest_peer h a (dataCleaner_pass clock ni)" "honest_peer h a (deleteDataAssignedToPredecessor ks ni)"
    "honest_peer h a (setBootstrapNode q ni)" "honest_peer h a (server_notify h w ni)"
  using assms ni_ok_update [of ni]
  by (auto simp: honest_peer_def setPredecessor_def setData_def setDataExpires_def dataCleaner_pass_def
      deleteDataAssignedToPredecessor_def setBootstrapNode_def server_notify_def Let_def split: option.splits)

lemma honest_peer_finger:
  assumes "honest_peer h a ni" and "\<And>n. s = Some n \<Longrightarrow> addressed h n"
  shows "honest_peer h a (ni\<lparr>m_fingerTable := (m_fingerTable ni)[f := s]\<rparr>)"
  using assms set_update_subset_insert [of "m_fingerTable ni" f s]
  by (fastforce simp: honest_peer_def ni_ok_def list_all_iff split: option.splits)

lemma honest_peer_setSuccessor:
  "honest_peer h a ni \<Longrightarrow> (\<And>n. s = Some n \<Longrightarrow> addressed h n) \<Longrightarrow> honest_peer h a (setSuccessor s ni)"
  by (simp add: setSuccessor_def honest_peer_finger)

lemma honest_peer_setFinger:
  "honest_peer h a ni \<Longrightarrow> (\<And>n. s = Some n \<Longrightarrow> addressed h n) \<Longrightarrow> setFinger f s ni = Inr ni' \<Longrightarrow> honest_peer h a ni'"
  by (auto simp: setFinger_def honest_peer_finger split: if_splits)

lemma honest_peer_init: "honest_peer h a (NodeInformation_init h (fst a) (snd a))"
  by (simp add: honest_peer_def NodeInformation_init_def ni_ok_def node_of_def list_all_iff)

lemma honest_peer_getNode: "honest_peer h a ni \<Longrightarrow> addressed h (getNode ni)"
  by (simp add: honest_peer_def getNode_def)

lemma honest_peer_storeDataItems: "honest_peer h a ni \<Longrightarrow> storeDataItems items ni = Inr ni' \<Longrightarrow> honest_peer h a ni'"
  by (induction items ni rule: storeDataItems.induct) (auto split: sum.splits)

lemma honest_peer_getDataItems:
  "honest_peer h a ni \<Longrightarrow> server_getDataItemsOnJoin h w ni = Inr (ni', items) \<Longrightarrow> honest_peer h a ni'"
  by (auto simp: server_getDataItemsOnJoin_def Let_def split: option.splits if_splits)

lemma honest_upd: "honest h net \<Longrightarrow> honest_peer h a ni \<Longrightarrow> honest h (net(a \<mapsto> ni))"
  by (auto simp: honest_def)

lemma honestD: "honest h net \<Longrightarrow> net a = Some ni \<Longrightarrow> honest_peer h a ni"
  unfolding honest_def by blast

lemma honest_update_peer: "honest h net \<Longrightarrow> (\<And>ni. honest_peer h a ni \<Longrightarrow> honest_peer h a (f ni)) \<Longrightarrow> honest h (update_peer a f net)"
  by (auto simp: update_peer_def honest_upd honestD split: option.splits)

lemma honest_setData: "honest h net \<Longrightarrow> honest h (PeerImpl_setData h now net self node k v t)"
  by (auto simp: PeerImpl_setData_def server_setData_def honest_upd honestD honest_peer_update split: option.splits)

lemma honest_replication:
  "replication_task h stored now self limit key val t n i counts net = Some net' \<Longrightarrow> honest h net \<Longrightarrow> honest h net'"
  by (induction h stored now self limit key val t n i counts net rule: replication_task.induct)
    (auto simp: Let_def honest_setData split: option.splits if_splits)

lemma honest_put:
  "onDhtPut h now self m net st = Some (r, net', st') \<Longrightarrow> honest h net \<Longrightarrow> honest h net'"
  "onDhtPutKeyIsHashOfData h now self mh net st = Some (r, net', st') \<Longrightarrow> honest h net \<Longrightarrow> honest h net'"
  by (auto simp: onDhtPut_def onDhtPutKeyIsHashOfData_def Let_def honest_setData split: option.splits if_splits
      dest!: honest_replication)

lemma addressed_reader_opt: "nodeFromReader_opt h w = Some n \<Longrightarrow> addressed h n"
  by (cases w) (auto simp: nodeFromReader_opt_simps)

lemma addressed_getSuccessor: "Dht_getSuccessor h net self key = Some (Some n) \<Longrightarrow> addressed h n"
  by (auto simp: Dht_getSuccessor_def split: option.splits sum.splits dest: addressed_reader_opt)

lemma honest_create:
  assumes "honest h net"
  shows "honest h (create self net)"
  unfolding create_def Let_def
proof (rule honest_update_peer [OF assms])
  fix ni assume ni: "honest_peer h self ni"
  then have p: "honest_peer h self (setPredecessor None ni)" by blast
  then show "honest_peer h self (setSuccessor (Some (getNode (setPredecessor None ni))) (setPredecessor None ni))"
    by (rule honest_peer_setSuccessor) (use honest_peer_getNode [OF p] in simp)
qed

lemma honest_notify: "honest h net \<Longrightarrow> honest h (send_notify h target node net)"
  unfolding send_notify_def by (rule honest_update_peer) auto

lemma honest_stabilize:
  assumes "honest h net"
  shows "honest h (stabilize h self net)"
proof -
  have "honest h (net(self \<mapsto> setSuccessor (Some n) ni))" if "net self = Some ni" "addressed h n" for ni n
    using assms that by (intro honest_upd honest_peer_setSuccessor) (auto dest: honestD)
  then show ?thesis
    using assms by (auto simp: stabilize_def Let_def honest_notify dest: addressed_reader_opt split: option.splits sum.splits)
qed

lemma honest_fixFingers: "fixFingers h self f net = Some (Inr (net', f')) \<Longrightarrow> honest h net \<Longrightarrow> honest h net'"
  by (auto simp: fixFingers_def split: option.splits sum.splits intro!: honest_upd
      elim!: honest_peer_setFinger [rotated 2] dest: honestD addressed_getSuccessor)

lemma honest_checkPredecessor: "honest h net \<Longrightarrow> honest h (checkPredecessor h self net)"
  by (auto simp: checkPredecessor_def honest_upd honestD honest_peer_update split: option.splits sum.splits)

lemma honest_join_data:
  "getDataItemsOnJoinHelper h wait_ok self s net = Inr net' \<Longrightarrow> honest h net \<Longrightarrow> honest h net'"
  by (auto simp: getDataItemsOnJoinHelper_def Let_def split: option.splits sum.splits if_splits intro!: honest_upd)
    (meson honestD honest_peer_storeDataItems honest_peer_getDataItems)+

lemma honest_join:
  assumes "Dht_join h sha1 kj bst self node net = Some (net', e)" and "honest h net"
  shows "honest h net'"
proof (cases "net self")
  case None
  then show ?thesis using assms by (simp add: Dht_join_def)
next
  case (Some ni)
  let ?net = "net(self \<mapsto> setPredecessor None ni)"
  have net: "honest h ?net" using assms(2) Some by (auto intro!: honest_upd dest: honestD)
  have succ: "honest h (update_peer self (setSuccessor s) ?net)" if "\<And>n. s = Some n \<Longrightarrow> addressed h n" for s
    using net that by (intro honest_update_peer honest_peer_setSuccessor) auto
  show ?thesis
    using assms(1) Some net succ [of None] succ [OF addressed_reader_opt] honest_join_data
    by (auto simp: Dht_join_def Let_def split: option.splits sum.splits prod.splits if_splits)
qed

lemma honest_enter_ring: "enter_ring h sha1 kj bst self net = Some (net', e) \<Longrightarrow> honest h net \<Longrightarrow> honest h net'"
  by (auto simp: enter_ring_def honest_create split: option.splits if_splits dest: honest_join)

lemma honest_net_step: "net_step h sha1 kj net net' \<Longrightarrow> honest h net \<Longrightarrow> honest h net'"
proof (induction rule: net_step.induct)
  case (start net a b)
  then show ?case by (intro honest_upd honest_peer_update honest_peer_init)
next
  case (leave net a)
  have "dom (net(a := None)) \<subseteq> dom net" by (auto split: if_splits)
  with leave show ?case unfolding honest_def by (metis finite_subset fun_upd_apply option.distinct(1))
next
  case (clean net a clock)
  then show ?case by (rule honest_update_peer) auto
qed (auto intro: honest_enter_ring honest_stabilize honest_fixFingers honest_checkPredecessor honest_setData honest_put)

lemma reachable_honest: "reachable h sha1 kj net \<Longrightarrow> honest h net"
proof (induction rule: reachable.induct)
  case empty
  show ?case by (simp add: honest_def)
next
  case (step net net')
  then show ?case using honest_net_step by blast
qed

section \<open>Every operation returns\<close>

lemma honest_lookup:
  assumes "honest h net" and "net a = Some ni" and "\<And>x. length (h x) = 32" and "length i = 32"
  shows "\<exists>r. PeerImpl_getSuccessor h LOCAL (net_env h LOCAL net f) ni i = Some r"
proof -
  have "finite (dom net)" using assms(1) by (simp add: honest_def)
  from finite_list [OF this] obtain addrs where "set addrs = dom net" by (rule exE)
  moreover have "honest_peer h b nb" if "net b = Some nb" for b nb using honestD [OF assms(1) that] .
  ultimately have "honest_net h addrs net" unfolding honest_net_def list_all_iff by (simp split: option.split)
  from lookup_terminates [OF this assms(2-4)] show ?thesis .
qed

lemma honest_getSuccessor:
  assumes "honest h net" and "\<And>x. length (h x) = 32" and "length i = 32"
  shows "\<exists>s. Dht_getSuccessor h net a i = Some s"
proof (cases "net a")
  case None
  then show ?thesis by (simp add: Dht_getSuccessor_def)
next
  case (Some ni)
  obtain r where "PeerImpl_getSuccessor h LOCAL (net_env h LOCAL net 0) ni i = Some r"
    using honest_lookup [OF assms(1) Some assms(2,3)] by blast
  with Some assms(3) show ?thesis
    by (cases r) (auto simp: Dht_getSuccessor_def server_getSuccessor_def)
qed

lemma honest_replication_returns:
  assumes "honest h net" and len: "\<And>x. length (h x) = 32"
  shows "\<exists>net'. replication_task h stored now self limit key val t n i counts net = Some net'"
  using assms(1)
proof (induction n arbitrary: i counts net)
  case (Suc n)
  obtain s where "Dht_getSuccessor h net self (h (key @ [of_nat (i + 1)])) = Some s"
    using honest_getSuccessor [OF Suc.prems len len] by blast
  then show ?case
    using Suc.IH Suc.prems honest_setData [OF Suc.prems]
    by (cases s) (auto simp: Let_def split: option.splits)
qed simp

lemma get_replicas_returns:
  assumes "honest h net" and len: "\<And>x. length (h x) = 32"
  shows "\<exists>r. get_replicas h net self key n i = Some r"
    "\<exists>r. get_hash_replicas h net self key fin n i resp = Some r"
proof -
  have s: "\<exists>s. Dht_getSuccessor h net self (h k) = Some s" for k
    using honest_getSuccessor [OF assms(1) len len] by blast
  show "\<exists>r. get_replicas h net self key n i = Some r"
  proof (induction n arbitrary: i)
    case (Suc n)
    obtain t where "Dht_getSuccessor h net self (h (key @ [of_nat i])) = Some t" using s by blast
    with Suc show ?case by (cases t) (simp_all add: Let_def)
  qed simp
  show "\<exists>r. get_hash_replicas h net self key fin n i resp = Some r"
  proof (induction n arbitrary: i resp)
    case (Suc n)
    obtain t where "Dht_getSuccessor h net self (h (key @ [of_nat i])) = Some t" using s by blast
    with Suc show ?case by (cases t) (auto simp: Let_def split: option.splits)
  qed simp
qed

lemma honest_id_length: "honest_peer h a ni \<Longrightarrow> (\<And>x. length (h x) = 32) \<Longrightarrow> length (NI_getId h ni) = 32"
  by (simp add: honest_peer_def NI_getId_def length_addr_id)

lemma reader_id_length: "(\<And>x. length (h x) = 32) \<Longrightarrow> length (getId h (nodeFromReader h w)) = 32"
  by (simp add: nodeFromReader_def node_simps)

lemma fixFingers_returns:
  assumes "honest h net" and len: "\<And>x. length (h x) = 32"
  shows "\<exists>r. fixFingers h self f net = Some r"
proof (cases "net self")
  case (Some ni)
  have "length (array_add (NI_getId h ni) (pow2 32 f)) = 32"
    using honest_id_length [OF honestD [OF assms(1) Some] len] by simp
  from honest_getSuccessor [OF assms(1) len this, of self] Some show ?thesis
    by (auto simp: fixFingers_def simp del: split_paired_Ex)
qed (simp add: fixFingers_def)

lemma sendPoW_returns:
  assumes "honest h net" and b: "net b = Some bn" and len: "\<And>x. length (h x) = 32"
  shows "\<exists>r. server_sendPoWPuzzleResponse h sha1 kj LOCAL (net_env h LOCAL net 0) bn bst w resp bits = Some r"
proof -
  obtain r where "PeerImpl_getSuccessor h LOCAL (net_env h LOCAL net 0) bn (getId h (nodeFromReader h w)) = Some r"
    using honest_lookup [OF assms(1) b len reader_id_length [where h = h, OF len]] by blast
  then show ?thesis by (simp add: server_sendPoWPuzzleResponse_def Let_def del: net_env.simps)
qed

lemma join_returns:
  assumes "honest h net" and len: "\<And>x. length (h x) = 32"
  shows "\<exists>r. Dht_join h sha1 kj bst self node net = Some r"
proof (cases "net self")
  case (Some ni)
  define net1 where "net1 = net(self \<mapsto> setPredecessor None ni)"
  have net: "honest h net1" using assms(1) Some unfolding net1_def by (auto intro!: honest_upd dest: honestD)
  show ?thesis
  proof (cases "net1 (m_ip node, m_port node)")
    case None
    with Some show ?thesis by (simp add: Dht_join_def Let_def flip: net1_def)
  next
    case bn: (Some bn)
    obtain puzzle d where pz: "server_getPoWPuzzleOnJoin h bst (buildNode h (getNode ni)) = (puzzle, d)" by fastforce
    show ?thesis
    proof (cases "pow_solve sha1 puzzle (unat d) 0")
      case (Inr r)
      obtain q where "server_sendPoWPuzzleResponse h sha1 (kj_throws kj) LOCAL (net_env h LOCAL net1 0) bn bst
          (buildNode h (getNode ni)) (fst r) (snd r) = Some q"
        using sendPoW_returns [OF net bn len] by blast
      with Some bn pz Inr show ?thesis
        by (cases r; cases q) (auto simp: Dht_join_def Let_def simp del: net_env.simps simp flip: net1_def split: option.split sum.split)
    qed (use Some bn pz in \<open>simp add: Dht_join_def Let_def flip: net1_def\<close>)
  qed
qed (simp add: Dht_join_def)

lemma enter_ring_returns:
  "honest h net \<Longrightarrow> (\<And>x. length (h x) = 32) \<Longrightarrow> \<exists>net' e. enter_ring h sha1 kj bst self net = Some (net', e)"
  using join_returns by (auto simp: enter_ring_def split: option.splits)

lemma round_returns:
  assumes "honest h net" and len: "\<And>x. length (h x) = 32"
  shows "\<exists>r. mainLoop_round h sha1 kj bst self cancelled (net, f) = Some r"
proof -
  obtain net1 e where r: "enter_ring h sha1 kj bst self net = Some (net1, e)" using enter_ring_returns [OF assms] by blast
  show ?thesis
  proof (cases e)
    case (Inr u)
    then have "honest h (stabilize h self net1)" using r assms(1) by (auto intro: honest_stabilize honest_enter_ring)
    then obtain q where "fixFingers h self f (stabilize h self net1) = Some q" using fixFingers_returns len by blast
    then show ?thesis using r Inr by (auto simp: mainLoop_round_def Let_def split: sum.splits prod.splits)
  qed (use r in \<open>simp add: mainLoop_round_def\<close>)
qed

lemma handlers_return:
  assumes "honest h net" and len: "\<And>x. length (h x) = 32"
  shows "\<exists>r. onDhtPut h now a m net st = Some r" "\<exists>r. onDhtPutKeyIsHashOfData h now a mh net st = Some r"
    "\<exists>r. onDhtGet h a g net st = Some r" "length garbage = 32 \<Longrightarrow> \<exists>r. onDhtGetKeyIsHashOfData h garbage a gh net st = Some r"
proof -
  obtain s where s: "Dht_getSuccessor h net a (h (put_key m)) = Some s" using honest_getSuccessor [OF assms(1) len len] by blast
  have r: "\<exists>net'. replication_task h stored now a limit key val t n i counts (case s of Some n \<Rightarrow> PeerImpl_setData h now0 net a n k v t' | None \<Rightarrow> net) = Some net'"
    for s now0 k v t' stored now limit key val t n i counts
    using honest_replication_returns [OF _ len] honest_setData assms(1) by (cases s) auto
  show "\<exists>r. onDhtPut h now a m net st = Some r"
    using s r by (simp add: onDhtPut_def Let_def)
  obtain s where "Dht_getSuccessor h net a (h (hput_key mh)) = Some s" using honest_getSuccessor [OF assms(1) len len] by blast
  then show "\<exists>r. onDhtPutKeyIsHashOfData h now a mh net st = Some r"
    using r by (simp add: onDhtPutKeyIsHashOfData_def Let_def)
  obtain s where "Dht_getSuccessor h net a (h (key_key g)) = Some s" using honest_getSuccessor [OF assms(1) len len] by blast
  then show "\<exists>r. onDhtGet h a g net st = Some r"
    using get_replicas_returns(1) [OF assms] by (simp add: onDhtGet_def Let_def)
  show "\<exists>r. onDhtGetKeyIsHashOfData h garbage a gh net st = Some r" if g: "length garbage = 32"
  proof (cases "32 < length (hget_key gh)")
    case False
    then have "length (overwrite garbage 0 (hget_key gh)) = 32" using g by simp
    then obtain s where "Dht_getSuccessor h net a (overwrite garbage 0 (hget_key gh)) = Some s"
      using honest_getSuccessor [OF assms(1) len] by blast
    with False show ?thesis
      using get_replicas_returns(2) [OF assms] by (simp add: onDhtGetKeyIsHashOfData_def Let_def split: option.splits)
  qed (simp add: onDhtGetKeyIsHashOfData_def)
qed

section \<open>What the operations end with\<close>

text \<open>A lookup ends with no other exception than that of a call to a peer that is gone.\<close>

lemma helper_impl_error:
  assumes "length (m_fingerTable ni) = key_bits" and "helper_impl h (net_env h m net f) ni node i j = Inl e"
  shows "e = Rpc_Exception ''connection refused''"
proof -
  obtain c where "getClosestPreceding h ni j = Inr c" using getClosestPreceding_total [OF assms(1)] by blast
  then show ?thesis
    using assms(2) by (auto simp: helper_impl_def checkResult_def Let_def net_call_def split: if_splits option.splits sum.splits prod.splits)
qed

lemma helper_iterate_error:
  assumes "helper_iterate h env ni node i distrusted j = Some r" and "\<And>j e. helper_impl h env ni node i j = Inl e \<Longrightarrow> P e"
  shows "r = Inl e \<Longrightarrow> P e"
proof -
  have "(\<forall>j e. helper_impl h env ni node i j = Inl e \<longrightarrow> P e) \<longrightarrow> (\<forall>e. r = Inl e \<longrightarrow> P e)"
    by (rule helper_iterate.raw_induct [where P = "\<lambda>h env ni node i distrusted j r.
        (\<forall>j e. helper_impl h env ni node i j = Inl e \<longrightarrow> P e) \<longrightarrow> (\<forall>e. r = Inl e \<longrightarrow> P e)", OF _ assms(1)])
      (auto split: sum.splits option.splits if_splits)
  then show "r = Inl e \<Longrightarrow> P e" using assms(2) by blast
qed

lemma algorithm_error:
  assumes "getSuccessorAlgorithm h env ni i hops distrusted = Some r" and "\<And>node j e. helper_impl h env ni node i j = Inl e \<Longrightarrow> P e"
  shows "r = Inl e \<Longrightarrow> P e"
proof -
  have "(\<forall>node j e. helper_impl h env ni node i j = Inl e \<longrightarrow> P e) \<longrightarrow> (\<forall>e. r = Inl e \<longrightarrow> P e)"
  proof (rule getSuccessorAlgorithm.raw_induct [where P = "\<lambda>h env ni i hops distrusted r.
        (\<forall>node j e. helper_impl h env ni node i j = Inl e \<longrightarrow> P e) \<longrightarrow> (\<forall>e. r = Inl e \<longrightarrow> P e)", OF _ assms(1)], rule impI)
    fix algorithm h env ni i hops distrusted r
    assume IH: "\<And>h env ni i hops distrusted r. algorithm h env ni i hops distrusted = Some r \<Longrightarrow>
        (\<forall>node j e. helper_impl h env ni node i j = Inl e \<longrightarrow> P e) \<longrightarrow> (\<forall>e. r = Inl e \<longrightarrow> P e)"
      and impl: "\<forall>node j e. helper_impl h env ni node i j = Inl e \<longrightarrow> P e"
      and r: "(case hops of [] \<Rightarrow> Some (Inr None) | current # below \<Rightarrow>
          Option.bind (getClosestPrecedingHelper h env ni current i distrusted)
            (\<lambda>r. case r of Inl e \<Rightarrow> Some (Inl e) | Inr result \<Rightarrow>
              (case closestPreceding result of Some c \<Rightarrow> algorithm h env ni i (c # hops) distrusted
               | None \<Rightarrow> (case successor result of Some s \<Rightarrow> Some (Inr (Some s))
                  | None \<Rightarrow> algorithm h env ni i below (uset_insert h current distrusted))))) = Some r"
    show "\<forall>e. r = Inl e \<longrightarrow> P e"
    proof (cases hops)
      case (Cons current below)
      then obtain q where q: "getClosestPrecedingHelper h env ni current i distrusted = Some q" using r by (auto simp: bind_eq_Some_conv)
      have "P e" if "q = Inl e" for e
        using helper_iterate_error [of h env ni current i distrusted i q P e] q impl that by (auto simp: getClosestPrecedingHelper_def)
      with r q Cons impl IH show ?thesis by (auto split: sum.splits option.splits)
    qed (use r in auto)
  qed
  then show "r = Inl e \<Longrightarrow> P e" using assms(2) by blast
qed

lemma lookup_error:
  assumes "PeerImpl_getSuccessor h LOCAL (net_env h LOCAL net f) ni i = Some (Inl e)" and "length (m_fingerTable ni) = key_bits"
  shows "e = Rpc_Exception ''connection refused''"
proof -
  have "getSuccessorAlgorithm h (net_env h LOCAL net f) ni i [getNode ni] [] = Some (Inl e)"
    using assms(1) by (auto simp: PeerImpl_getSuccessor_def split: if_splits option.splits sum.splits)
  from algorithm_error [where P = "\<lambda>e. e = Rpc_Exception ''connection refused''", OF this]
  show ?thesis using helper_impl_error [OF assms(2)] by blast
qed

text \<open>A get by hash that does not answer runs into undefined behaviour.\<close>

lemma get_hash_error:
  assumes "onDhtGetKeyIsHashOfData h garbage self m net st = Some (Inl e)"
  shows "is_ub (Inl e :: bytes result)"
proof -
  have "is_ub r" if "get_hash_replicas h net self key fin n i resp = Some r" "isl r" for key fin n i resp r
    using that by (induction n arbitrary: i resp) (auto simp: Let_def split: option.splits if_splits)
  note replicas = this
  have err: "map_sum id f x = Inl e \<longleftrightarrow> x = Inl e" for f :: "bytes option \<Rightarrow> bytes" and x by (cases x) auto
  show ?thesis
  proof (cases "\<exists>x. e = Undefined_Behaviour x")
    case False
    with assms obtain v where "get_hash_replicas h net self (hget_key m) (overwrite garbage 0 (hget_key m)) (average_bound st) 1 (Some v) = Some (Inl e)"
      by (auto simp: onDhtGetKeyIsHashOfData_def Let_def err split: if_splits option.splits)
    from replicas [OF this] show ?thesis by (cases e) (simp_all add: is_ub_def)
  qed auto
qed

text \<open>A round of the main loop ends with an exception only if entering the ring does.\<close>

lemma round_error:
  assumes "honest h net" and "mainLoop_round h sha1 kj bst self cancelled (net, f) = Some (Inl e)" and "f < key_bits"
  shows "\<exists>net1. enter_ring h sha1 kj bst self net = Some (net1, Inl e)"
proof (rule ccontr)
  assume "\<not> ?thesis"
  then obtain net1 where net1: "enter_ring h sha1 kj bst self net = Some (net1, Inr ())"
    "fixFingers h self f (stabilize h self net1) = Some (Inl e)"
    using assms(2) by (auto simp: mainLoop_round_def Let_def split: if_splits option.splits sum.splits prod.splits)
  then obtain ni where ni: "stabilize h self net1 self = Some ni" by (auto simp: fixFingers_def split: option.splits)
  have "honest h (stabilize h self net1)" using net1(1) assms(1) by (auto intro: honest_stabilize honest_enter_ring)
  from honestD [OF this ni] have "length (m_fingerTable ni) = key_bits" by (simp add: honest_peer_def ni_ok_def)
  with net1(2) ni assms(3) show False by (auto simp: fixFingers_def setFinger_def split: option.splits if_splits)
qed

section \<open>A round of the main loop is a sequence of steps\<close>

lemma fixFingers_reachable:
  "reachable h sha1 kj net \<Longrightarrow> fixFingers h self f net = Some (Inr (net', f')) \<Longrightarrow> reachable h sha1 kj net'"
  by (rule reachable.step, assumption, rule net_step.fix_finger)

lemma enter_ring_reachable:
  "reachable h sha1 kj net \<Longrightarrow> enter_ring h sha1 kj bst self net = Some (net', e) \<Longrightarrow> reachable h sha1 kj net'"
  by (rule reachable.step, assumption, rule net_step.enter)

lemma round_reachable:
  assumes "mainLoop_round h sha1 kj bst self cancelled (net, f) = Some (Inr (net', f', c))" and "reachable h sha1 kj net"
  shows "reachable h sha1 kj net'"
proof -
  have stab: "reachable h sha1 kj (stabilize h self n)" if "reachable h sha1 kj n" for n
    using that net_step.stab by (rule reachable.step)
  have check: "reachable h sha1 kj (checkPredecessor h self n)" if "reachable h sha1 kj n" for n
    using that net_step.check by (rule reachable.step)
  obtain net1 where enter: "\<not> cancelled 0 \<Longrightarrow> enter_ring h sha1 kj bst self net = Some (net1, Inr ())"
    using assms(1) by (auto simp: mainLoop_round_def split: if_splits option.splits sum.splits)
  show ?thesis
  proof (cases "cancelled 0")
    case True
    with assms show ?thesis by (simp add: mainLoop_round_def)
  next
    case False
    have net1: "reachable h sha1 kj net1" using enter_ring_reachable [OF assms(2) enter [OF False]] .
    show ?thesis
      using assms(1) False enter [OF False] net1 stab [OF net1] check fixFingers_reachable [OF stab [OF net1], where self = self and f = f]
      by (auto simp: mainLoop_round_def Let_def split: if_splits option.splits sum.splits prod.splits)
  qed
qed

lemma sample_start:
  "reachable h sha1 kj (Map.empty((ip, port) \<mapsto> setBootstrapNode b (NodeInformation_init h ip port)))"
  using net_step.start [of Map.empty "(ip, port)" h sha1 kj b]
  by (intro reachable.step [OF reachable.empty]) simp

section \<open>Properties\<close>

text \<open>
  C8: In every network that any interleaving of the peers' steps reaches from the empty one, with peers
  joining, leaving and storing at any moment, every peer's state is well formed, every lookup with the method that the peers
  use (\<open>LOCAL\<close>) returns a node or none, or the exception of a call to a peer that is gone; the two put handlers and the get
  handler return an answer; the handler of a get by hash returns an answer, or runs into undefined behaviour and does not
  hang; and a round of the main loop returns, with an exception only if entering the ring ends with it, and leaves a
  network that is reachable again.
\<close>

theorem reachable_operations_return:
  assumes "reachable h sha1 kj net" and "\<And>x. length (h x) = 32" and "length garbage = 32" and "length i = 32" and "f < key_bits"
  shows "(\<forall>a ni. net a = Some ni \<longrightarrow> ni_ok ni \<and>
      (\<exists>r. PeerImpl_getSuccessor h LOCAL (net_env h LOCAL net hops) ni i = Some r \<and>
         (\<forall>e. r = Inl e \<longrightarrow> e = Rpc_Exception ''connection refused''))) \<and>
    (\<exists>r. onDhtPut h now self put net st = Some r) \<and> (\<exists>r. onDhtGet h self get net st = Some r) \<and>
    (\<exists>r. onDhtPutKeyIsHashOfData h now self hput net st = Some r) \<and>
    (\<exists>r. onDhtGetKeyIsHashOfData h garbage self hget net st = Some r \<and> (isl r \<longrightarrow> is_ub r)) \<and>
    (\<exists>r. mainLoop_round h sha1 kj bst self cancelled (net, f) = Some r \<and>
       (\<forall>e. r = Inl e \<longrightarrow> (\<exists>net1. enter_ring h sha1 kj bst self net = Some (net1, Inl e))) \<and>
       (\<forall>net' f' c. r = Inr (net', f', c) \<longrightarrow> reachable h sha1 kj net'))"
proof -
  note hon = reachable_honest [OF assms(1)]
  have "ni_ok ni \<and> (\<exists>r. PeerImpl_getSuccessor h LOCAL (net_env h LOCAL net hops) ni i = Some r \<and>
      (\<forall>e. r = Inl e \<longrightarrow> e = Rpc_Exception ''connection refused''))" if "net a = Some ni" for a ni
  proof -
    have "ni_ok ni" using honestD [OF hon that] by (simp add: honest_peer_def)
    then show ?thesis using honest_lookup [OF hon that assms(2,4)] lookup_error unfolding ni_ok_def by blast
  qed
  moreover have "\<exists>r. onDhtGetKeyIsHashOfData h garbage self hget net st = Some r \<and> (isl r \<longrightarrow> is_ub r)"
    using handlers_return(4) [OF hon assms(2,3)] get_hash_error by (metis isl_def)
  moreover obtain r where r: "mainLoop_round h sha1 kj bst self cancelled (net, f) = Some r"
    using round_returns [OF hon assms(2)] by blast
  moreover have "\<exists>net1. enter_ring h sha1 kj bst self net = Some (net1, Inl e)" if "r = Inl e" for e
    using round_error [OF hon r [unfolded that] assms(5)] .
  moreover have "reachable h sha1 kj net'" if "r = Inr (net', f', c)" for net' f' c
    using round_reachable [OF r [unfolded that] assms(1)] .
  ultimately show ?thesis using handlers_return(1-3) [OF hon assms(2)] by blast
qed

theorem reachable_operations_return_witness:
  "\<exists>net. net = Map.empty((''a'', 1) \<mapsto> setBootstrapNode None (NodeInformation_init sample_hash ''a'' 1)) \<and>
     (\<exists>r. onDhtPut sample_hash (\<lambda>_. 0) (''a'', 1) sample_put net statics_init = Some r) \<and>
     (\<exists>r. PeerImpl_getSuccessor sample_hash LOCAL (net_env sample_hash LOCAL net 0) (the (net (''a'', 1))) (replicate 32 0) = Some r) \<and>
     (\<exists>r. onDhtGetKeyIsHashOfData sample_hash (replicate 32 0) (''a'', 1) (sample_hash_get (replicate 32 1)) net statics_init = Some r) \<and>
     (\<exists>r. mainLoop_round sample_hash sample_hash sample_kj statics_init (''a'', 1) (\<lambda>_. False) (net, 0) = Some r)"
proof -
  let ?net = "Map.empty((''a'', 1 :: u16) \<mapsto> setBootstrapNode None (NodeInformation_init sample_hash ''a'' 1))"
  have a: "?net (''a'', 1) = Some (setBootstrapNode None (NodeInformation_init sample_hash ''a'' 1))" by simp
  have l: "length (replicate 32 0 :: bytes) = 32" "0 < key_bits" by (simp_all add: key_bits_def)
  note ret = reachable_operations_return [where net = ?net and hops = 0 and now = "\<lambda>_. 0" and self = "(''a'', 1)" and put = sample_put
      and st = statics_init and hget = "sample_hash_get (replicate 32 1)" and bst = statics_init and cancelled = "\<lambda>_. False",
      of sample_hash sample_hash sample_kj, OF sample_start sample_len l(1,1,2)]
  show ?thesis
  proof (intro exI [of _ ?net] conjI)
    show "\<exists>r. PeerImpl_getSuccessor sample_hash LOCAL (net_env sample_hash LOCAL ?net 0) (the (?net (''a'', 1))) (replicate 32 0) = Some r"
      using conjunct1 [OF ret] a by (metis option.sel)
  qed (use conjunct2 [OF ret] in \<open>blast intro: refl\<close>)+
qed

end
