(* ===== verification/Join.thy ===== *)
theory Join
  imports Maintenance
begin

text \<open>
  A new peer joins a stable ring: the effect of its join on the network, of the two stabilisations
  that close the ring around it, and the property that the ring is stable again with every stored item
  at the peer now responsible for it.
\<close>

section \<open>Definitions\<close>

text \<open>A peer that was just constructed: it knows no other node and holds no data.\<close>

definition fresh_peer :: "(bytes \<Rightarrow> bytes) \<Rightarrow> addr \<Rightarrow> NodeInformation \<Rightarrow> bool" where
  "fresh_peer h n ni \<longleftrightarrow>
     m_node ni = node_of h n \<and> m_fingerTable ni = replicate 256 None \<and> m_data ni = []"

text \<open>A value whose expiry has been cut to seconds on the way.\<close>

definition to_seconds :: "bytes \<times> int \<Rightarrow> bytes \<times> int" where
  "to_seconds = (\<lambda>(v, e). (v, e div 10 ^ 9 * 10 ^ 9))"

text \<open>Expiry times that can be sent: from the epoch on, within 64 bits.\<close>

definition expires_ok :: "NodeInformation \<Rightarrow> bool" where
  "expires_ok ni \<longleftrightarrow> list_all (\<lambda>(k, v, e). 0 \<le> e \<and> e < 2 ^ 63) (m_data ni)"

text \<open>A peer that has been told its successor, with nothing else in its state.\<close>

definition joined_peer :: "(bytes \<Rightarrow> bytes) \<Rightarrow> addr \<Rightarrow> NodeInformation \<Rightarrow> NodeInformation" where
  "joined_peer h s nn = nn\<lparr>m_fingerTable := Some (node_of h s) # replicate 255 None, m_predecessor := None\<rparr>"

text \<open>The sample ring, with a third peer that knows the first one as its bootstrap node.\<close>

definition sample_joiner :: NodeInformation where
  "sample_joiner = setBootstrapNode (Some (node_of sample_hash (''a'', 1))) (NodeInformation_init sample_hash ''ccc'' 1)"

definition sample_join_net :: network where
  "sample_join_net = sample_net((''ccc'', 1) \<mapsto> sample_joiner)"

section \<open>A new peer in the gap between two neighbours\<close>

lemma gap_facts:
  fixes N :: "'i::linorder"
  assumes "is_in_range_loop N P S False False"
  shows "N \<noteq> P" "N \<noteq> S" "\<not> is_in_range_loop P N S False False"
    "is_in_range_loop y N S False False \<Longrightarrow> is_in_range_loop y P S False False"
    "is_in_range_loop y P N False False \<Longrightarrow> is_in_range_loop y P S False False"
    "is_in_range_loop y P N False True \<Longrightarrow> is_in_range_loop y P S False True"
    "is_in_range_loop y P S False True \<Longrightarrow> \<not> is_in_range_loop y P N False True \<Longrightarrow> is_in_range_loop y N S False True"
  using assms by (auto simp: range_simps split: if_splits)

lemma adjacent_Cons:
  "adjacent h (n # addrs) i j \<longleftrightarrow> \<not> is_in_range_loop (addr_id h n) i j False False \<and> adjacent h addrs i j"
  by (simp add: adjacent_def)

lemma ring_node_Cons: "ring_node h addrs f \<Longrightarrow> ring_node h (n # addrs) f"
  by (auto simp: ring_node_def)

lemma succ_addr_inj:
  assumes "stable_ring h addrs net" and "x \<in> set addrs" and "y \<in> set addrs" and "succ_addr net x = succ_addr net y"
  shows "x = y"
proof -
  have "node_of h x = node_of h y"
    using pred_of_succ [OF assms(1,2)] pred_of_succ [OF assms(1,3)] assms(4) by auto
  then show ?thesis using node_of_simps(3) by metis
qed

lemma arc_covered:
  assumes "stable_ring h addrs net"
  shows "\<exists>y \<in> set addrs. is_in_range_loop i (addr_id h y) (addr_id h (succ_addr net y)) False True"
proof -
  have "hd addrs \<in> set addrs" using assms by (simp add: stable_ring_def)
  then have "\<exists>l < card (addr_id h ` set addrs).
      \<exists>y \<in> set addrs. is_in_range_loop i (addr_id h y) (addr_id h (succ_addr net y)) False True"
    by (intro ring.route_induct [of h "(addrs, net)" "hd addrs" i, simplified prod.case]) (use assms in auto)
  then show ?thesis by blast
qed

lemma responsible_iff:
  assumes "stable_ring h addrs net" and "x \<in> set addrs"
  shows "responsible h addrs i (succ_addr net x) \<longleftrightarrow>
    is_in_range_loop i (addr_id h x) (addr_id h (succ_addr net x)) False True"
proof
  assume r: "responsible h addrs i (succ_addr net x)"
  obtain y where y: "y \<in> set addrs" "is_in_range_loop i (addr_id h y) (addr_id h (succ_addr net y)) False True"
    using arc_covered [OF assms(1)] by blast
  then have "succ_addr net y = succ_addr net x"
    using responsible_unique [OF assms(1) responsible_succ [OF assms(1) y] r] by simp
  then have "y = x" using succ_addr_inj assms y by blast
  with y show "is_in_range_loop i (addr_id h x) (addr_id h (succ_addr net x)) False True" by simp
qed (rule responsible_succ [OF assms])

lemma gap_of_succ:
  assumes ring: "stable_ring h addrs net" and p: "p \<in> set addrs" and n: "addr_id h n \<notin> ring_ids h addrs"
    and resp: "responsible h addrs (addr_id h n) (succ_addr net p)" and x: "x \<in> set addrs"
  shows "is_in_range_loop (addr_id h n) (addr_id h x) (addr_id h (succ_addr net x)) False False \<longleftrightarrow> x = p"
proof -
  have "succ_addr net x \<in> set addrs" using ring.succ_member [of h "(addrs, net)" x] ring x by simp
  then have "addr_id h n \<noteq> addr_id h (succ_addr net x)" "addr_id h n \<noteq> addr_id h x" using n x by (auto simp: ring_ids_def)
  then have "is_in_range_loop (addr_id h n) (addr_id h x) (addr_id h (succ_addr net x)) False False \<longleftrightarrow>
      responsible h addrs (addr_id h n) (succ_addr net x)"
    unfolding responsible_iff [OF ring x] by (auto simp: range_simps)
  also have "\<dots> \<longleftrightarrow> succ_addr net x = succ_addr net p" using responsible_unique [OF ring _ resp] resp by metis
  also have "\<dots> \<longleftrightarrow> x = p" using succ_addr_inj [OF ring x p] by blast
  finally show ?thesis .
qed

lemma succ_of_pred:
  assumes "stable_ring h addrs net" and "x \<in> set addrs" and "q \<in> set addrs" and "adjacent h addrs (addr_id h q) (addr_id h x)"
  shows "succ_addr net q = x"
proof -
  obtain nq where nq: "net q = Some nq" using stable_online [OF assms(1,3)] by blast
  note nb = stable_neighbours [OF assms(1,3) nq]
  have "addr_id h (succ_addr net q) = addr_id h x"
    by (rule nearest_unique [OF adjacentD [OF assms(4) nb(4)] adjacentD [OF nb(6) assms(2)]])
  then show ?thesis using addr_id_inj [OF assms(1) nb(4) assms(2)] by simp
qed

text \<open>
  The ring with the new peer \<open>n\<close> between \<open>p\<close> and its old neighbour: which fields have to change, and
  that the ring is then stable again.
\<close>

lemma insert_peer:
  assumes ring: "stable_ring h addrs net" and p: "p \<in> set addrs" and n: "addr_id h n \<notin> ring_ids h addrs"
    and resp: "responsible h addrs (addr_id h n) (succ_addr net p)"
    and old: "\<And>x ni. x \<in> set addrs \<Longrightarrow> net x = Some ni \<Longrightarrow> \<exists>d. smap_ok d \<and> net' x = Some (ni\<lparr>
        m_fingerTable := (if x = p then (m_fingerTable ni)[0 := Some (node_of h n)] else m_fingerTable ni),
        m_predecessor := (if x = succ_addr net p then Some (node_of h n) else m_predecessor ni), m_data := d\<rparr>)"
    and new: "net' n = Some nn" "ni_ok nn" "m_node nn = node_of h n" "m_predecessor nn = Some (node_of h p)"
      "m_fingerTable nn = Some (node_of h (succ_addr net p)) # replicate 255 None"
  shows "stable_ring h (n # addrs) net'"
proof -
  let ?s = "succ_addr net p"
  have s: "?s \<in> set addrs" using ring.succ_member [of h "(addrs, net)" p] ring p by simp
  have gap: "is_in_range_loop (addr_id h n) (addr_id h p) (addr_id h ?s) False False" using gap_of_succ [OF ring p n resp p] by simp
  note g = gap_facts [OF gap]
  obtain np where np: "net p = Some np" using stable_online [OF ring p] by blast
  have adj: "adjacent h addrs (addr_id h p) (addr_id h ?s)" using stable_neighbours(6) [OF ring p np] .
  have adj_n: "adjacent h addrs (addr_id h n) (addr_id h ?s)" "adjacent h addrs (addr_id h p) (addr_id h n)"
    using adj g(4,5) by (auto simp: adjacent_def list_all_iff)
  have irr: "\<not> is_in_range_loop i i k False False" "\<not> is_in_range_loop i k i False False" for i k :: bytes
    by (auto simp: range_simps)
  have "stable_peer h (n # addrs) n nn"
    using new(2-5) s p adj_n irr by (simp add: stable_peer_def adjacent_Cons ring_node_def list_all_iff)
  moreover have "stable_peer h (n # addrs) x nx" if x: "x \<in> set addrs" and nx: "net' x = Some nx" for x nx
  proof -
    obtain ni where ni: "net x = Some ni" using stable_online [OF ring x] by blast
    have ok: "stable_peer h addrs x ni" using ring x ni by (auto simp: stable_ring_def list_all_iff split: option.splits)
    obtain d where d: "smap_ok d" "nx = ni\<lparr>
        m_fingerTable := (if x = p then (m_fingerTable ni)[0 := Some (node_of h n)] else m_fingerTable ni),
        m_predecessor := (if x = ?s then Some (node_of h n) else m_predecessor ni), m_data := d\<rparr>"
      using old [OF x ni] nx by auto
    note nb = stable_neighbours [OF ring x ni]
    obtain q where q: "q \<in> set addrs" "m_predecessor ni = Some (node_of h q)" "adjacent h addrs (addr_id h q) (addr_id h x)"
      using nb(5) by blast
    have sq: "succ_addr net q = x" by (rule succ_of_pred [OF ring x q(1,3)])
    obtain fs where fs: "m_fingerTable ni = Some (node_of h (succ_addr net x)) # fs" "length fs = 255"
      "\<forall>f. Some f \<in> set fs \<longrightarrow> ring_node h addrs f"
      using first_finger_stable [OF ring x ni] by blast
    have "\<forall>f. Some f \<in> set fs \<longrightarrow> ring_node h (n # addrs) f"
      using fs(3) ring_node_Cons by blast
    moreover have "adjacent h (n # addrs) (addr_id h x) (addr_id h (if x = p then n else succ_addr net x))"
      using gap_of_succ [OF ring p n resp x] nb(6) adj_n(2) irr by (auto simp: adjacent_Cons)
    moreover have "adjacent h (n # addrs) (addr_id h (if x = ?s then n else q)) (addr_id h x)"
      using gap_of_succ [OF ring p n resp q(1)] sq q(3) adj_n(1) irr by (auto simp: adjacent_Cons)
    moreover have "ring_node h (n # addrs) (node_of h (if x = p then n else succ_addr net x))"
      "ring_node h (n # addrs) (node_of h (if x = ?s then n else q))"
      using nb(4) q(1) by (simp_all add: ring_node_def)
    ultimately show ?thesis
      using d fs(1,2) nb(1) q(2)
      by (cases "x = p"; cases "x = ?s")
        (simp_all add: stable_peer_def ni_ok_def key_bits_def list_all_iff ball_option)
  qed
  moreover have "net' x \<noteq> None" if "x \<in> set addrs" for x
    using old [OF that] stable_online [OF ring that] by fastforce
  ultimately show ?thesis
    using ring new(1) n unfolding stable_ring_def
    by (auto simp: list_all_iff ring_ids_def split: option.splits)
qed

section \<open>The join\<close>

lemma fst_to_seconds [simp]: "map_option fst (map_option to_seconds x) = map_option fst x"
  by (cases x) (auto simp: to_seconds_def)

lemma expires_ok_map_of:
  "smap_ok (m_data ni) \<Longrightarrow> expires_ok ni \<longleftrightarrow> (\<forall>k v e. map_of (m_data ni) k = Some (v, e) \<longrightarrow> 0 \<le> e \<and> e < 2 ^ 63)"
  using smap_ok_distinct [of "m_data ni"] by (fastforce simp: expires_ok_def list_all_iff map_of_eq_Some_iff)

lemma to_seconds_range:
  assumes "to_seconds (v, e) = (v', e')" and "0 \<le> e" and "e < 2 ^ 63"
  shows "0 \<le> e' \<and> e' < 2 ^ 63"
proof -
  have "e' = e div 10 ^ 9 * 10 ^ 9" using assms(1) by (simp add: to_seconds_def)
  moreover have "e div 10 ^ 9 * 10 ^ 9 + e mod 10 ^ 9 = e" by (rule div_mult_mod_eq)
  moreover have "0 \<le> e mod 10 ^ 9" "0 \<le> e div 10 ^ 9 * 10 ^ 9" using assms(2) by simp_all
  ultimately show ?thesis using assms(3) by linarith
qed

lemma stable_ring_cong:
  "(\<And>a. a \<in> set addrs \<Longrightarrow> net' a = net a) \<Longrightarrow> stable_ring h addrs net' \<longleftrightarrow> stable_ring h addrs net"
  by (auto simp: stable_ring_def list_all_iff)

lemma handover:
  assumes "ni_ok sn" and "m_predecessor sn = Some (node_of h p)"
    and "is_in_range_loop (addr_id h n) (addr_id h p) (NI_getId h sn) False False"
    and "\<forall>(k, v, e) \<in> set (m_data sn). 0 \<le> e \<and> e < 2 ^ 63" and "ni_ok ni" and "m_data ni = []"
  shows "\<exists>d items dn. server_getDataItemsOnJoin h (buildNode h (node_of h n)) sn = Inr (sn\<lparr>m_data := d\<rparr>, items) \<and>
    storeDataItems items ni = Inr (ni\<lparr>m_data := dn\<rparr>) \<and> smap_ok d \<and> smap_ok dn \<and>
    (\<forall>k. map_of d k = (if handed_over h (node_of h p) (node_of h n) k then None else map_of (m_data sn) k)) \<and>
    (\<forall>k. map_of dn k =
       (if handed_over h (node_of h p) (node_of h n) k then map_option to_seconds (map_of (m_data sn) k) else None))"
proof -
  let ?P = "handed_over h (node_of h p) (node_of h n)"
  let ?es = "filter (\<lambda>e. ?P (fst e)) (m_data sn)"
  let ?f = "\<lambda>(k, v, e). (k, v, e div 10 ^ 9 * 10 ^ 9 :: int)"
  let ?d = "fold smap_erase (map fst ?es) (m_data sn)"
  let ?dn = "fold (\<lambda>(k, v). smap_assign k v) (map ?f ?es) []"
  have ok: "smap_ok (m_data sn)" using assms(1) by (simp add: ni_ok_def)
  have donor: "server_getDataItemsOnJoin h (buildNode h (node_of h n)) sn = Inr (sn\<lparr>m_data := ?d\<rparr>,
      map (\<lambda>(k, v, e). \<lparr>di_key = k, di_data = v, di_expires = expires_to_wire e\<rparr>) ?es)"
    using join_donor [OF assms(1,2), of h "buildNode h (node_of h n)"] assms(3) by (simp add: deleteDataAssignedToPredecessor_def)
  have "\<forall>(k, v, e) \<in> set ?es. 0 \<le> e \<and> e < 2 ^ 63" using assms(4) by auto
  from storeDataItems_fold [OF this, of ni] have store: "storeDataItems
      (map (\<lambda>(k, v, e). \<lparr>di_key = k, di_data = v, di_expires = expires_to_wire e\<rparr>) ?es) ni = Inr (ni\<lparr>m_data := ?dn\<rparr>)"
    by (simp add: assms(6))
  have dist: "distinct (map fst (map ?f ?es))"
    using smap_ok_distinct [OF smap_ok_filter [OF ok]] by (simp add: comp_def case_prod_unfold)
  have "map_of ?d k = (if ?P k then None else map_of (m_data sn) k)" for k
    using join_donor_data [OF assms(1), of ?P k] by (simp add: deleteDataAssignedToPredecessor_def)
  moreover have "map_of ?dn k = (if ?P k then map_option to_seconds (map_of (m_data sn) k) else None)" for k
    using smap.find_assign_list [OF smap.ok_empty dist, of k] map_of_trunc [of "\<lambda>e. e div 10 ^ 9 * 10 ^ 9" ?es k]
    by (cases "map_of (m_data sn) k") (auto simp: map_of_filter_key to_seconds_def)
  ultimately show ?thesis
    using donor store ok smap.ok_erase_list smap.ok_assign_list [OF smap.ok_empty] by blast
qed

lemma fresh_no_successor: "fresh_peer h n ni \<Longrightarrow> getSuccessor ni = None"
proof -
  have "first_finger (replicate k None) = None" for k by (induction k) simp_all
  then show "fresh_peer h n ni \<Longrightarrow> getSuccessor ni = None" by (simp add: fresh_peer_def getSuccessor_def)
qed

text \<open>The bootstrap node accepts the answer and names the successor; what is left is to fetch the items.\<close>

lemma join_admitted:
  assumes ring: "stable_ring h addrs net" and p: "p \<in> set addrs" and n: "addr_id h n \<notin> ring_ids h addrs"
    and resp: "responsible h addrs (addr_id h n) (succ_addr net p)" and b: "b \<in> set addrs"
    and nn: "net n = Some nn" "fresh_peer h n nn"
    and len: "\<And>x. length (h x) = 32" "\<And>x. length (sha1 x) = 20"
    and pow: "pow_solve sha1 (node_name (fst n) (snd n)) (unat (getDifficulty bst)) 0 = Inr r"
  shows "Dht_join h sha1 kj bst n (node_of h b) net =
    (case getDataItemsOnJoinHelper h (kj_nested_wait kj) n (Some (node_of h (succ_addr net p)))
            (net(n \<mapsto> joined_peer h (succ_addr net p) nn)) of
       Inl e \<Rightarrow> Some (net(n \<mapsto> joined_peer h (succ_addr net p) nn), Inl e)
     | Inr net3 \<Rightarrow> Some (net3, Inr ()))"
proof -
  let ?s = "succ_addr net p" and ?n1 = "setPredecessor None nn"
  let ?net1 = "net(n \<mapsto> ?n1)"
  have new: "n \<notin> set addrs" using n by (auto simp: ring_ids_def)
  have ring1: "stable_ring h addrs ?net1" by (rule stable_ring_cong [THEN iffD2, OF _ ring]) (use new in auto)
  have node: "getNode nn = node_of h n" using nn(2) by (simp add: fresh_peer_def getNode_def)
  obtain bn where bn: "net b = Some bn" using stable_online [OF ring b] by blast
  have neq: "b \<noteq> n" using b new by auto
  obtain resp' where r: "r = (resp', pow_bits sha1 resp')" "take (length (node_name (fst n) (snd n))) resp' = node_name (fst n) (snd n)"
    "take (unat (getDifficulty bst)) (pow_bits sha1 resp') = replicate (unat (getDifficulty bst)) (CHR ''0'')"
    using pow_solve_cases [of sha1 "node_name (fst n) (snd n)" "unat (getDifficulty bst)" 0] pow by auto
  have puzzle: "server_getPoWPuzzleOnJoin h bst (buildNode h (node_of h n)) = (node_name (fst n) (snd n), getDifficulty bst)"
    by (simp add: server_getPoWPuzzleOnJoin_def Let_def node_name_def)
  have acc: "pow_accepts sha1 (getDifficulty bst) (node_name (fst n) (snd n)) resp' (pow_bits sha1 resp')"
    using r by (simp add: pow_accepts_def)
  have "found h addrs (addr_id h n) (PeerImpl_getSuccessor h LOCAL (net_env h LOCAL ?net1 0) bn (addr_id h n))"
    by (rule lookup_local_ring [OF ring1 b]) (use bn neq len in \<open>simp_all add: length_addr_id\<close>)
  then obtain a where a: "PeerImpl_getSuccessor h LOCAL (net_env h LOCAL ?net1 0) bn (addr_id h n) = Some (Inr (Some (node_of h a)))"
    "responsible h addrs (addr_id h n) a" by (rule foundE)
  have "a = ?s" using responsible_unique [OF ring a(2) resp] .
  then have send: "server_sendPoWPuzzleResponse h sha1 (kj_throws kj) LOCAL (net_env h LOCAL ?net1 0) bn bst (buildNode h (node_of h n))
      resp' (pow_bits sha1 resp') = Some (Inr (Some (Some (buildNode h (node_of h ?s)))))"
    using a(1) acc by (simp add: server_sendPoWPuzzleResponse_def Let_def node_name_def nodeFromReader_opt_simps)
  have "setSuccessor (Some (node_of h ?s)) ?n1 = joined_peer h ?s nn"
    using nn(2) by (simp add: setSuccessor_def setPredecessor_def fresh_peer_def joined_peer_def numeral_eq_Suc)
  then have net2: "update_peer n (setSuccessor (Some (node_of h ?s))) ?net1 = net(n \<mapsto> joined_peer h ?s nn)"
    by (simp add: update_peer_def)
  have ne: "pow_bits sha1 resp' \<noteq> []" using length_pow_bits [of sha1 resp'] len(2) by auto
  have "getSuccessor (joined_peer h ?s nn) = Some (node_of h ?s)" by (simp add: getSuccessor_def joined_peer_def)
  then show ?thesis
    using neq nn(1) bn node pow r(1) ne send net2 by (simp add: Dht_join_def puzzle Let_def nodeFromReader_opt_simps)
qed

lemma join_result:
  assumes ring: "stable_ring h addrs net" and p: "p \<in> set addrs" and n: "addr_id h n \<notin> ring_ids h addrs"
    and resp: "responsible h addrs (addr_id h n) (succ_addr net p)" and b: "b \<in> set addrs"
    and nn: "net n = Some nn" "fresh_peer h n nn" and sn: "net (succ_addr net p) = Some sn"
    and exp: "\<forall>(k, v, e) \<in> set (m_data sn). 0 \<le> e \<and> e < 2 ^ 63"
    and len: "\<And>x. length (h x) = 32" "\<And>x. length (sha1 x) = 20"
    and pow: "pow_solve sha1 (node_name (fst n) (snd n)) (unat (getDifficulty bst)) 0 = Inr r" and wait: "kj_nested_wait kj"
  shows "\<exists>d dn. Dht_join h sha1 kj bst n (node_of h b) net = Some (net(
      succ_addr net p \<mapsto> sn\<lparr>m_data := d\<rparr>,
      n \<mapsto> nn\<lparr>m_fingerTable := Some (node_of h (succ_addr net p)) # replicate 255 None, m_predecessor := None, m_data := dn\<rparr>), Inr ()) \<and>
    smap_ok d \<and> smap_ok dn \<and>
    (\<forall>k. map_of d k = (if handed_over h (node_of h p) (node_of h n) k then None else map_of (m_data sn) k)) \<and>
    (\<forall>k. map_of dn k =
       (if handed_over h (node_of h p) (node_of h n) k then map_option to_seconds (map_of (m_data sn) k) else None))"
proof -
  let ?s = "succ_addr net p" and ?n2 = "joined_peer h (succ_addr net p) nn"
  have s: "?s \<in> set addrs" using ring.succ_member [of h "(addrs, net)" p] ring p by simp
  have neq: "?s \<noteq> n" using n s by (auto simp: ring_ids_def)
  have node: "getNode ?n2 = node_of h n" using nn(2) by (simp add: fresh_peer_def getNode_def joined_peer_def)
  have "ni_ok ?n2" "m_data ?n2 = []" using nn(2) by (simp_all add: ni_ok_def key_bits_def fresh_peer_def joined_peer_def)
  moreover have "ni_ok sn" "NI_getId h sn = addr_id h ?s" "m_predecessor sn = Some (node_of h p)"
    using ring s sn stable_neighbours(2) [OF ring s sn] pred_of_succ [OF ring p]
    by (auto elim!: stable_peerE [of h addrs net ?s])
  moreover have "is_in_range_loop (addr_id h n) (addr_id h p) (addr_id h ?s) False False"
    using gap_of_succ [OF ring p n resp p] by simp
  ultimately obtain d items dn where h: "server_getDataItemsOnJoin h (buildNode h (node_of h n)) sn = Inr (sn\<lparr>m_data := d\<rparr>, items)"
    "storeDataItems items ?n2 = Inr (?n2\<lparr>m_data := dn\<rparr>)" "smap_ok d" "smap_ok dn"
    "\<forall>k. map_of d k = (if handed_over h (node_of h p) (node_of h n) k then None else map_of (m_data sn) k)"
    "\<forall>k. map_of dn k =
       (if handed_over h (node_of h p) (node_of h n) k then map_option to_seconds (map_of (m_data sn) k) else None)"
    using handover [of sn h p n ?n2] exp by auto
  have "getDataItemsOnJoinHelper h True n (Some (node_of h ?s)) (net(n \<mapsto> ?n2)) =
      Inr (net(n \<mapsto> ?n2, ?s \<mapsto> sn\<lparr>m_data := d\<rparr>, n \<mapsto> ?n2\<lparr>m_data := dn\<rparr>))"
    using neq sn h(1,2) node by (simp add: getDataItemsOnJoinHelper_def Let_def)
  moreover have "net(n \<mapsto> ?n2, ?s \<mapsto> sn\<lparr>m_data := d\<rparr>, n \<mapsto> ?n2\<lparr>m_data := dn\<rparr>) =
      net(?s \<mapsto> sn\<lparr>m_data := d\<rparr>, n \<mapsto> ?n2\<lparr>m_data := dn\<rparr>)" using neq by (auto simp: fun_eq_iff)
  ultimately show ?thesis
    using h(3-6) wait unfolding join_admitted [OF ring p n resp b nn len pow]
    by (intro exI [of _ d] exI [of _ dn] conjI) (simp_all add: joined_peer_def)
qed

text \<open>A join that may not wait in the callback leaves the ring and the items as they were.\<close>

lemma join_refused:
  assumes "stable_ring h addrs net" and "p \<in> set addrs" and "addr_id h n \<notin> ring_ids h addrs"
    and "responsible h addrs (addr_id h n) (succ_addr net p)" and "b \<in> set addrs"
    and "net n = Some nn" and "fresh_peer h n nn" and "\<And>x. length (h x) = 32" and "\<And>x. length (sha1 x) = 20"
    and "pow_solve sha1 (node_name (fst n) (snd n)) (unat (getDifficulty bst)) 0 = Inr r" and "\<not> kj_nested_wait kj"
    and net': "net' = net(n \<mapsto> joined_peer h (succ_addr net p) nn)"
  shows "Dht_join h sha1 kj bst n (node_of h b) net =
      Some (net', Inl (Rpc_Exception ''wait() is not allowed from within event callbacks.''))"
    "stable_ring h addrs net'" "data_at net' a k = data_at net a k"
proof -
  have new: "n \<notin> set addrs" using assms(3) by (auto simp: ring_ids_def)
  show "Dht_join h sha1 kj bst n (node_of h b) net =
      Some (net', Inl (Rpc_Exception ''wait() is not allowed from within event callbacks.''))"
    using assms(11) unfolding join_admitted [OF assms(1-10)] net' by (simp add: getDataItemsOnJoinHelper_def)
  show "stable_ring h addrs net'" unfolding net' by (rule stable_ring_cong [THEN iffD2, OF _ assms(1)]) (use new in auto)
  show "data_at net' a k = data_at net a k" unfolding net' using assms(6) by (simp add: data_at_def getData_eq joined_peer_def)
qed

section \<open>Stabilising after a join\<close>

lemma stabilize_new:
  assumes "net n = Some nn" "getSuccessor nn = Some (node_of h s)" "m_node nn = node_of h n"
    and "net s = Some sn" "m_predecessor sn = Some (node_of h p)" "NI_getId h sn = addr_id h s" "n \<noteq> s"
    and "is_in_range_loop (addr_id h n) (addr_id h p) (addr_id h s) False False"
  shows "stabilize h n net = net(s \<mapsto> sn\<lparr>m_predecessor := Some (node_of h n)\<rparr>)"
proof -
  note g = gap_facts [OF assms(8)]
  have "NI_getId h nn = addr_id h n" "getNode nn = node_of h n" using assms(3) by (simp_all add: NI_getId_def getNode_def)
  then show ?thesis
    using assms g(1,3)
    by (auto simp: stabilize_def net_call_def server_getPredecessor_def getPredecessor_def nodeFromReader_opt_simps
        send_notify_def update_peer_def server_notify_def setPredecessor_def Let_def)
qed

lemma stabilize_pred:
  assumes "net p = Some np" "getSuccessor np = Some (node_of h s)" "m_node np = node_of h p"
    and "net s = Some sn" "m_predecessor sn = Some (node_of h n)" "n \<noteq> p"
    and "net n = Some nn" "m_predecessor nn = None"
    and "is_in_range_loop (addr_id h n) (addr_id h p) (addr_id h s) False False"
  shows "stabilize h p net =
    net(p \<mapsto> setSuccessor (Some (node_of h n)) np, n \<mapsto> nn\<lparr>m_predecessor := Some (node_of h p)\<rparr>)"
proof -
  note g = gap_facts [OF assms(9)]
  have "NI_getId h np = addr_id h p" "getNode np = node_of h p" using assms(3) by (simp_all add: NI_getId_def getNode_def)
  then show ?thesis
    using assms g(1)
    by (simp add: stabilize_def net_call_def server_getPredecessor_def getPredecessor_def nodeFromReader_opt_simps
        send_notify_def update_peer_def notify_None)
qed

lemma responsibleI:
  assumes "z \<in> set addrs" "w \<in> set addrs" "adjacent h addrs (addr_id h w) (addr_id h z)"
    "is_in_range_loop i (addr_id h w) (addr_id h z) False True"
  shows "responsible h addrs i z"
proof -
  have "ring_successor (ring_ids h addrs) i = addr_id h z"
  proof (rule ring_successor_eqI [where a = "addr_id h w"])
    show "\<not> is_in_range_loop y (addr_id h w) (addr_id h z) False False" if "y \<in> ring_ids h addrs" for y
      using that adjacentD [OF assms(3)] by (auto simp: ring_ids_def simp del: split_paired_All)
  qed (use assms in \<open>auto simp: ring_ids_def\<close>)
  with assms(1) show ?thesis by (simp add: responsible_def)
qed

lemma insert_gap:
  assumes ring: "stable_ring h addrs net" and p: "p \<in> set addrs" and n: "addr_id h n \<notin> ring_ids h addrs"
    and resp: "responsible h addrs (addr_id h n) (succ_addr net p)"
  shows "is_in_range_loop (addr_id h n) (addr_id h p) (addr_id h (succ_addr net p)) False False"
    "adjacent h (n # addrs) (addr_id h n) (addr_id h (succ_addr net p))"
    "adjacent h (n # addrs) (addr_id h p) (addr_id h n)"
proof -
  show gap: "is_in_range_loop (addr_id h n) (addr_id h p) (addr_id h (succ_addr net p)) False False"
    using gap_of_succ [OF ring p n resp p] by simp
  obtain np where np: "net p = Some np" using stable_online [OF ring p] by blast
  have irr: "\<not> is_in_range_loop i i k False False" "\<not> is_in_range_loop i k i False False" for i k :: bytes
    by (auto simp: range_simps)
  show "adjacent h (n # addrs) (addr_id h n) (addr_id h (succ_addr net p))" "adjacent h (n # addrs) (addr_id h p) (addr_id h n)"
    using stable_neighbours(6) [OF ring p np] gap_facts(4,5) [OF gap] irr by (auto simp: adjacent_def list_all_iff)
qed

text \<open>Where a key belongs once the new peer is in the ring.\<close>

lemma responsible_after_insert:
  assumes ring: "stable_ring h addrs net" and ring': "stable_ring h (n # addrs) net'" and p: "p \<in> set addrs"
    and n: "addr_id h n \<notin> ring_ids h addrs" and resp: "responsible h addrs (addr_id h n) (succ_addr net p)"
    and a: "responsible h addrs i a" and a': "responsible h (n # addrs) i a'"
  shows "if is_in_range_loop i (addr_id h p) (addr_id h n) False True then a = succ_addr net p \<and> a' = n else a' = a"
proof -
  note gap = insert_gap [OF ring p n resp]
  note g = gap_facts [OF gap(1)]
  have s: "succ_addr net y \<in> set addrs" if "y \<in> set addrs" for y
    using ring.succ_member [of h "(addrs, net)" y] ring that by simp
  have new: "a' = z" if "responsible h (n # addrs) i z" for z using responsible_unique [OF ring' a' that] .
  show ?thesis
  proof (cases "is_in_range_loop i (addr_id h p) (addr_id h n) False True")
    case True
    have "a' = n" by (intro new responsibleI [where w = p]) (use gap(3) p True in simp_all)
    moreover have "a = succ_addr net p"
      using responsible_unique [OF ring a responsible_succ [OF ring p g(6) [OF True]]] .
    ultimately show ?thesis using True by simp
  next
    case False
    obtain y where y: "y \<in> set addrs" "is_in_range_loop i (addr_id h y) (addr_id h (succ_addr net y)) False True"
      using arc_covered [OF ring] by blast
    have ay: "a = succ_addr net y" using responsible_unique [OF ring a responsible_succ [OF ring y]] .
    have "a' = succ_addr net y"
    proof (cases "y = p")
      case True
      then show ?thesis
        using gap(2) g(7) y False s [OF p] by (intro new responsibleI [where w = n]) simp_all
    next
      case False
      obtain ny where ny: "net y = Some ny" using stable_online [OF ring y(1)] by blast
      have "adjacent h (n # addrs) (addr_id h y) (addr_id h (succ_addr net y))"
        using stable_neighbours(6) [OF ring y(1) ny] gap_of_succ [OF ring p n resp y(1)] False by (simp add: adjacent_Cons)
      then show ?thesis using y s by (intro new responsibleI [where w = y]) simp_all
    qed
    with ay False show ?thesis by simp
  qed
qed

lemma getSuccessor_upd:
  "getSuccessor (ni\<lparr>m_data := d\<rparr>) = getSuccessor ni" "getSuccessor (ni\<lparr>m_predecessor := q\<rparr>) = getSuccessor ni"
  by (simp_all add: getSuccessor_def cong: option.case_cong)

lemma stabilize_joined:
  assumes ring: "stable_ring h addrs net" and p: "p \<in> set addrs" and n: "addr_id h n \<notin> ring_ids h addrs"
    and resp: "responsible h addrs (addr_id h n) s" and s: "s = succ_addr net p"
    and sn: "net s = Some sn" and nn: "m_node nn = node_of h n"
    and net1: "net1 = net(s \<mapsto> sn\<lparr>m_data := d\<rparr>,
      n \<mapsto> nn\<lparr>m_fingerTable := Some (node_of h s) # replicate 255 None, m_predecessor := None, m_data := dn\<rparr>)"
  shows "stabilize h n net1 = net(
    n \<mapsto> nn\<lparr>m_fingerTable := Some (node_of h s) # replicate 255 None, m_predecessor := None, m_data := dn\<rparr>,
    s \<mapsto> sn\<lparr>m_data := d, m_predecessor := Some (node_of h n)\<rparr>)"
proof -
  let ?n1 = "nn\<lparr>m_fingerTable := Some (node_of h s) # replicate 255 None, m_predecessor := None, m_data := dn\<rparr>"
  have mem: "s \<in> set addrs" using ring.succ_member [of h "(addrs, net)" p] ring p s by simp
  have neq: "n \<noteq> s" using n mem by (auto simp: ring_ids_def)
  note gap = insert_gap [OF ring p n resp [unfolded s], folded s]
  have sp: "m_predecessor sn = Some (node_of h p)" using pred_of_succ [OF ring p] sn s by simp
  have "stabilize h n net1 = net1(s \<mapsto> sn\<lparr>m_data := d\<rparr>\<lparr>m_predecessor := Some (node_of h n)\<rparr>)"
    by (rule stabilize_new [where nn = ?n1 and p = p])
      (use neq nn sp stable_neighbours(2) [OF ring mem sn] gap(1) in \<open>simp_all add: net1 getSuccessor_def NI_getId_def\<close>)
  then show ?thesis using neq by (simp add: net1 fun_upd_twist)
qed

lemma stabilize_elsewhere:
  assumes ring: "stable_ring h addrs net" and p: "p \<in> set addrs" and n: "addr_id h n \<notin> ring_ids h addrs"
    and resp: "responsible h addrs (addr_id h n) s" and s: "s = succ_addr net p"
    and sn: "net s = Some sn" and nn: "m_node nn = node_of h n"
    and net1: "net1 = net(s \<mapsto> sn\<lparr>m_data := d\<rparr>,
      n \<mapsto> nn\<lparr>m_fingerTable := Some (node_of h s) # replicate 255 None, m_predecessor := None, m_data := dn\<rparr>)"
    and x: "x \<in> set addrs" "x \<noteq> p"
  shows "stabilize h x (stabilize h n net1) = stabilize h n net1"
proof -
  obtain nx where nx: "net x = Some nx" using stable_online [OF ring x(1)] by blast
  note nb = stable_neighbours [OF ring x(1) nx]
  let ?t = "succ_addr net x"
  have t: "?t \<in> set addrs" using ring.succ_member [of h "(addrs, net)" x] ring x(1) by simp
  have new: "n \<notin> set addrs" using n by (auto simp: ring_ids_def)
  obtain nt where nt: "net ?t = Some nt" "m_predecessor nt = Some (node_of h x)" using pred_of_succ [OF ring x(1)] by auto
  have "?t \<noteq> s"
  proof
    assume "?t = s"
    then have "m_predecessor nt = Some (node_of h p)" using pred_of_succ [OF ring p] nt(1) s by auto
    with nt(2) have "node_of h x = node_of h p" by simp
    from arg_cong [OF this, of addr_of] x(2) show False by simp
  qed
  define net' where "net' = stabilize h n net1"
  have net': "net' y = (if y = s then Some (sn\<lparr>m_data := d, m_predecessor := Some (node_of h n)\<rparr>) else net y)" if "y \<in> set addrs" for y
    using that new by (auto simp: net'_def stabilize_joined [OF ring p n resp s sn nn net1])
  obtain nx' where nx': "net' x = Some nx'" "getSuccessor nx' = Some (node_of h ?t)" "NI_getId h nx' = addr_id h x"
    using net' [OF x(1)] nx nb(2,3) sn by (cases "x = s") (auto simp: getSuccessor_upd NI_getId_def)
  have "net' ?t = Some nt" using net' [OF t] \<open>?t \<noteq> s\<close> nt(1) by simp
  with nx' nt(2) show ?thesis
    unfolding net'_def [symmetric]
    by (simp add: stabilize_def net_call_def server_getPredecessor_def getPredecessor_def nodeFromReader_opt_simps)
qed

lemma join_then_stabilize:
  assumes ring: "stable_ring h addrs net" and p: "p \<in> set addrs" and n: "addr_id h n \<notin> ring_ids h addrs"
    and resp: "responsible h addrs (addr_id h n) s" and s: "s = succ_addr net p"
    and sn: "net s = Some sn" and nn: "m_node nn = node_of h n" and d: "smap_ok d" "smap_ok dn"
    and net1: "net1 = net(s \<mapsto> sn\<lparr>m_data := d\<rparr>,
      n \<mapsto> nn\<lparr>m_fingerTable := Some (node_of h s) # replicate 255 None, m_predecessor := None, m_data := dn\<rparr>)"
    and net2: "net2 = stabilize h p (stabilize h n net1)"
  shows "stable_ring h (n # addrs) net2"
    "data_at net2 a k = (if a = n then map_option fst (map_of dn k) else if a = s then map_option fst (map_of d k) else data_at net a k)"
    "x \<notin> set (n # addrs) \<Longrightarrow> net2 x = net x"
    "net2 x = Some ni \<Longrightarrow> m_data ni = (if x = n then dn else if x = s then d else m_data (the (net x)))"
    "set xs \<subseteq> set addrs \<Longrightarrow> p \<in> set xs \<Longrightarrow> fold (stabilize h) xs (stabilize h n net1) = net2"
proof -
  let ?n1 = "nn\<lparr>m_fingerTable := Some (node_of h s) # replicate 255 None, m_predecessor := None, m_data := dn\<rparr>"
  let ?s1 = "sn\<lparr>m_data := d\<rparr>"
  have mem: "s \<in> set addrs" using ring.succ_member [of h "(addrs, net)" p] ring p s by simp
  have neq: "n \<noteq> s" "n \<noteq> p" "n \<notin> set addrs" using n mem p by (auto simp: ring_ids_def)
  note gap = insert_gap [OF ring p n resp [unfolded s], folded s]
  obtain np where np: "net p = Some np" using stable_online [OF ring p] by blast
  note nb = stable_neighbours [OF ring p np]
  have st1: "stabilize h n net1 = net(n \<mapsto> ?n1, s \<mapsto> ?s1\<lparr>m_predecessor := Some (node_of h n)\<rparr>)"
    using stabilize_joined [OF ring p n resp s sn nn net1] by simp
  define np' where "np' = (if p = s then ?s1\<lparr>m_predecessor := Some (node_of h n)\<rparr> else np)"
  have np': "stabilize h n net1 p = Some np'" "getSuccessor np' = Some (node_of h s)" "m_node np' = node_of h p"
    using neq np nb(1,3) sn unfolding st1 by (auto simp: np'_def getSuccessor_upd s [symmetric])
  have st2: "net2 = (stabilize h n net1)(p \<mapsto> setSuccessor (Some (node_of h n)) np',
      n \<mapsto> ?n1\<lparr>m_predecessor := Some (node_of h p)\<rparr>)"
    unfolding net2
    by (rule stabilize_pred [where net = "stabilize h n net1" and p = p and s = s and np = np' and sn = "?s1\<lparr>m_predecessor := Some (node_of h n)\<rparr>"])
      (use neq gap(1) np' in \<open>simp_all add: st1\<close>)
  show "stable_ring h (n # addrs) net2"
  proof (rule insert_peer [OF ring p n resp [unfolded s], where nn = "?n1\<lparr>m_predecessor := Some (node_of h p)\<rparr>"])
    fix x ni assume x: "x \<in> set addrs" "net x = Some ni"
    have "smap_ok (m_data ni)" using ring x by (auto elim!: stable_peerE [of h addrs net x] simp: ni_ok_def)
    then show "\<exists>d. smap_ok d \<and> net2 x = Some (ni\<lparr>
        m_fingerTable := (if x = p then (m_fingerTable ni)[0 := Some (node_of h n)] else m_fingerTable ni),
        m_predecessor := (if x = succ_addr net p then Some (node_of h n) else m_predecessor ni), m_data := d\<rparr>)"
      using x neq sn np d(1) by (intro exI [of _ "if x = s then d else m_data ni"])
        (auto simp: st2 st1 np'_def setSuccessor_def s [symmetric])
  qed (use nn d in \<open>simp_all add: st2 ni_ok_def key_bits_def s [symmetric]\<close>)
  show "data_at net2 a k = (if a = n then map_option fst (map_of dn k) else if a = s then map_option fst (map_of d k) else data_at net a k)"
    using neq np sn by (auto simp: st2 st1 np'_def data_at_def getData_eq setSuccessor_def)
  show "x \<notin> set (n # addrs) \<Longrightarrow> net2 x = net x" using mem p by (auto simp: st2 st1)
  show "net2 x = Some ni \<Longrightarrow> m_data ni = (if x = n then dn else if x = s then d else m_data (the (net x)))"
    using neq np sn by (auto simp: st2 st1 np'_def setSuccessor_def split: if_splits)
  have after: "fold (stabilize h) xs net2 = net2" if "set xs \<subseteq> set addrs" for xs
    using that by (induction xs) (simp_all add: stabilize_ring [OF \<open>stable_ring h (n # addrs) net2\<close>])
  have before: "stabilize h x (stabilize h n net1) = stabilize h n net1" if "x \<in> set addrs" "x \<noteq> p" for x
    by (rule stabilize_elsewhere [OF ring p n resp s sn nn net1 that])
  show "fold (stabilize h) xs (stabilize h n net1) = net2" if "set xs \<subseteq> set addrs" "p \<in> set xs" for xs
    using that
  proof (induction xs)
    case (Cons x xs)
    then show ?case using before [of x] after [of xs] net2 by (cases "x = p") auto
  qed simp
qed

section \<open>A join and what follows it\<close>

lemma expires_after_join:
  assumes ring: "stable_ring h addrs net" and s: "s \<in> set addrs" "net s = Some sn"
    and all: "\<And>y ny. y \<in> set addrs \<Longrightarrow> net y = Some ny \<Longrightarrow> expires_ok ny"
    and d: "\<And>k. map_of d k = (if P k then None else map_of (m_data sn) k)"
    and dn: "\<And>k. map_of dn k = (if P k then map_option to_seconds (map_of (m_data sn) k) else None)"
    and nx: "m_data nx = (if x = n then dn else if x = s then d else m_data (the (net x)))" "x \<in> set (n # addrs)"
    and ok: "smap_ok (m_data nx)"
  shows "expires_ok nx"
proof -
  have old: "0 \<le> e \<and> e < 2 ^ 63" if "y \<in> set addrs" "net y = Some ny" "map_of (m_data ny) k = Some (v, e)" for y ny k v e
  proof -
    have "smap_ok (m_data ny)" using ring that by (auto elim!: stable_peerE [of h addrs net y] simp: ni_ok_def)
    then show ?thesis using all [OF that(1,2)] that(3) by (simp add: expires_ok_map_of)
  qed
  have "0 \<le> e \<and> e < 2 ^ 63" if k: "map_of (m_data nx) k = Some (v, e)" for k v e
  proof -
    consider "x = n" | "x \<noteq> n" "x = s" | "x \<in> set addrs" "x \<noteq> n" "x \<noteq> s" using nx(2) by auto
    then show ?thesis
    proof cases
      case 1
      with nx(1) k dn [of k] obtain v0 e0 where "map_of (m_data sn) k = Some (v0, e0)" "to_seconds (v0, e0) = (v, e)"
        by (auto split: if_splits)
      with old [OF s] to_seconds_range show ?thesis by blast
    next
      case 2
      with nx(1) k d [of k] have "map_of (m_data sn) k = Some (v, e)" by (auto split: if_splits)
      with old [OF s] show ?thesis by blast
    next
      case 3
      then obtain nx0 where "net x = Some nx0" using stable_online [OF ring] by blast
      with nx(1) k 3 old [OF 3(1)] show ?thesis by simp
    qed
  qed
  then show ?thesis using ok by (simp add: expires_ok_map_of)
qed

lemma join_inserts:
  assumes "stable_ring h addrs net" and "p \<in> set addrs" and "addr_id h n \<notin> ring_ids h addrs"
    and "responsible h addrs (addr_id h n) (succ_addr net p)" and "b \<in> set addrs"
    and "net n = Some nn" and "fresh_peer h n nn" and "net (succ_addr net p) = Some sn"
    and "\<forall>(k, v, e) \<in> set (m_data sn). 0 \<le> e \<and> e < 2 ^ 63"
    and "\<And>x. length (h x) = 32" and "\<And>x. length (sha1 x) = 20"
    and "pow_solve sha1 (node_name (fst n) (snd n)) (unat (getDifficulty bst)) 0 = Inr r" and "kj_nested_wait kj"
  shows "\<exists>net1. Dht_join h sha1 kj bst n (node_of h b) net = Some (net1, Inr ()) \<and>
    stable_ring h (n # addrs) (stabilize h p (stabilize h n net1)) \<and>
    (\<forall>k a a'. responsible h addrs (h k) a \<longrightarrow> responsible h (n # addrs) (h k) a' \<longrightarrow>
       data_at (stabilize h p (stabilize h n net1)) a' k = data_at net a k) \<and>
    (\<forall>x. x \<notin> set (n # addrs) \<longrightarrow> stabilize h p (stabilize h n net1) x = net x) \<and>
    (\<forall>x nx. stabilize h p (stabilize h n net1) x = Some nx \<longrightarrow> x \<in> set (n # addrs) \<longrightarrow>
       (\<forall>y ny. y \<in> set addrs \<longrightarrow> net y = Some ny \<longrightarrow> expires_ok ny) \<longrightarrow> expires_ok nx) \<and>
    (\<forall>xs. set xs \<subseteq> set addrs \<longrightarrow> p \<in> set xs \<longrightarrow>
       fold (stabilize h) xs (stabilize h n net1) = stabilize h p (stabilize h n net1))"
proof -
  let ?s = "succ_addr net p" and ?P = "handed_over h (node_of h p) (node_of h n)"
  obtain d dn where j: "Dht_join h sha1 kj bst n (node_of h b) net = Some (net(?s \<mapsto> sn\<lparr>m_data := d\<rparr>,
      n \<mapsto> nn\<lparr>m_fingerTable := Some (node_of h ?s) # replicate 255 None, m_predecessor := None, m_data := dn\<rparr>), Inr ())"
    and ok: "smap_ok d" "smap_ok dn"
    and d: "\<And>k. map_of d k = (if ?P k then None else map_of (m_data sn) k)"
    and dn: "\<And>k. map_of dn k = (if ?P k then map_option to_seconds (map_of (m_data sn) k) else None)"
    using join_result [OF assms(1-13)] by blast
  let ?net1 = "net(?s \<mapsto> sn\<lparr>m_data := d\<rparr>,
      n \<mapsto> nn\<lparr>m_fingerTable := Some (node_of h ?s) # replicate 255 None, m_predecessor := None, m_data := dn\<rparr>)"
  have "m_node nn = node_of h n" using assms(7) by (simp add: fresh_peer_def)
  note st = join_then_stabilize [OF assms(1-4) refl assms(8) this ok refl refl]
  have "data_at (stabilize h p (stabilize h n ?net1)) a' k = data_at net a k"
    if r: "responsible h addrs (h k) a" "responsible h (n # addrs) (h k) a'" for k a a'
  proof -
    have new: "a \<noteq> n" using r(1) assms(3) by (auto simp: responsible_def ring_ids_def)
    have s: "data_at net ?s k = map_option fst (map_of (m_data sn) k)" by (simp add: data_at_def assms(8) getData_eq)
    have P: "?P k = is_in_range_loop (h k) (addr_id h p) (addr_id h n) False True" by (simp add: handed_over_def)
    from responsible_after_insert [OF assms(1) st(1) assms(2-4) r] show ?thesis
      using new s by (cases "?P k") (auto simp: st(2) d dn P split: if_splits)
  qed
  moreover have "expires_ok nx"
    if x: "stabilize h p (stabilize h n ?net1) x = Some nx" "x \<in> set (n # addrs)"
      and all: "\<And>y ny. y \<in> set addrs \<Longrightarrow> net y = Some ny \<Longrightarrow> expires_ok ny" for x nx
  proof -
    have "?s \<in> set addrs" using ring.succ_member [of h "(addrs, net)" p] assms(1,2) by simp
    moreover have "smap_ok (m_data nx)" using st(1) x by (auto elim!: stable_peerE [of h "n # addrs" _ x] simp: ni_ok_def)
    ultimately show ?thesis
      by (intro expires_after_join [OF assms(1) _ assms(8) _ d dn st(4) [OF x(1)] x(2)]) (assumption | rule all)+
  qed
  ultimately show ?thesis using j st(1,3,5) by (intro exI [of _ ?net1] conjI) (assumption | blast)+
qed

section \<open>A sample join\<close>

lemma sample_join:
  "stable_ring sample_hash sample_addrs sample_join_net" "succ_addr sample_join_net (''bb'', 1) = (''a'', 1)"
  "addr_id sample_hash (''ccc'', 1) \<notin> ring_ids sample_hash sample_addrs"
  "sample_join_net (''ccc'', 1) = Some sample_joiner" "fresh_peer sample_hash (''ccc'', 1) sample_joiner"
  "sample_join_net (succ_addr sample_join_net (''bb'', 1)) = Some (sample_peer (''a'', 1) (''bb'', 1))"
  "\<forall>(k, v, e) \<in> set (m_data (sample_peer (''a'', 1) (''bb'', 1))). 0 \<le> e \<and> e < 2 ^ 63"
proof -
  show "stable_ring sample_hash sample_addrs sample_join_net"
    by (rule stable_ring_cong [THEN iffD2, OF _ sample_stable]) (auto simp: sample_addrs_def sample_join_net_def)
  show succ: "succ_addr sample_join_net (''bb'', 1) = (''a'', 1)"
    by (simp add: sample_join_net_def succ_addr_def sample_net_def sample_peer_def getSuccessor_def)
  show "sample_join_net (succ_addr sample_join_net (''bb'', 1)) = Some (sample_peer (''a'', 1) (''bb'', 1))"
    unfolding succ by (simp add: sample_join_net_def sample_net_def)
  show "addr_id sample_hash (''ccc'', 1) \<notin> ring_ids sample_hash sample_addrs"
    by (simp add: ring_ids_def sample_addrs_def sample_id)
  show "fresh_peer sample_hash (''ccc'', 1) sample_joiner"
    by (simp add: fresh_peer_def sample_joiner_def setBootstrapNode_def NodeInformation_init_def node_of_def key_bits_def)
qed (simp_all add: sample_join_net_def sample_net_def sample_peer_def NodeInformation_init_def)

lemma sample_join_responsible: "responsible sample_hash sample_addrs (addr_id sample_hash (''ccc'', 1)) (''a'', 1)"
proof -
  have "adjacent sample_hash sample_addrs (addr_id sample_hash (''bb'', 1)) (addr_id sample_hash (''a'', 1))"
    by (simp add: adjacent_def sample_addrs_def sample_id range_simps lex_common_prefix)
  then show ?thesis
    by (rule responsibleI [OF sample_member]) (simp add: sample_id range_simps lex_common_prefix)
qed

lemma sample_puzzle:
  "\<exists>r. pow_solve (\<lambda>_. replicate 20 0) (node_name ''ccc'' 1) (unat (getDifficulty statics_init)) 0 = Inr r"
  by (subst pow_solve.simps) (simp add: Let_def pow_bits_eq getDifficulty_def statics_init_def DEFAULT_DIFFICULTY_def
      bitset8_def numeral_eq_Suc)

section \<open>Properties\<close>

text \<open>
  C4: A new peer joins a stable ring, through any peer of the ring as bootstrap node and with a solved puzzle, or
  leaves it as it was. The join returns, with an exception exactly if the remote call library refuses to wait inside a
  callback, as KJ documents that it does. If it does not throw, then after one stabilisation of the new peer and one of
  the peer before it the ring with the new peer is stable, and no item that is placed by the hash of its key is lost or out
  of reach: the peer now responsible for the hash holds what the peer that was responsible for it held before. If
  it throws, the ring without the new peer is still stable and every peer has the items it had.
\<close>

theorem join_keeps_ring_and_data:
  assumes "stable_ring h addrs net" and "p \<in> set addrs" and "addr_id h n \<notin> ring_ids h addrs"
    and "responsible h addrs (addr_id h n) (succ_addr net p)" and "b \<in> set addrs"
    and "net n = Some nn" and "fresh_peer h n nn" and "net (succ_addr net p) = Some sn"
    and "\<forall>(k, v, e) \<in> set (m_data sn). 0 \<le> e \<and> e < 2 ^ 63"
    and "\<And>x. length (h x) = 32" and "\<And>x. length (sha1 x) = 20"
    and "pow_solve sha1 (node_name (fst n) (snd n)) (unat (getDifficulty bst)) 0 = Inr r"
  shows "\<exists>net1 res. Dht_join h sha1 kj bst n (node_of h b) net = Some (net1, res) \<and> (isl res \<longleftrightarrow> \<not> kj_nested_wait kj) \<and>
    (case res of
       Inr u \<Rightarrow>
         stable_ring h (n # addrs) (stabilize h p (stabilize h n net1)) \<and>
         (\<forall>k a a'. responsible h addrs (h k) a \<longrightarrow> responsible h (n # addrs) (h k) a' \<longrightarrow>
            data_at (stabilize h p (stabilize h n net1)) a' k = data_at net a k)
     | Inl e \<Rightarrow> stable_ring h addrs net1 \<and> (\<forall>a k. data_at net1 a k = data_at net a k))"
proof (cases "kj_nested_wait kj")
  case True
  then show ?thesis using join_inserts [OF assms] by fastforce
next
  case False
  from join_refused [OF assms(1-7,10-12) this refl] show ?thesis using False by fastforce
qed

theorem join_keeps_ring_and_data_witness:
  "(\<exists>net1. Dht_join sample_hash (\<lambda>_. replicate 20 0) sample_kj statics_init (''ccc'', 1) (node_of sample_hash (''a'', 1))
       sample_join_net = Some (net1, Inr ()) \<and>
     stable_ring sample_hash ((''ccc'', 1) # sample_addrs)
       (stabilize sample_hash (''bb'', 1) (stabilize sample_hash (''ccc'', 1) net1))) \<and>
   (\<exists>net1 e. Dht_join sample_hash (\<lambda>_. replicate 20 0) (sample_kj\<lparr>kj_nested_wait := False\<rparr>) statics_init (''ccc'', 1)
       (node_of sample_hash (''a'', 1)) sample_join_net = Some (net1, Inl e) \<and> stable_ring sample_hash sample_addrs net1)"
proof -
  obtain r where r: "pow_solve (\<lambda>_. replicate 20 0) (node_name (fst (''ccc'', 1 :: u16)) (snd (''ccc'', 1 :: u16)))
      (unat (getDifficulty statics_init)) 0 = Inr r" using sample_puzzle by auto
  note resp = sample_join_responsible [folded sample_join(2)]
  have sha: "length (replicate 20 0 :: bytes) = 20" by simp
  have kj: "kj_nested_wait sample_kj" "\<not> kj_nested_wait (sample_kj\<lparr>kj_nested_wait := False\<rparr>)" by (simp_all add: sample_kj_def)
  note join = join_keeps_ring_and_data [OF sample_join(1) sample_member(2) sample_join(3) resp sample_member(1) sample_join(4,5)
      sample_join(6,7) sample_len sha r]
  show ?thesis
    using join [of sample_kj] join [of "sample_kj\<lparr>kj_nested_wait := False\<rparr>"] kj by (fastforce split: sum.splits)
qed

text \<open>
  C24: Joining needs a nested wait. \<open>join\<close> fetches the items of the new peer inside a callback of the promise
  that it is waiting for. With a remote call library that refuses to wait there, every join that the
  bootstrap node has accepted ends with an exception: no item is handed over, the old ring does not learn of
  the new peer, and the exception ends the new peer's main loop in its first round.
\<close>

theorem join_needs_nested_wait:
  assumes "stable_ring h addrs net" and "p \<in> set addrs" and "addr_id h n \<notin> ring_ids h addrs"
    and "responsible h addrs (addr_id h n) (succ_addr net p)" and "b \<in> set addrs"
    and "net n = Some nn" and "fresh_peer h n nn" and "getBootstrapNode nn = Some (node_of h b)"
    and "\<And>x. length (h x) = 32" and "\<And>x. length (sha1 x) = 20"
    and "pow_solve sha1 (node_name (fst n) (snd n)) (unat (getDifficulty bst)) 0 = Inr r"
    and "\<not> kj_nested_wait kj" and "\<not> cancelled 0"
  shows "\<exists>net1 e. Dht_join h sha1 kj bst n (node_of h b) net = Some (net1, Inl e) \<and> \<not> is_ub (Inl e :: unit result) \<and>
    stable_ring h addrs net1 \<and> (\<forall>a k. data_at net1 a k = data_at net a k) \<and>
    mainLoop_round h sha1 kj bst n cancelled (net, f) = Some (Inl e)"
proof -
  let ?net = "net(n \<mapsto> joined_peer h (succ_addr net p) nn)"
  let ?e = "Rpc_Exception ''wait() is not allowed from within event callbacks.''"
  note join = join_refused [OF assms(1-7,9-12) refl]
  have "getSuccessor nn = None" "getNode nn = node_of h n" using assms(7) fresh_no_successor by (auto simp: fresh_peer_def getNode_def)
  moreover have "addr_id h b \<noteq> addr_id h n" using assms(3,5) unfolding ring_ids_def by (metis imageI)
  ultimately have "enter_ring h sha1 kj bst n net = Some (?net, Inl ?e)"
    using assms(6,8) join(1) by (simp add: enter_ring_def node_eq_def)
  then have "mainLoop_round h sha1 kj bst n cancelled (net, f) = Some (Inl ?e)"
    using assms(13) by (simp add: mainLoop_round_def)
  with join show ?thesis by (intro exI [of _ ?net] exI [of _ ?e]) simp
qed

theorem join_needs_nested_wait_witness:
  "\<exists>e. mainLoop_round sample_hash (\<lambda>_. replicate 20 0) (sample_kj\<lparr>kj_nested_wait := False\<rparr>) statics_init (''ccc'', 1)
     (\<lambda>_. False) (sample_join_net, 0) = Some (Inl e)"
proof -
  obtain r where r: "pow_solve (\<lambda>_. replicate 20 0) (node_name (fst (''ccc'', 1 :: u16)) (snd (''ccc'', 1 :: u16)))
      (unat (getDifficulty statics_init)) 0 = Inr r" using sample_puzzle by auto
  note resp = sample_join_responsible [folded sample_join(2)]
  have sha: "length (replicate 20 0 :: bytes) = 20" by simp
  have boot: "getBootstrapNode sample_joiner = Some (node_of sample_hash (''a'', 1))"
    by (simp add: sample_joiner_def getBootstrapNode_def setBootstrapNode_def)
  have "\<not> kj_nested_wait (sample_kj\<lparr>kj_nested_wait := False\<rparr>)" by simp
  from join_needs_nested_wait [OF sample_join(1) sample_member(2) sample_join(3) resp sample_member(1) sample_join(4,5)
      boot sample_len sha r this, of "\<lambda>_. False" 0]
  show ?thesis by auto
qed



end
