(* ===== verification/Live.thy ===== *)
theory Live
  imports Maintenance Lookup
begin

text \<open>
  Rings in which some fingers point to peers that have left. Successors and predecessors are the
  neighbours among the peers that are left; any other finger is one of them, or a departed peer that lies
  beyond the successor. The lookup finds the responsible peer on such a ring too: it asks a departed peer
  once, puts it into its set of distrusted nodes, and goes on with the next finger. Rounds of the main
  loop keep such a ring and replace its fingers.
\<close>

section \<open>Definitions\<close>

definition departed :: "(bytes \<Rightarrow> bytes) \<Rightarrow> addr list \<Rightarrow> network \<Rightarrow> addr \<Rightarrow> bytes \<Rightarrow> Node \<Rightarrow> bool" where
  "departed h addrs net a s n \<longleftrightarrow>
     n = node_of h (addr_of n) \<and> net (addr_of n) = None \<and> getId h n \<notin> ring_ids h addrs \<and>
     \<not> is_in_range_loop (getId h n) (addr_id h a) s False False"

definition live_peer :: "(bytes \<Rightarrow> bytes) \<Rightarrow> addr list \<Rightarrow> network \<Rightarrow> addr \<Rightarrow> NodeInformation \<Rightarrow> bool" where
  "live_peer h addrs net a ni \<longleftrightarrow>
     ni_ok ni \<and> m_node ni = node_of h a \<and>
     (case getSuccessor ni of
        None \<Rightarrow> False
      | Some s \<Rightarrow> ring_node h addrs s \<and> adjacent h addrs (addr_id h a) (getId h s) \<and>
          list_all (\<lambda>f. case f of None \<Rightarrow> True
                         | Some n \<Rightarrow> ring_node h addrs n \<or> departed h addrs net a (getId h s) n) (m_fingerTable ni)) \<and>
     (case m_predecessor ni of
        None \<Rightarrow> False | Some p \<Rightarrow> ring_node h addrs p \<and> adjacent h addrs (getId h p) (addr_id h a))"

definition live_ring :: "(bytes \<Rightarrow> bytes) \<Rightarrow> addr list \<Rightarrow> network \<Rightarrow> bool" where
  "live_ring h addrs net \<longleftrightarrow>
     addrs \<noteq> [] \<and> distinct (map (addr_id h) addrs) \<and>
     list_all (\<lambda>a. case net a of None \<Rightarrow> False | Some ni \<Rightarrow> live_peer h addrs net a ni) addrs"

text \<open>
  A peer without its first finger still has a successor, the first of the fingers that are left. For every index
  up to that one, the successor is the peer that a new finger would have to be.
\<close>

definition first_index :: "NodeInformation \<Rightarrow> nat" where
  "first_index ni = length (takeWhile Option.is_none (m_fingerTable ni))"

definition no_gap :: "(bytes \<Rightarrow> bytes) \<Rightarrow> network \<Rightarrow> addr \<Rightarrow> bool" where
  "no_gap h net a \<longleftrightarrow>
     (case net a of
        None \<Rightarrow> False
      | Some ni \<Rightarrow> list_all (\<lambda>f. is_in_range_loop (array_add (addr_id h a) (pow2 32 f)) (addr_id h a)
          (addr_id h (succ_addr net a)) False True) [0..<Suc (first_index ni)])"

subsection \<open>A sample ring\<close>

text \<open>Three peers with the identifiers 3, 4 and 12; the first one has a finger to a departed peer with the identifier 8.\<close>

definition live_addrs :: "addr list" where
  "live_addrs = [(''a'', 1), (''bb'', 1), (''cccccccccc'', 1)]"

definition live_sample_peer :: "addr \<Rightarrow> addr \<Rightarrow> addr \<Rightarrow> Node option \<Rightarrow> NodeInformation" where
  "live_sample_peer a s p far =
     (NodeInformation_init sample_hash (fst a) (snd a))
       \<lparr>m_fingerTable := Some (node_of sample_hash s) # replicate 254 None @ [far],
        m_predecessor := Some (node_of sample_hash p)\<rparr>"

definition live_net :: network where
  "live_net =
     [(''a'', 1) \<mapsto> live_sample_peer (''a'', 1) (''bb'', 1) (''cccccccccc'', 1) (Some (node_of sample_hash (''dddddd'', 1))),
      (''bb'', 1) \<mapsto> live_sample_peer (''bb'', 1) (''cccccccccc'', 1) (''a'', 1) None,
      (''cccccccccc'', 1) \<mapsto> live_sample_peer (''cccccccccc'', 1) (''a'', 1) (''bb'', 1) None]"

section \<open>Neighbours on a live ring\<close>

lemma first_finger_mem: "first_finger fs = Some n \<Longrightarrow> Some n \<in> set fs"
  by (induction fs rule: first_finger.induct) auto

lemma getSuccessor_mem:
  assumes "length (m_fingerTable ni) = key_bits" and "getSuccessor ni = Some s"
  shows "Some s \<in> set (m_fingerTable ni)"
proof -
  have "m_fingerTable ni ! 0 \<in> set (m_fingerTable ni)" using assms(1) by (simp add: key_bits_def)
  then show ?thesis using assms(2) first_finger_mem by (auto simp: getSuccessor_def split: option.splits)
qed

lemma live_peerE:
  assumes "live_ring h addrs net" and "a \<in> set addrs"
  obtains ni s p where "net a = Some ni" "ni_ok ni" "m_node ni = node_of h a"
    "getSuccessor ni = Some (node_of h s)" "s \<in> set addrs" "adjacent h addrs (addr_id h a) (addr_id h s)"
    "\<And>f. Some f \<in> set (m_fingerTable ni) \<Longrightarrow> ring_node h addrs f \<or> departed h addrs net a (addr_id h s) f"
    "Some (node_of h s) \<in> set (m_fingerTable ni)"
    "m_predecessor ni = Some (node_of h p)" "p \<in> set addrs" "adjacent h addrs (addr_id h p) (addr_id h a)"
proof -
  obtain ni where ni: "net a = Some ni" "live_peer h addrs net a ni"
    using assms by (auto simp: live_ring_def list_all_iff split: option.splits)
  obtain sn where sn: "getSuccessor ni = Some sn" "ring_node h addrs sn" "adjacent h addrs (addr_id h a) (getId h sn)"
    "\<And>f. Some f \<in> set (m_fingerTable ni) \<Longrightarrow> ring_node h addrs f \<or> departed h addrs net a (getId h sn) f"
    using ni(2) by (force simp: live_peer_def list_all_iff split: option.splits)
  obtain pn where pn: "m_predecessor ni = Some pn" "ring_node h addrs pn" "adjacent h addrs (getId h pn) (addr_id h a)"
    using ni(2) by (auto simp: live_peer_def split: option.splits)
  obtain s where s: "s \<in> set addrs" "sn = node_of h s" using sn(2) by (rule ring_nodeE)
  obtain p where p: "p \<in> set addrs" "pn = node_of h p" using pn(2) by (rule ring_nodeE)
  have ok: "ni_ok ni" "m_node ni = node_of h a" using ni(2) by (simp_all add: live_peer_def)
  have "Some sn \<in> set (m_fingerTable ni)" using getSuccessor_mem [OF _ sn(1)] ok(1) by (simp add: ni_ok_def)
  then show thesis using that [of ni s p] ni(1) ok sn pn s p by simp
qed

lemma live_neighbours:
  assumes "live_ring h addrs net" and "a \<in> set addrs" and "net a = Some ni"
  shows "m_node ni = node_of h a" "NI_getId h ni = addr_id h a" "length (m_fingerTable ni) = key_bits"
    "getSuccessor ni = Some (node_of h (succ_addr net a))" "succ_addr net a \<in> set addrs"
    "\<exists>p \<in> set addrs. m_predecessor ni = Some (node_of h p) \<and> adjacent h addrs (addr_id h p) (addr_id h a)"
    "adjacent h addrs (addr_id h a) (addr_id h (succ_addr net a))"
    "Some (node_of h (succ_addr net a)) \<in> set (m_fingerTable ni)"
    "Some f \<in> set (m_fingerTable ni) \<Longrightarrow>
       ring_node h addrs f \<or> departed h addrs net a (addr_id h (succ_addr net a)) f"
  using assms by (auto elim!: live_peerE [of h addrs net a] simp: succ_addr_def NI_getId_def ni_ok_def)

lemma live_ringD: "live_ring h addrs net \<Longrightarrow> a \<in> set addrs \<Longrightarrow> net a = Some ni \<Longrightarrow> live_peer h addrs net a ni"
  by (auto simp: live_ring_def list_all_iff split: option.splits)

lemma live_online: "live_ring h addrs net \<Longrightarrow> a \<in> set addrs \<Longrightarrow> \<exists>ni. net a = Some ni"
  by (auto elim: live_peerE)

lemma live_id_inj: "live_ring h addrs net \<Longrightarrow> a \<in> set addrs \<Longrightarrow> b \<in> set addrs \<Longrightarrow> addr_id h a = addr_id h b \<longleftrightarrow> a = b"
  by (auto simp: live_ring_def distinct_map inj_on_def)

text \<open>A stable ring is a live ring without departed fingers.\<close>

lemma stable_live:
  assumes "stable_ring h addrs net"
  shows "live_ring h addrs net"
proof -
  have "live_peer h addrs net a ni" if a: "a \<in> set addrs" and ni: "net a = Some ni" for a ni
    using assms a ni
    by (elim stable_peerE [of h addrs net a])
      (fastforce simp: live_peer_def list_all_iff ring_node_def split: option.splits)+
  moreover have "\<exists>ni. net a = Some ni" if "a \<in> set addrs" for a
    using stable_online [OF assms that] by blast
  ultimately show ?thesis using assms by (fastforce simp: live_ring_def stable_ring_def list_all_iff)
qed

lemma live_pred_of_succ:
  assumes "live_ring h addrs net" and "a \<in> set addrs"
  shows "\<exists>ni. net (succ_addr net a) = Some ni \<and> m_predecessor ni = Some (node_of h a)"
proof -
  obtain na where na: "net a = Some na" using live_online [OF assms] by blast
  note a = live_neighbours [OF assms na]
  obtain ni where ni: "net (succ_addr net a) = Some ni" using live_online [OF assms(1) a(5)] by blast
  obtain p where p: "p \<in> set addrs" "m_predecessor ni = Some (node_of h p)"
      "adjacent h addrs (addr_id h p) (addr_id h (succ_addr net a))"
    using live_neighbours(6) [OF assms(1) a(5) ni] by blast
  have "addr_id h p = addr_id h a"
    using adjacentD [OF p(3) assms(2)] adjacentD [OF a(7) p(1)] circle.between_total by metis
  then have "p = a" using live_id_inj [OF assms(1) p(1) assms(2)] by simp
  with ni p show ?thesis by simp
qed

lemma live_call_pred:
  assumes "live_ring h addrs net" and "a \<in> set addrs"
  shows "net_call net (fst (succ_addr net a)) (snd (succ_addr net a)) (\<lambda>ni. Inr (server_getPredecessor h ni)) =
    Inr (Some (buildNode h (node_of h a)))"
  using live_pred_of_succ [OF assms] by (auto simp: net_call_def server_getPredecessor_def getPredecessor_def nodeFromReader_opt_simps)

lemma live_responsible:
  assumes "live_ring h addrs net" and "a \<in> set addrs"
    and "is_in_range_loop i (addr_id h a) (addr_id h (succ_addr net a)) False True"
  shows "responsible h addrs i (succ_addr net a)"
proof -
  obtain na where na: "net a = Some na" using live_online [OF assms(1,2)] by blast
  note n = live_neighbours [OF assms(1,2) na]
  have "ring_successor (ring_ids h addrs) i = addr_id h (succ_addr net a)"
    by (rule ring_successor_eqI [where a = "addr_id h a"])
      (use assms n(5) adjacentD [OF n(7)] in \<open>auto simp: ring_ids_def\<close>)
  with n(5) show ?thesis by (simp add: responsible_def)
qed

section \<open>One round of the lookup\<close>

text \<open>Whichever identifier a live peer is asked for, the checks pass what it answers.\<close>

lemma finger_addressed:
  "ring_node h addrs n \<or> departed h addrs net a s n \<Longrightarrow> n = node_of h (addr_of n)"
  by (auto simp: ring_node_def departed_def)

lemma ring_node_id: "ring_node h addrs n \<Longrightarrow> getId h n \<in> ring_ids h addrs"
  by (erule ring_nodeE) (simp add: ring_ids_def)

lemma impl_live:
  assumes ring: "live_ring h addrs net" and b: "b \<in> set addrs" "net b = Some ni"
    and a: "a \<in> set addrs" "net a = Some na" and j: "length j = 32"
    and c: "getClosestPreceding h na j = Inr c"
    and arc: "\<And>n. c = Some n \<Longrightarrow> is_in_range_loop (getId h n) (addr_id h a) i False False"
  shows "helper_impl h (net_env h m net f) ni (node_of h a) i j =
    Inr \<lparr>closestPreceding = c, successor = (if succ_addr net a = b then None else Some (node_of h (succ_addr net a)))\<rparr>"
proof -
  note sb = live_neighbours [OF ring b] and sa = live_neighbours [OF ring a]
  have eq: "node_eq h (node_of h x) (getNode ni) \<longleftrightarrow> x = b" if "x \<in> set addrs" for x
    using live_id_inj [OF ring that b(1)] by (simp add: node_eq_def getNode_def sb(1))
  have "n = node_of h (addr_of n)" if "c = Some n" for n
    using getClosestPreceding_Some(1) [OF c [unfolded that] sa(3)] sa(9) finger_addressed by blast
  then have wire: "nodeFromReader_opt h (buildNode_opt h c) = c"
    by (cases c) (simp_all add: nodeFromReader_opt_simps, metis node_of_simps(6))
  have "is_in_range_loop i (addr_id h a) (addr_id h a) False True" by (auto simp: range_simps)
  then have check: "checkResult h (net_env h m net f) ni (node_of h a) i
      \<lparr>closestPreceding = c, successor = Some (node_of h (succ_addr net a))\<rparr> =
    Inr \<lparr>closestPreceding = c, successor = (if succ_addr net a = b then None else Some (node_of h (succ_addr net a)))\<rparr>"
    using arc live_call_pred [OF ring a(1)]
    by (cases c) (simp_all add: checkResult_def Let_def eq [OF sa(5)] nodeFromReader_opt_simps)
  have "a = b \<Longrightarrow> na = ni" using a(2) b(2) by simp
  with check c wire show ?thesis
    by (auto simp: helper_impl_def eq [OF a(1)] net_call_def a(2) server_getClosestPreceding_def j sa(4) sb(4)
        nodeFromReader_opt_simps)
qed

text \<open>
  Skipping distrusted fingers, which have all departed, a peer names an online peer before the target or a
  departed one that has not been asked yet, and names none only if its successor is responsible.
\<close>

lemma iterate_live:
  assumes ring: "live_ring h addrs net" and b: "b \<in> set addrs" "net b = Some ni"
    and a: "a \<in> set addrs" "net a = Some na" and len: "\<And>x. length (h x) = 32"
    and ds: "getId h ` set ds \<inter> ring_ids h addrs = {}"
    and j: "length j = 32" "j = i \<or> is_in_range_loop j (addr_id h a) i False False \<and>
      is_in_range_loop (addr_id h (succ_addr net a)) (addr_id h a) j False False"
  shows "\<exists>c. helper_iterate h (net_env h m net f) ni (node_of h a) i ds j =
      Some (Inr \<lparr>closestPreceding = c,
        successor = (if succ_addr net a = b then None else Some (node_of h (succ_addr net a)))\<rparr>) \<and>
    (case c of
       None \<Rightarrow> is_in_range_loop i (addr_id h a) (addr_id h (succ_addr net a)) False True
     | Some n \<Rightarrow> Some n \<in> set (m_fingerTable na) \<and> is_in_range_loop (getId h n) (addr_id h a) i False False \<and>
         \<not> uset_contains h ds n)"
  using j
proof (induction "card {y \<in> (getId h \<circ> the) ` set (m_fingerTable na). is_in_range_loop y (addr_id h a) j False False}"
    arbitrary: j rule: less_induct)
  case less
  note s = live_neighbours [OF ring a]
  obtain c where c: "getClosestPreceding h na j = Inr c" using getClosestPreceding_total [OF s(3)] by blast
  have some: "Some n \<in> set (m_fingerTable na)" "is_in_range_loop (getId h n) (addr_id h a) j False False"
    "is_in_range_loop (getId h n) (addr_id h a) i False False" if "c = Some n" for n
    using getClosestPreceding_Some [OF c [unfolded that] s(3)] less.prems(2) shrink_arc(1) s(2) by metis+
  note impl = impl_live [OF ring b a less.prems(1) c some(3)]
  show ?case
  proof (cases c)
    case None
    then have no: "\<not> is_in_range_loop (addr_id h (succ_addr net a)) (addr_id h a) j False False"
      using getClosestPreceding_None [OF c [unfolded None] s(3) s(8)] by (simp add: s(2))
    then have "j = i" using less.prems(2) by blast
    with no None impl show ?thesis
      by (subst helper_iterate.simps) (auto simp: circle.up_to_iff)
  next
    case (Some n)
    show ?thesis
    proof (cases "uset_contains h ds n")
      case False
      then show ?thesis using Some impl some [OF Some] by (subst helper_iterate.simps) auto
    next
      case True
      then have "getId h n \<notin> ring_ids h addrs" using ds by (auto simp: uset_contains_iff)
      then have gone: "departed h addrs net a (addr_id h (succ_addr net a)) n"
        using s(9) [OF some(1) [OF Some]] ring_node_id by blast
      have "is_in_range_loop (addr_id h (succ_addr net a)) (addr_id h a) (getId h n) False False"
        using gone s(5) some(2) [OF Some] by (auto simp: departed_def ring_ids_def range_simps split: if_splits)
      moreover have "length (getId h n) = 32"
        using gone len by (metis departed_def getId_mkNode node_of_def)
      moreover have "card {y \<in> (getId h \<circ> the) ` set (m_fingerTable na). is_in_range_loop y (addr_id h a) (getId h n) False False} <
          card {y \<in> (getId h \<circ> the) ` set (m_fingerTable na). is_in_range_loop y (addr_id h a) j False False}"
        by (rule shrink_arc_card) (use some [OF Some] in force)+
      ultimately show ?thesis
        using less.hyps [of "getId h n"] some(3) [OF Some] impl Some True by (subst helper_iterate.simps) simp
    qed
  qed
qed

section \<open>The lookup on a live ring\<close>

text \<open>A departed peer does not answer; it is distrusted from then on.\<close>

lemma algorithm_departed:
  assumes b: "m_node ni = node_of h b" "b \<in> set addrs" and n: "departed h addrs net a s n"
  shows "getSuccessorAlgorithm h (net_env h m net f) ni i (n # hops) ds =
    getSuccessorAlgorithm h (net_env h m net f) ni i hops (uset_insert h n ds)"
proof -
  have "getId h n \<noteq> addr_id h b" using b(2) n by (auto simp: departed_def ring_ids_def)
  then have "\<not> node_eq h n (getNode ni)" using b(1) by (simp add: node_eq_def getNode_def)
  moreover have "net (m_ip n, m_port n) = None" using n by (simp add: departed_def addr_of_def)
  ultimately have "helper_impl h (net_env h m net f) ni n i i = Inr \<lparr>closestPreceding = None, successor = None\<rparr>"
    by (simp add: helper_impl_def net_call_def checkResult_def)
  then show ?thesis
    by (subst getSuccessorAlgorithm.simps) (simp add: getClosestPrecedingHelper_def helper_iterate.simps)
qed

text \<open>
  The lookup stays at a live peer until it has passed its departed fingers; then its successor is the answer,
  or it goes on at a live peer closer to the target.
\<close>

lemma algorithm_live:
  assumes ring: "live_ring h addrs net" and b: "b \<in> set addrs" "net b = Some ni"
    and a: "a \<in> set addrs" and len: "\<And>x. length (h x) = 32" and i: "length i = 32"
    and ds: "getId h ` set ds \<inter> ring_ids h addrs = {}"
    and own: "\<And>x. x \<in> set addrs \<Longrightarrow> is_in_range_loop i (addr_id h x) (addr_id h (succ_addr net x)) False True \<Longrightarrow>
      succ_addr net x \<noteq> b"
  shows "is_in_range_loop i (addr_id h a) (addr_id h (succ_addr net a)) False True \<and>
      getSuccessorAlgorithm h (net_env h m net f) ni i (node_of h a # below) ds =
        Some (Inr (Some (node_of h (succ_addr net a)))) \<or>
    (\<exists>c \<in> set addrs. \<exists>hops ds'. is_in_range_loop (addr_id h c) (addr_id h a) i False False \<and>
      getId h ` set ds' \<inter> ring_ids h addrs = {} \<and>
      getSuccessorAlgorithm h (net_env h m net f) ni i (node_of h a # below) ds =
        getSuccessorAlgorithm h (net_env h m net f) ni i (node_of h c # hops) ds')"
  using ds
proof (induction "card (getId h ` the ` set (m_fingerTable (the (net a))) - getId h ` set ds)" arbitrary: ds rule: less_induct)
  case less
  obtain na where na: "net a = Some na" using live_online [OF ring a] by blast
  note s = live_neighbours [OF ring a na] and sb = live_neighbours [OF ring b]
  obtain c where c: "getClosestPrecedingHelper h (net_env h m net f) ni (node_of h a) i ds =
      Some (Inr \<lparr>closestPreceding = c,
        successor = (if succ_addr net a = b then None else Some (node_of h (succ_addr net a)))\<rparr>)"
    "case c of
       None \<Rightarrow> is_in_range_loop i (addr_id h a) (addr_id h (succ_addr net a)) False True
     | Some n \<Rightarrow> Some n \<in> set (m_fingerTable na) \<and> is_in_range_loop (getId h n) (addr_id h a) i False False \<and>
         \<not> uset_contains h ds n"
    using iterate_live [OF ring b a na len less.prems i] unfolding getClosestPrecedingHelper_def by blast
  show ?case
  proof (cases c)
    case None
    then show ?thesis
      using c own [OF a] by (subst getSuccessorAlgorithm.simps) simp
  next
    case (Some n)
    then have n: "Some n \<in> set (m_fingerTable na)" "is_in_range_loop (getId h n) (addr_id h a) i False False"
      "\<not> uset_contains h ds n" using c(2) by simp_all
    have push: "getSuccessorAlgorithm h (net_env h m net f) ni i (node_of h a # below) ds =
        getSuccessorAlgorithm h (net_env h m net f) ni i (n # node_of h a # below) ds"
      using c(1) Some by (subst getSuccessorAlgorithm.simps) simp
    show ?thesis
    proof (cases "ring_node h addrs n")
      case True
      then obtain x where "x \<in> set addrs" "n = node_of h x" by (rule ring_nodeE)
      then show ?thesis using n(2) push less.prems by (intro disjI2 bexI [of _ x]) auto
    next
      case False
      then have gone: "departed h addrs net a (addr_id h (succ_addr net a)) n" using s(9) [OF n(1)] by blast
      have "getId h n \<in> getId h ` the ` set (m_fingerTable (the (net a)))"
        using imageI [OF imageI [OF n(1), of the], of "getId h"] by (simp add: na)
      moreover have "getId h n \<notin> getId h ` set ds" using n(3) by (simp add: uset_contains_iff)
      ultimately have "getId h ` the ` set (m_fingerTable (the (net a))) - getId h ` set (uset_insert h n ds) \<subset>
          getId h ` the ` set (m_fingerTable (the (net a))) - getId h ` set ds"
        unfolding uset_insert_ids by blast
      then have less': "card (getId h ` the ` set (m_fingerTable (the (net a))) - getId h ` set (uset_insert h n ds)) <
          card (getId h ` the ` set (m_fingerTable (the (net a))) - getId h ` set ds)"
        by (intro psubset_card_mono) auto
      have "getId h ` set (uset_insert h n ds) \<inter> ring_ids h addrs = {}"
        using less.prems gone by (auto simp: uset_insert_ids departed_def)
      from less.hyps [OF less' this] show ?thesis
        unfolding push algorithm_departed [OF sb(1) b(1) gone] .
    qed
  qed
qed

lemma algorithm_found:
  assumes ring: "live_ring h addrs net" and b: "b \<in> set addrs" "net b = Some ni"
    and a: "a \<in> set addrs" and len: "\<And>x. length (h x) = 32" and i: "length i = 32"
    and ds: "getId h ` set ds \<inter> ring_ids h addrs = {}"
    and own: "\<And>x. x \<in> set addrs \<Longrightarrow> is_in_range_loop i (addr_id h x) (addr_id h (succ_addr net x)) False True \<Longrightarrow>
      succ_addr net x \<noteq> b"
  shows "found h addrs i (getSuccessorAlgorithm h (net_env h m net f) ni i (node_of h a # below) ds)"
  using a ds
proof (induction "card {y \<in> ring_ids h addrs. is_in_range_loop y (addr_id h a) i False False}"
    arbitrary: a below ds rule: less_induct)
  case less
  from algorithm_live [OF ring b less.prems(1) len i less.prems(2) own, of m f below]
  consider (arrived) "is_in_range_loop i (addr_id h a) (addr_id h (succ_addr net a)) False True"
      "getSuccessorAlgorithm h (net_env h m net f) ni i (node_of h a # below) ds =
        Some (Inr (Some (node_of h (succ_addr net a))))"
    | (hop) c hops ds' where "c \<in> set addrs" "is_in_range_loop (addr_id h c) (addr_id h a) i False False"
      "getId h ` set ds' \<inter> ring_ids h addrs = {}"
      "getSuccessorAlgorithm h (net_env h m net f) ni i (node_of h a # below) ds =
        getSuccessorAlgorithm h (net_env h m net f) ni i (node_of h c # hops) ds'"
    by blast
  then show ?case
  proof cases
    case arrived
    then show ?thesis using live_responsible [OF ring less.prems(1)] by simp
  next
    case hop
    have "card {y \<in> ring_ids h addrs. is_in_range_loop y (addr_id h c) i False False} <
        card {y \<in> ring_ids h addrs. is_in_range_loop y (addr_id h a) i False False}"
      by (rule circle.arc_measure_decreases) (use hop in \<open>auto simp: ring_ids_def\<close>)
    from less.hyps [OF this hop(1,3)] show ?thesis by (simp add: hop(4))
  qed
qed

lemma lookup_live:
  assumes ring: "live_ring h addrs net" and b: "b \<in> set addrs" "net b = Some ni"
    and len: "\<And>x. length (h x) = 32" and i: "length i = 32"
  shows "found h addrs i (PeerImpl_getSuccessor h LOCAL (net_env h m net f) ni i)"
proof -
  note s = live_neighbours [OF ring b]
  obtain p where p: "p \<in> set addrs" "m_predecessor ni = Some (node_of h p)" "adjacent h addrs (addr_id h p) (addr_id h b)"
    using s(6) by blast
  show ?thesis
  proof (cases "is_in_range_loop i (addr_id h p) (addr_id h b) False True")
    case True
    have "ring_successor (ring_ids h addrs) i = addr_id h b"
      by (rule ring_successor_eqI [where a = "addr_id h p"])
        (use p b True adjacentD in \<open>auto simp: ring_ids_def\<close>)
    then have "responsible h addrs i b" using b(1) by (simp add: responsible_def)
    with True show ?thesis by (simp add: PeerImpl_getSuccessor_def getPredecessor_def p(2) s(1,2) getNode_def)
  next
    case own: False
    have far: "succ_addr net x \<noteq> b"
      if x: "x \<in> set addrs" and up: "is_in_range_loop i (addr_id h x) (addr_id h (succ_addr net x)) False True" for x
    proof
      assume "succ_addr net x = b"
      then have "node_of h p = node_of h x" using live_pred_of_succ [OF ring x] b(2) p(2) by auto
      then have "p = x" by (metis node_of_simps(3))
      with up own \<open>succ_addr net x = b\<close> show False by simp
    qed
    have "found h addrs i (getSuccessorAlgorithm h (net_env h m net f) ni i [node_of h b] [])"
      by (rule algorithm_found [OF ring b b(1) len i _ far]) simp_all
    then show ?thesis
      using own live_responsible [OF ring b(1)] live_call_pred [OF ring b(1)]
      by (simp add: PeerImpl_getSuccessor_def getPredecessor_def p(2) s(1,2,4) getNode_def)
  qed
qed

lemma Dht_getSuccessor_live:
  assumes "live_ring h addrs net" and "self \<in> set addrs" and len: "\<And>x. length (h x) = 32" and i: "length i = 32"
  shows "\<exists>a. Dht_getSuccessor h net self i = Some (Some (node_of h a)) \<and> responsible h addrs i a"
proof -
  obtain ni where ni: "net self = Some ni" using live_online [OF assms(1,2)] by blast
  from server_found [OF lookup_live [OF assms(1,2) ni len i, of LOCAL 0] i] show ?thesis
    using ni by (auto simp: Dht_getSuccessor_def nodeFromReader_opt_simps simp del: split_paired_Ex)
qed

section \<open>Maintenance of a live ring\<close>

lemma first_finger_update:
  "f < length fs \<Longrightarrow> first_finger (fs[f := Some n]) =
     (if f \<le> length (takeWhile Option.is_none fs) then Some n else first_finger fs)"
  "f < length fs \<Longrightarrow> length (takeWhile Option.is_none (fs[f := Some n])) = min f (length (takeWhile Option.is_none fs))"
  by (induction fs arbitrary: f rule: first_finger.induct) (auto split: nat.splits simp: less_Suc_eq_0_disj)

lemma first_finger_Some: "Some n \<in> set fs \<Longrightarrow> \<exists>m. first_finger fs = Some m"
  by (induction fs rule: first_finger.induct) auto

lemma live_peer_cong:
  assumes "dom net' = dom net" and "live_peer h addrs net a ni"
  shows "live_peer h addrs net' a ni"
proof -
  have "net' b = None \<longleftrightarrow> net b = None" for b using assms(1) by (metis domIff)
  then have eq: "departed h addrs net' = departed h addrs net" by (intro ext) (simp add: departed_def)
  show ?thesis using assms(2) unfolding live_peer_def eq .
qed

lemma stabilize_live:
  assumes "live_ring h addrs net" and "self \<in> set addrs"
  shows "stabilize h self net = net"
proof -
  obtain ni where ni: "net self = Some ni" using live_online [OF assms] by blast
  show ?thesis
    using live_call_pred [OF assms] live_neighbours [OF assms ni] ni
    by (simp add: stabilize_def nodeFromReader_opt_simps)
qed

lemma checkPredecessor_live:
  assumes "live_ring h addrs net" and "self \<in> set addrs"
  shows "checkPredecessor h self net = net"
proof -
  obtain ni where ni: "net self = Some ni" using live_online [OF assms] by blast
  obtain p where p: "p \<in> set addrs" "m_predecessor ni = Some (node_of h p)"
    using live_neighbours(6) [OF assms ni] by blast
  obtain np where "net p = Some np" using live_online [OF assms(1) p(1)] by blast
  with ni p show ?thesis by (simp add: checkPredecessor_def getPredecessor_def net_call_def)
qed

lemma enter_ring_live:
  assumes "live_ring h addrs net" and "self \<in> set addrs"
  shows "enter_ring h sha1 kj bst self net = Some (net, Inr ())"
proof -
  obtain ni where ni: "net self = Some ni" using live_online [OF assms] by blast
  then show ?thesis using live_neighbours [OF assms ni] by (simp add: enter_ring_def)
qed

lemma live_responsible_unique:
  "live_ring h addrs net \<Longrightarrow> responsible h addrs i a \<Longrightarrow> responsible h addrs i b \<Longrightarrow> a = b"
  using live_id_inj by (fastforce simp: responsible_def)

lemma live_ring_setFinger:
  assumes ring: "live_ring h addrs net" and whole: "no_gap h net self"
    and self: "self \<in> set addrs" "net self = Some ni" and f: "f < key_bits"
    and resp: "responsible h addrs (array_add (addr_id h self) (pow2 32 f)) a"
  shows "live_ring h addrs (set_finger net self ni f (node_of h a))" "no_gap h (set_finger net self ni f (node_of h a)) self"
    "succ_addr (set_finger net self ni f (node_of h a)) b = succ_addr net b"
proof -
  let ?ni = "ni\<lparr>m_fingerTable := (m_fingerTable ni)[f := Some (node_of h a)]\<rparr>"
  let ?net = "set_finger net self ni f (node_of h a)"
  note s = live_neighbours [OF ring self]
  have f': "f < length (m_fingerTable ni)" using f s(3) by simp
  have "a = succ_addr net self" if "f \<le> first_index ni"
  proof -
    have "is_in_range_loop (array_add (addr_id h self) (pow2 32 f)) (addr_id h self) (addr_id h (succ_addr net self)) False True"
      using whole that by (auto simp: no_gap_def self(2) list_all_iff)
    from live_responsible_unique [OF ring resp live_responsible [OF ring self(1) this]] show ?thesis .
  qed
  moreover obtain m where "first_finger (m_fingerTable ni) = Some m" using first_finger_Some [OF s(8)] by blast
  ultimately have succ: "getSuccessor ?ni = getSuccessor ni"
    using s(4) first_finger_update(1) [OF f', of "node_of h a"]
    by (auto simp: getSuccessor_def first_index_def split: if_splits)
  have idx: "first_index ?ni = min f (first_index ni)"
    using first_finger_update(2) [OF f', of "node_of h a"] by (simp add: first_index_def)
  have succ_addr: "succ_addr ?net b = succ_addr net b" for b
    using succ by (simp add: succ_addr_def set_finger_def self(2))
  then show "succ_addr ?net b = succ_addr net b" .
  have "set [0..<Suc (first_index ?ni)] \<subseteq> set [0..<Suc (first_index ni)]" by (auto simp: idx)
  then show "no_gap h ?net self"
    using whole succ_addr [of self] by (auto simp: no_gap_def self(2) list_all_iff set_finger_def)
  have dom: "dom ?net = dom net" using self(2) by (auto simp: set_finger_def)
  have node: "ring_node h addrs (node_of h a)" using resp by (simp add: ring_node_def responsible_def)
  have fingers: "list_all P ((m_fingerTable ni)[f := Some (node_of h a)])"
    if "list_all P (m_fingerTable ni)" "P (Some (node_of h a))" for P
    using that set_update_subset_insert [of "m_fingerTable ni" f "Some (node_of h a)"] by (auto simp: list_all_iff)
  have "live_peer h addrs net self ?ni"
    using live_ringD [OF ring self] node unfolding live_peer_def succ s(4)
    by (auto simp: ni_ok_def intro!: fingers split: option.splits)
  then have "live_peer h addrs ?net b nb" if "b \<in> set addrs" "?net b = Some nb" for b nb
    using that live_ringD [OF ring that(1)] by (intro live_peer_cong [OF dom]) (auto simp: set_finger_def split: if_splits)
  moreover have "\<exists>nb. ?net b = Some nb" if "b \<in> set addrs" for b
    using live_online [OF ring that] by (simp add: set_finger_def)
  ultimately show "live_ring h addrs ?net" using ring by (fastforce simp: live_ring_def list_all_iff)
qed

lemma fixFingers_live:
  assumes ring: "live_ring h addrs net" "no_gap h net self" and self: "self \<in> set addrs" "net self = Some ni"
    and len: "\<And>x. length (h x) = 32" and f: "f < key_bits"
  shows "\<exists>a. responsible h addrs (array_add (addr_id h self) (pow2 32 f)) a \<and>
    fixFingers h self f net =
      Some (Inr (set_finger net self ni f (node_of h a), (f + 1) mod key_bits))"
proof -
  note s = live_neighbours [OF ring(1) self]
  have l: "length (array_add (addr_id h self) (pow2 32 f)) = 32" by (simp add: length_addr_id len)
  obtain a where a: "Dht_getSuccessor h net self (array_add (addr_id h self) (pow2 32 f)) = Some (Some (node_of h a))"
    "responsible h addrs (array_add (addr_id h self) (pow2 32 f)) a"
    using Dht_getSuccessor_live [OF ring(1) self(1) len l] by blast
  then show ?thesis
    using self f s(3) by (intro exI [of _ a]) (simp add: fixFingers_def s(2) setFinger_def set_finger_def)
qed

text \<open>A round that is not cancelled before its end sets the next finger.\<close>

lemma round_live:
  assumes ring: "live_ring h addrs net" "no_gap h net self" and self: "self \<in> set addrs" "net self = Some ni"
    and len: "\<And>x. length (h x) = 32" and f: "f < key_bits"
  shows "\<exists>a. responsible h addrs (array_add (addr_id h self) (pow2 32 f)) a \<and>
    mainLoop_round h sha1 kj bst self (\<lambda>_. False) (net, f) =
      Some (Inr (set_finger net self ni f (node_of h a), (f + 1) mod key_bits, False))"
proof -
  obtain a where a: "responsible h addrs (array_add (addr_id h self) (pow2 32 f)) a"
    "fixFingers h self f net = Some (Inr (set_finger net self ni f (node_of h a), (f + 1) mod key_bits))"
    using fixFingers_live [OF ring self len f] by blast
  note ring' = live_ring_setFinger(1) [OF ring self f a(1)]
  have "mainLoop_round h sha1 kj bst self (\<lambda>_. False) (net, f) =
      Some (Inr (set_finger net self ni f (node_of h a), (f + 1) mod key_bits, False))"
    using a(2) by (simp add: mainLoop_round_def enter_ring_live [OF ring(1) self(1)] stabilize_live [OF ring(1) self(1)]
        Let_def checkPredecessor_live [OF ring' self(1)])
  with a(1) show ?thesis by blast
qed

lemma stable_no_gap:
  assumes "stable_ring h addrs net" and "a \<in> set addrs" and len: "\<And>x. length (h x) = 32"
  shows "no_gap h net a"
proof -
  obtain ni where ni: "net a = Some ni" using stable_online [OF assms(1,2)] by blast
  then have "first_index ni = 0" using first_finger_stable [OF assms(1,2)] by (fastforce simp: first_index_def)
  with ni next_point_in_arc [of "addr_id h a" "addr_id h (succ_addr net a)"] show ?thesis
    by (simp add: no_gap_def length_addr_id [of h, OF len])
qed

lemma no_gap_other:
  assumes "self \<noteq> a"
  shows "no_gap h (set_finger net self ni f n) a = no_gap h net a"
proof -
  have "succ_addr (set_finger net self ni f n) a = succ_addr net a" "set_finger net self ni f n a = net a"
    using assms by (simp_all add: set_finger_def succ_addr_def)
  then show ?thesis by (simp only: no_gap_def)
qed

section \<open>The sample ring\<close>

lemma sample_id_less:
  "(replicate n 0 @ [x] < replicate n 0 @ [y]) = (x < y)" "(replicate n 0 @ [x] \<le> replicate n 0 @ [y]) = (x \<le> y)"
  "(replicate n 0 @ [x] = replicate n 0 @ [y]) = (x = y)" for x y :: byte
  by (induction n) (auto simp: list_le_def)

lemma live_sample_peer:
  assumes "a \<in> set live_addrs" "s \<in> set live_addrs" "p \<in> set live_addrs"
    and "adjacent sample_hash live_addrs (addr_id sample_hash a) (addr_id sample_hash s)"
    and "adjacent sample_hash live_addrs (addr_id sample_hash p) (addr_id sample_hash a)"
    and "case far of None \<Rightarrow> True | Some n \<Rightarrow> departed sample_hash live_addrs net a (addr_id sample_hash s) n"
  shows "live_peer sample_hash live_addrs net a (live_sample_peer a s p far)"
proof -
  have "getSuccessor (live_sample_peer a s p far) = Some (node_of sample_hash s)"
    by (simp add: getSuccessor_def live_sample_peer_def)
  then show ?thesis
    using assms
    by (auto simp: live_peer_def live_sample_peer_def ni_ok_def NodeInformation_init_def key_bits_def ring_node_def list_all_iff
        smap_ok_def split: option.splits)
      (simp_all add: node_of_def)
qed

lemma live_sample: "live_ring sample_hash live_addrs live_net"
proof -
  have adj: "adjacent sample_hash live_addrs (addr_id sample_hash (''a'', 1)) (addr_id sample_hash (''bb'', 1))"
    "adjacent sample_hash live_addrs (addr_id sample_hash (''bb'', 1)) (addr_id sample_hash (''cccccccccc'', 1))"
    "adjacent sample_hash live_addrs (addr_id sample_hash (''cccccccccc'', 1)) (addr_id sample_hash (''a'', 1))"
    by (simp_all add: adjacent_def live_addrs_def sample_id range_simps sample_id_less)
  have gone: "departed sample_hash live_addrs live_net (''a'', 1) (addr_id sample_hash (''bb'', 1)) (node_of sample_hash (''dddddd'', 1))"
    by (simp add: departed_def live_net_def ring_ids_def live_addrs_def sample_id range_simps sample_id_less)
  have "live_peer sample_hash live_addrs live_net (''a'', 1)
      (live_sample_peer (''a'', 1) (''bb'', 1) (''cccccccccc'', 1) (Some (node_of sample_hash (''dddddd'', 1))))"
    by (rule live_sample_peer) (use adj gone in \<open>simp_all add: live_addrs_def\<close>)
  moreover have "live_peer sample_hash live_addrs live_net (''bb'', 1)
      (live_sample_peer (''bb'', 1) (''cccccccccc'', 1) (''a'', 1) None)"
    by (rule live_sample_peer) (use adj in \<open>simp_all add: live_addrs_def\<close>)
  moreover have "live_peer sample_hash live_addrs live_net (''cccccccccc'', 1)
      (live_sample_peer (''cccccccccc'', 1) (''a'', 1) (''bb'', 1) None)"
    by (rule live_sample_peer) (use adj in \<open>simp_all add: live_addrs_def\<close>)
  moreover have "distinct (map (addr_id sample_hash) live_addrs)" by (simp add: live_addrs_def sample_id)
  ultimately show ?thesis unfolding live_ring_def by (simp add: live_addrs_def live_net_def)
qed

section \<open>Properties\<close>

text \<open>
  C16: The lookup gets past peers that have left. On a live ring, where any number of fingers may point to peers
  that are gone, as long as they lie beyond the successors of their peers, the lookup that the peers use
  returns from every peer the one that is responsible for the identifier among those that are left.
\<close>

theorem lookup_skips_departed:
  assumes "live_ring h addrs net" and "b \<in> set addrs" and "net b = Some ni" and "\<And>x. length (h x) = 32" and "length i = 32"
  shows "\<exists>a \<in> set addrs. PeerImpl_getSuccessor h LOCAL (net_env h LOCAL net f) ni i =
      Some (Inr (Some (mkNode h (fst a) (snd a)))) \<and>
    addr_id h a = ring_successor (ring_ids h addrs) i"
  by (rule found_answer [OF lookup_live [OF assms]])

theorem lookup_skips_departed_witness:
  "\<exists>a \<in> set live_addrs. PeerImpl_getSuccessor sample_hash LOCAL (net_env sample_hash LOCAL live_net 0)
      (the (live_net (''a'', 1))) (replicate 31 0 @ [10]) = Some (Inr (Some (mkNode sample_hash (fst a) (snd a)))) \<and>
     addr_id sample_hash a = replicate 31 0 @ [12]"
proof -
  have "(''a'', 1) \<in> set live_addrs" "live_net (''a'', 1) = Some (the (live_net (''a'', 1)))"
    "length (replicate 31 0 @ [10] :: bytes) = 32"
    by (simp_all add: live_addrs_def live_net_def)
  from lookup_skips_departed [OF live_sample this(1,2) sample_len this(3), of 0]
  have "\<exists>a \<in> set live_addrs. PeerImpl_getSuccessor sample_hash LOCAL (net_env sample_hash LOCAL live_net 0)
      (the (live_net (''a'', 1))) (replicate 31 0 @ [10]) = Some (Inr (Some (mkNode sample_hash (fst a) (snd a)))) \<and>
     addr_id sample_hash a = ring_successor (ring_ids sample_hash live_addrs) (replicate 31 0 @ [10])" .
  moreover have "ring_successor (ring_ids sample_hash live_addrs) (replicate 31 0 @ [10]) = replicate 31 0 @ [12]"
    by (rule ring_successor_eqI [where a = "replicate 31 0 @ [4]"])
      (auto simp: ring_ids_def live_addrs_def sample_id range_simps sample_id_less)
  ultimately show ?thesis by simp
qed

end
