(* ===== verification/Fingers.thy ===== *)
theory Fingers
  imports Live
begin

text \<open>
  What the finger tables of Chord are for: once every finger of a stable ring is the one its index
  stands for, a lookup halves, with every hop, the distance to the last peer before the identifier, and
  so needs at most as many hops as an identifier has bits, however many peers the ring has. The rounds
  of the peers' main loops (\<open>Dht::fixFingers\<close>) bring the fingers there, in any order.
\<close>

section \<open>Definitions\<close>

subsection \<open>Finger tables\<close>

text \<open>The finger of index \<open>i\<close> is the peer responsible for the peer's own identifier plus \<open>2 ^ i\<close>.\<close>

definition finger_start :: "(bytes \<Rightarrow> bytes) \<Rightarrow> addr \<Rightarrow> nat \<Rightarrow> bytes" where
  "finger_start h a i = array_add (addr_id h a) (pow2 32 i)"

definition right_finger :: "(bytes \<Rightarrow> bytes) \<Rightarrow> addr list \<Rightarrow> network \<Rightarrow> addr \<Rightarrow> nat \<Rightarrow> bool" where
  "right_finger h addrs net a i \<longleftrightarrow>
     (case net a of
        None \<Rightarrow> False
      | Some ni \<Rightarrow>
          (case m_fingerTable ni ! i of
             None \<Rightarrow> False
           | Some n \<Rightarrow> n = node_of h (addr_of n) \<and> responsible h addrs (finger_start h a i) (addr_of n)))"

definition right_fingers :: "(bytes \<Rightarrow> bytes) \<Rightarrow> addr list \<Rightarrow> network \<Rightarrow> bool" where
  "right_fingers h addrs net \<longleftrightarrow> list_all (\<lambda>a. list_all (right_finger h addrs net a) [0..<key_bits]) addrs"

subsection \<open>Hops\<close>

text \<open>The peers that a lookup for \<open>i\<close> goes through: each is the next hop of the one before it.\<close>

fun hop_path :: "(bytes \<Rightarrow> bytes) \<Rightarrow> network \<Rightarrow> bytes \<Rightarrow> addr list \<Rightarrow> bool" where
  "hop_path h net i [] = False"
| "hop_path h net i [a] = (hop_addr h net a i = None)"
| "hop_path h net i (a # b # path) = (hop_addr h net a i = Some b \<and> hop_path h net i (b # path))"

text \<open>The clockwise distance from one peer to another, on the circle of 256-bit identifiers.\<close>

definition full_circle :: nat where
  "full_circle = 256 ^ 32"

definition id_dist :: "(bytes \<Rightarrow> bytes) \<Rightarrow> addr \<Rightarrow> addr \<Rightarrow> nat" where
  "id_dist h a b = clockwise full_circle (addr_id h a) (addr_id h b)"

text \<open>All peers strictly between \<open>a\<close> and the identifier are less than \<open>2 ^ b\<close> away from \<open>a\<close>.\<close>

definition within :: "(bytes \<Rightarrow> bytes) \<Rightarrow> addr list \<Rightarrow> nat \<Rightarrow> addr \<Rightarrow> bytes \<Rightarrow> bool" where
  "within h addrs b a i \<longleftrightarrow>
     list_all (\<lambda>m. is_in_range_loop (addr_id h m) (addr_id h a) i False False \<longrightarrow>
       id_dist h a m < 2 ^ b) addrs"

subsection \<open>Rounds of several peers\<close>

text \<open>
  The peers in \<open>schedule\<close> run a round of their main loops, one after the other; \<open>nf\<close> has the index of
  every peer's next finger.
\<close>

fun run_rounds ::
    "(bytes \<Rightarrow> bytes) \<Rightarrow> (bytes \<Rightarrow> bytes) \<Rightarrow> kj_library \<Rightarrow> NodeStatics \<Rightarrow> addr list \<Rightarrow> network \<times> (addr \<Rightarrow> nat) \<Rightarrow>
     (network \<times> (addr \<Rightarrow> nat)) result option" where
  "run_rounds h sha1 kj bst [] s = Some (Inr s)"
| "run_rounds h sha1 kj bst (a # schedule) (net, nf) =
     (case mainLoop_round h sha1 kj bst a (\<lambda>_. False) (net, nf a) of
        None \<Rightarrow> None
      | Some (Inl e) \<Rightarrow> Some (Inl e)
      | Some (Inr (net', f', out)) \<Rightarrow> run_rounds h sha1 kj bst schedule (net', nf(a := f')))"

subsection \<open>The sample ring with right fingers\<close>

definition full_peer :: "addr \<Rightarrow> addr \<Rightarrow> NodeInformation" where
  "full_peer a b =
     (sample_peer a b)\<lparr>m_fingerTable := Some (node_of sample_hash b) # replicate 255 (Some (node_of sample_hash (''a'', 1)))\<rparr>"

definition full_net :: network where
  "full_net = [(''a'', 1) \<mapsto> full_peer (''a'', 1) (''bb'', 1), (''bb'', 1) \<mapsto> full_peer (''bb'', 1) (''a'', 1)]"

section \<open>Distances on the circle\<close>

lemma nearest_distance:
  fixes S X K M :: nat
  assumes "S < M" and "X < M" and "K < M"
    and "K \<le> X \<Longrightarrow> K \<le> S \<and> S \<le> X" and "\<not> K \<le> X \<Longrightarrow> \<not> K \<le> S \<Longrightarrow> S \<le> X"
  shows "(if K \<le> S then S - K else S + M - K) \<le> (if K \<le> X then X - K else X + M - K)"
  using assms by (auto split: if_splits)

lemma ring_successor_nearest:
  assumes "finite N" and "x \<in> N" and "\<And>y. y \<in> N \<Longrightarrow> length y = n" and "length k = n"
  shows "ring_successor N k \<in> N" "clockwise (256 ^ n) k (ring_successor N k) \<le> clockwise (256 ^ n) k x"
proof -
  let ?s = "ring_successor N k"
  show s: "?s \<in> N"
  proof (cases "\<exists>y\<in>N. k \<le> y")
    case True
    then have "Min {y \<in> N. k \<le> y} \<in> {y \<in> N. k \<le> y}" using assms(1) by (intro Min_in) auto
    then show ?thesis using True by (simp add: ring_successor_def)
  next
    case False
    then show ?thesis using Min_in [OF assms(1)] assms(2) by (metis ring_successor_def empty_iff)
  qed
  have val: "be_val ?s < 256 ^ n" "be_val x < 256 ^ n" "be_val k < 256 ^ n"
    using be_val_less assms s by metis+
  have le: "y \<le> z \<longleftrightarrow> be_val y \<le> be_val z" if "length y = n" "length z = n" for y z
    using be_val_le_iff that by metis
  have le_s: "k \<le> ?s \<and> ?s \<le> x" if "k \<le> x"
  proof -
    have "Min {y \<in> N. k \<le> y} \<in> {y \<in> N. k \<le> y}" by (rule Min_in) (use assms(1,2) that in auto)
    moreover have "Min {y \<in> N. k \<le> y} \<le> x" by (rule Min_le) (use assms(1,2) that in auto)
    ultimately show ?thesis using that assms(2) by (auto simp: ring_successor_def)
  qed
  have "?s \<le> x" if "\<not> k \<le> x" "\<not> k \<le> ?s"
  proof -
    have "\<not> (\<exists>y\<in>N. k \<le> y)"
    proof
      assume "\<exists>y\<in>N. k \<le> y"
      then have "Min {y \<in> N. k \<le> y} \<in> {y \<in> N. k \<le> y}" using assms(1) by (intro Min_in) auto
      then show False using \<open>\<exists>y\<in>N. k \<le> y\<close> that(2) by (simp add: ring_successor_def)
    qed
    then show ?thesis using assms(1,2) by (simp add: ring_successor_def)
  qed
  with le_s show "clockwise (256 ^ n) k ?s \<le> clockwise (256 ^ n) k x"
    using nearest_distance [OF val] le [of k x] le [of k ?s] le [of ?s x] assms s by (simp add: clockwise_eq)
qed

text \<open>Walking clockwise from \<open>a\<close> over \<open>c\<close> to \<open>m\<close>.\<close>

lemma clockwise_add:
  assumes "length a = n" and "length c = n" and "length m = n"
    and "clockwise (256 ^ n) a c \<le> clockwise (256 ^ n) a m"
  shows "clockwise (256 ^ n) a m = clockwise (256 ^ n) a c + clockwise (256 ^ n) c m"
proof -
  have "be_val a < 256 ^ n" "be_val c < 256 ^ n" "be_val m < 256 ^ n" using be_val_less assms by metis+
  with assms show ?thesis by (auto simp: clockwise_eq split: if_splits)
qed

lemma clockwise_less: "length a = n \<Longrightarrow> length b = n \<Longrightarrow> clockwise (256 ^ n) a b < 256 ^ n"
  by (simp add: clockwise_def)

lemma clockwise_zero: "length a = n \<Longrightarrow> length b = n \<Longrightarrow> clockwise (256 ^ n) a b = 0 \<longleftrightarrow> a = b"
proof -
  assume l: "length a = n" "length b = n"
  have "be_val a < 256 ^ n" using be_val_less [of a] l by simp
  then have "clockwise (256 ^ n) a b = 0 \<longleftrightarrow> be_val a = be_val b" by (auto simp: clockwise_eq [OF l] split: if_splits)
  then show ?thesis using be_val_inj [of a b] l by auto
qed

lemma shift_distance:
  fixes A X P M :: nat
  assumes "A < M" and "X < M" and "P < M" and "D = (if A \<le> X then X - A else X + M - A)" and "K = (A + P) mod M"
  shows "(if K \<le> X then X - K else X + M - K) = (if P \<le> D then D - P else D + M - P)"
proof -
  have "K = (if A + P < M then A + P else A + P - M)" using assms by (simp add: mod_if)
  then show ?thesis using assms(1-4) by (auto split: if_splits)
qed

lemma pow_less_circle: "i < 256 \<Longrightarrow> 2 ^ i < full_circle"
proof -
  assume "i < 256"
  then have "(2::nat) ^ i < 2 ^ 256" by (rule power_strict_increasing) simp
  also have "(2::nat) ^ 256 = 256 ^ 32" by simp
  finally show ?thesis by (simp only: full_circle_def)
qed

text \<open>A node \<open>s\<close> nearest after \<open>a\<close> plus \<open>2 ^ i\<close>, seen from \<open>a\<close>.\<close>

lemma clockwise_shift:
  assumes "length a = 32" and "length x = 32" and "i < 256"
  shows "clockwise (256 ^ 32) (array_add a (pow2 32 i)) x =
    (if 2 ^ i \<le> clockwise (256 ^ 32) a x then clockwise (256 ^ 32) a x - 2 ^ i
     else clockwise (256 ^ 32) a x + 256 ^ 32 - 2 ^ i)"
proof -
  have p: "(2::nat) ^ i < 256 ^ 32" using pow_less_circle [OF assms(3)] by (simp only: full_circle_def)
  have lt: "be_val a < 256 ^ 32" "be_val x < 256 ^ 32" using be_val_less [of a] be_val_less [of x] assms by simp_all
  have k: "be_val (array_add a (pow2 32 i)) = (be_val a + 2 ^ i) mod 256 ^ 32"
    using be_val_array_add [of "pow2 32 i" a] be_val_pow2 [of i 32] assms by simp
  have len: "length (array_add a (pow2 32 i)) = 32" using assms by simp
  show ?thesis
    unfolding clockwise_eq [OF len assms(2)] by (rule shift_distance [OF lt p clockwise_eq [OF assms(1,2)] k])
qed

section \<open>Right fingers\<close>

lemma right_fingerE:
  assumes "right_finger h addrs net a i"
  obtains ni c where "net a = Some ni" "m_fingerTable ni ! i = Some (node_of h c)" "responsible h addrs (finger_start h a i) c"
proof -
  obtain ni n where "net a = Some ni" "m_fingerTable ni ! i = Some n" "n = node_of h (addr_of n)"
    "responsible h addrs (finger_start h a i) (addr_of n)"
    using assms unfolding right_finger_def by (auto split: option.splits)
  then show thesis using that [of ni "addr_of n"] by simp
qed

lemma id_dist_simps:
  assumes "\<And>x. length (h x) = 32"
  shows "id_dist h a b < full_circle" "id_dist h a a = 0" "id_dist h a b = 0 \<longleftrightarrow> addr_id h a = addr_id h b"
  using clockwise_less [of "addr_id h a" 32 "addr_id h b"] clockwise_zero [of "addr_id h a" 32 "addr_id h b"]
    clockwise_zero [of "addr_id h a" 32 "addr_id h a"] length_addr_id [of h, OF assms]
  unfolding id_dist_def full_circle_def by simp_all

text \<open>
  A finger of index \<open>i\<close> is at least \<open>2 ^ i\<close> away, unless it is the peer itself, and not past any peer that
  is as far away.
\<close>

lemma responsible_distance:
  assumes len: "\<And>x. length (h x) = 32" and a: "a \<in> set addrs" and i: "i < 256"
    and c: "responsible h addrs (finger_start h a i) c"
  shows "addr_id h c = addr_id h a \<or> 2 ^ i \<le> id_dist h a c"
    "m \<in> set addrs \<Longrightarrow> 2 ^ i \<le> id_dist h a m \<Longrightarrow> id_dist h a c \<le> id_dist h a m \<and> 2 ^ i \<le> id_dist h a c"
proof -
  let ?k = "finger_start h a i"
  have l: "length (addr_id h x) = 32" for x by (rule length_addr_id [OF len])
  have lk: "length ?k = 32" by (simp add: finger_start_def l)
  have ids: "length y = 32" if "y \<in> ring_ids h addrs" for y using that l by (auto simp: ring_ids_def)
  have near: "clockwise full_circle ?k (addr_id h c) \<le> clockwise full_circle ?k (addr_id h m)" if "m \<in> set addrs" for m
  proof -
    have "finite (ring_ids h addrs)" "addr_id h m \<in> ring_ids h addrs" using that by (simp_all add: ring_ids_def)
    from ring_successor_nearest(2) [OF this ids lk] show ?thesis using c by (simp only: responsible_def full_circle_def)
  qed
  have shift: "clockwise full_circle ?k (addr_id h x) =
      (if 2 ^ i \<le> id_dist h a x then id_dist h a x - 2 ^ i else id_dist h a x + full_circle - 2 ^ i)" for x
    unfolding finger_start_def id_dist_def full_circle_def by (rule clockwise_shift [OF l l i])
  note d = id_dist_simps [of h, OF len]
  have sym: "addr_id h c = addr_id h a \<longleftrightarrow> id_dist h a c = 0" using d(3) [of a c] by auto
  show "addr_id h c = addr_id h a \<or> 2 ^ i \<le> id_dist h a c"
    using near [OF a] d(1) [of a c] pow_less_circle [OF i] unfolding shift d(2) sym by (auto split: if_splits)
  show "id_dist h a c \<le> id_dist h a m \<and> 2 ^ i \<le> id_dist h a c" if "m \<in> set addrs" "2 ^ i \<le> id_dist h a m"
    using near [OF that(1)] that(2) d(1) [of a m] unfolding shift by (auto split: if_splits)
qed

section \<open>A hop halves the distance\<close>

lemma sum_distance:
  fixes A C X M :: nat
  assumes "A < M" and "C < M" and "X < M"
  shows "(if A \<le> X then X - A else X + M - A) =
    ((if A \<le> C then C - A else C + M - A) + (if C \<le> X then X - C else X + M - C)) mod M"
  using assms by (auto simp: mod_if)

lemma clockwise_sum:
  assumes "length a = n" and "length c = n" and "length m = n"
  shows "clockwise (256 ^ n) a m = (clockwise (256 ^ n) a c + clockwise (256 ^ n) c m) mod 256 ^ n"
proof -
  have "be_val a < 256 ^ n" "be_val c < 256 ^ n" "be_val m < 256 ^ n" using be_val_less assms by metis+
  from sum_distance [OF this] show ?thesis by (simp only: clockwise_eq [OF assms(1,3)] clockwise_eq [OF assms(1,2)] clockwise_eq [OF assms(2,3)])
qed

text \<open>Two steps towards the same target add up.\<close>

lemma clockwise_walk:
  assumes len: "length a = n" "length c = n" "length m = n" "length k = n"
    and c: "is_in_range_loop c a k False False" and m: "is_in_range_loop m c k False False"
  shows "clockwise (256 ^ n) a m = clockwise (256 ^ n) a c + clockwise (256 ^ n) c m"
proof -
  let ?d = "clockwise (256 ^ n)"
  have neq: "c \<noteq> a" using c circle.between_irrefl by blast
  have ck: "0 < ?d a c" "?d a c < (if a = k then 256 ^ n else ?d a k)"
    using range_open_clockwise [OF len(2,1,4)] c by simp_all
  then have "c \<noteq> k" using neq by auto
  then have cm: "?d c m < ?d c k" using range_open_clockwise [OF len(3,2,4)] m by simp
  have less: "?d c k < 256 ^ n" by (rule clockwise_less [OF len(2,4)])
  have k: "?d a k = (?d a c + ?d c k) mod 256 ^ n" by (rule clockwise_sum [OF len(1,2,4)])
  have "?d a c + ?d c k \<le> 256 ^ n"
  proof (cases "a = k")
    case True
    then have "(?d a c + ?d c k) mod 256 ^ n = 0" using k clockwise_zero [OF len(1,1)] by simp
    then show ?thesis using clockwise_less [OF len(1,2)] less ck(1) by (cases "?d a c + ?d c k < 256 ^ n") (auto simp: mod_if split: if_splits)
  next
    case False
    then show ?thesis using k ck(2) clockwise_less [OF len(1,2)] less by (cases "?d a c + ?d c k < 256 ^ n") (auto simp: mod_if split: if_splits)
  qed
  then show ?thesis using cm clockwise_sum [OF len(1,2,3)] by simp
qed

lemma hop_index:
  assumes ring: "stable_ring h addrs net" and a: "a \<in> set addrs" "net a = Some ni" and hop: "hop_addr h net a k = Some c"
  shows "\<exists>i < 256. m_fingerTable ni ! i = Some (node_of h c) \<and>
    (\<forall>l f. i < l \<longrightarrow> l < 256 \<longrightarrow> m_fingerTable ni ! l = Some f \<longrightarrow>
       \<not> is_in_range_loop (getId h f) (addr_id h a) k False False)"
proof -
  have len: "length (m_fingerTable ni) = 256"
    using ring a by (auto elim!: stable_peerE [of h addrs net a] simp: ni_ok_def key_bits_def)
  have "getClosestPreceding h ni k = Inr (Some (node_of h c))" using hop_addr_Some [OF ring a, of k] hop by simp
  then show ?thesis
    using getClosestPreceding_loop_cases [of 256 ni h k] len stable_neighbours(2) [OF ring a]
    by (auto simp: getClosestPreceding_def key_bits_def)
qed

lemma within_hop:
  assumes ring: "stable_ring h addrs net" and right: "right_fingers h addrs net" and len: "\<And>x. length (h x) = 32"
    and a: "a \<in> set addrs" and k: "length k = 32" and near: "within h addrs (Suc b) a k" and hop: "hop_addr h net a k = Some c"
  shows "within h addrs b c k"
proof -
  obtain ni where ni: "net a = Some ni" using stable_online [OF ring a] by blast
  have l: "length (addr_id h x) = 32" for x by (rule length_addr_id [OF len])
  have c: "c \<in> set addrs" "is_in_range_loop (addr_id h c) (addr_id h a) k False False"
    using hop_addr_Some [OF ring a ni, of k] hop by simp_all
  obtain i where i: "i < 256" "m_fingerTable ni ! i = Some (node_of h c)"
    "\<And>l f. i < l \<Longrightarrow> l < 256 \<Longrightarrow> m_fingerTable ni ! l = Some f \<Longrightarrow> \<not> is_in_range_loop (getId h f) (addr_id h a) k False False"
    using hop_index [OF ring a ni hop] by blast
  have finger: "\<exists>x. m_fingerTable ni ! j = Some (node_of h x) \<and> responsible h addrs (finger_start h a j) x" if "j < 256" for j
    using right a that ni by (fastforce simp: right_fingers_def list_all_iff key_bits_def elim!: right_fingerE)
  have far: "2 ^ i \<le> id_dist h a c"
  proof -
    obtain x where x: "m_fingerTable ni ! i = Some (node_of h x)" "responsible h addrs (finger_start h a i) x"
      using finger [OF i(1)] by blast
    have "node_of h x = node_of h c" using x(1) i(2) by simp
    from arg_cong [OF this, of addr_of] have "x = c" by simp
    then show ?thesis using responsible_distance(1) [OF len a i(1) x(2)] c(2) circle.between_irrefl by metis
  qed
  have "id_dist h c m < 2 ^ b" if m: "m \<in> set addrs" "is_in_range_loop (addr_id h m) (addr_id h c) k False False" for m
  proof (rule ccontr)
    assume "\<not> id_dist h c m < 2 ^ b"
    have am: "is_in_range_loop (addr_id h m) (addr_id h a) k False False" using c(2) m(2) by (rule circle.between_trans)
    have sum: "id_dist h a m = id_dist h a c + id_dist h c m"
      using clockwise_walk [OF l l l k c(2) m(2)] by (simp only: id_dist_def full_circle_def)
    have small: "id_dist h a m < 2 ^ Suc b" using near m(1) am by (simp add: within_def list_all_iff)
    with sum \<open>\<not> id_dist h c m < 2 ^ b\<close> have close: "id_dist h a c < 2 ^ b" "2 ^ b \<le> id_dist h a m" by simp_all
    have "b < 256"
    proof (rule ccontr)
      assume "\<not> b < 256"
      then have "(2::nat) ^ 256 \<le> 2 ^ b" by (intro power_increasing) simp_all
      moreover have "(2::nat) ^ 256 = full_circle" unfolding full_circle_def by simp
      ultimately show False using close(2) id_dist_simps(1) [of h a m, OF len] by linarith
    qed
    then obtain x where x: "m_fingerTable ni ! b = Some (node_of h x)" "responsible h addrs (finger_start h a b) x" using finger by blast
    have dx: "id_dist h a x \<le> id_dist h a m" "2 ^ b \<le> id_dist h a x"
      using responsible_distance(2) [OF len a \<open>b < 256\<close> x(2) m(1) close(2)] by blast+
    have "is_in_range_loop (addr_id h x) (addr_id h a) k False False"
      using range_open_clockwise [of "addr_id h x" 32 "addr_id h a" k] range_open_clockwise [of "addr_id h m" 32 "addr_id h a" k] l k am dx
      unfolding id_dist_def full_circle_def [symmetric] by (auto simp del: power_Suc intro: less_le_trans [OF zero_less_power])
    then have "b \<le> i" using i(3) [of b "node_of h x"] x(1) \<open>b < 256\<close> by (cases "i < b") simp_all
    then have "(2::nat) ^ b \<le> 2 ^ i" by (rule power_increasing) simp
    with far close(1) show False by linarith
  qed
  then show ?thesis by (simp add: within_def list_all_iff)
qed

lemma within_start: "(\<And>x. length (h x) = 32) \<Longrightarrow> within h addrs 256 a k"
proof -
  assume len: "\<And>x. length (h x) = 32"
  have "full_circle = 2 ^ 256" unfolding full_circle_def by simp
  then show ?thesis using id_dist_simps(1) [of h, OF len] unfolding within_def list_all_iff by metis
qed

lemma within_end:
  assumes "stable_ring h addrs net" and "\<And>x. length (h x) = 32" and "a \<in> set addrs" and "within h addrs 0 a k"
  shows "hop_addr h net a k = None"
proof (cases "hop_addr h net a k")
  case (Some c)
  obtain ni where ni: "net a = Some ni" using stable_online [OF assms(1,3)] by blast
  have c: "c \<in> set addrs" "is_in_range_loop (addr_id h c) (addr_id h a) k False False"
    using hop_addr_Some [OF assms(1,3) ni, of k] Some by simp_all
  then have "id_dist h a c = 0" using assms(4) by (simp add: within_def list_all_iff)
  then have "addr_id h a = addr_id h c" using id_dist_simps(3) [of h a c, OF assms(2)] by simp
  then show ?thesis using c(2) circle.between_irrefl by metis
qed

section \<open>Short routes\<close>

text \<open>
  Routing in which a measure of nearness to the target improves with every hop: a route has no more
  hops than the measure has degrees.
\<close>

locale halving_routing = ring_routing good members ident succ_of next_hop
  for good :: "'s \<Rightarrow> bool" and members :: "'s \<Rightarrow> 'n set" and ident :: "'n \<Rightarrow> 'i::linorder"
    and succ_of :: "'s \<Rightarrow> 'n \<Rightarrow> 'n" and next_hop :: "'s \<Rightarrow> 'n \<Rightarrow> 'i \<Rightarrow> 'n option" +
  fixes target :: "'i \<Rightarrow> bool"
    and near :: "nat \<Rightarrow> 's \<Rightarrow> 'n \<Rightarrow> 'i \<Rightarrow> bool"
    and bits :: nat
  assumes near_start: "good s \<Longrightarrow> n \<in> members s \<Longrightarrow> near bits s n k"
    and near_end: "good s \<Longrightarrow> n \<in> members s \<Longrightarrow> near 0 s n k \<Longrightarrow> next_hop s n k = None"
    and near_hop: "good s \<Longrightarrow> n \<in> members s \<Longrightarrow> target k \<Longrightarrow> near (Suc b) s n k \<Longrightarrow> next_hop s n k = Some c \<Longrightarrow> near b s c k"
begin

lemma short_route:
  assumes good: "good s" and n: "n \<in> members s" and k: "target k"
    and arrived: "\<And>n. n \<in> members s \<Longrightarrow> next_hop s n k = None \<Longrightarrow>
      is_in_range_loop k (ident n) (ident (succ_of s n)) False True \<Longrightarrow> P 0 n"
    and hop: "\<And>n c l. n \<in> members s \<Longrightarrow> c \<in> members s \<Longrightarrow> next_hop s n k = Some c \<Longrightarrow> P l c \<Longrightarrow> P (Suc l) n"
  shows "\<exists>l \<le> bits. P l n"
proof -
  have "\<exists>l \<le> b. P l n" if "near b s n k" "n \<in> members s" for b n
    using that
  proof (induction b arbitrary: n)
    case 0
    from near_end [OF good 0(2,1)] have "next_hop s n k = None" .
    then show ?case using arrived [OF 0(2)] no_hop_responsible [OF good 0(2)] by blast
  next
    case (Suc b)
    show ?case
    proof (cases "next_hop s n k")
      case None
      then show ?thesis using arrived [OF Suc.prems(2)] no_hop_responsible [OF good Suc.prems(2)] by blast
    next
      case (Some c)
      have "near b s c k" "c \<in> members s"
        using near_hop [OF good Suc.prems(2) k Suc.prems(1) Some] hop_member [OF good Suc.prems(2) Some] by simp_all
      with Suc.IH obtain l where "l \<le> b" "P l c" by blast
      then show ?thesis using hop [OF Suc.prems(2) \<open>c \<in> members s\<close> Some] by (intro exI [of _ "Suc l"]) simp
    qed
  qed
  then show ?thesis using near_start good n by blast
qed

end

interpretation chord: halving_routing
    "\<lambda>(addrs, net). stable_ring h addrs net \<and> right_fingers h addrs net \<and> (\<forall>x. length (h x) = 32)"
    "\<lambda>(addrs, net). set addrs" "addr_id h" "\<lambda>(addrs, net). succ_addr net" "\<lambda>(addrs, net). hop_addr h net"
    "\<lambda>k. length k = 32" "\<lambda>b (addrs, net). within h addrs b" 256 for h
proof (unfold_locales, goal_cases)
  case (1 s)
  then show ?case using ring.finite_members [of h s] by (auto split: prod.splits)
next
  case (2 s n)
  then show ?case using ring.succ_member [of h s n] by (auto split: prod.splits)
next
  case (3 s n m)
  then show ?case using ring.succ_adjacent [of h s n m] by (auto split: prod.splits)
next
  case (4 s n k c)
  then show ?case using ring.hop_member [of h s n k c] by (auto split: prod.splits)
next
  case (5 s n k c)
  then show ?case using ring.hop_between [of h s n k c] by (auto split: prod.splits)
next
  case (6 s n k)
  then show ?case using ring.hop_missing [of h s n k] by (auto split: prod.splits)
next
  case (7 s n k)
  obtain addrs net where s: "s = (addrs, net)" by fastforce
  with 7 show ?case using within_start [of h addrs n k] by simp
next
  case (8 s n k)
  obtain addrs net where s: "s = (addrs, net)" by fastforce
  with 8 show ?case using within_end [of h addrs net n k] by simp
next
  case (9 s n k b c)
  obtain addrs net where s: "s = (addrs, net)" by fastforce
  with 9 show ?case using within_hop [of h addrs net n k b c] by simp
qed

lemma short_path:
  assumes "stable_ring h addrs net" and "right_fingers h addrs net" and "\<And>x. length (h x) = 32"
    and "b \<in> set addrs" and "length i = 32"
  shows "\<exists>l \<le> 256. \<exists>path. length path = l \<and> hop_path h net i (b # path) \<and>
    responsible h addrs i (succ_addr net (last (b # path)))"
proof (rule chord.short_route [of h "(addrs, net)" b i, simplified prod.case], goal_cases)
  case (4 n)
  then show ?case using responsible_succ [OF assms(1)] by (intro exI [of _ "[]"]) simp
next
  case (5 n c l)
  then obtain path where "length path = l" "hop_path h net i (c # path)" "responsible h addrs i (succ_addr net (last (c # path)))"
    by blast
  with 5 show ?case by (intro exI [of _ "c # path"]) simp
qed (use assms in simp_all)

lemma short_pass_on:
  assumes ring: "stable_ring h addrs net" and "right_fingers h addrs net" and "\<And>x. length (h x) = 32"
    and "b \<in> set addrs" and i: "length i = 32"
  shows "\<exists>l \<le> 256. \<forall>f \<ge> l. \<forall>ni. net b = Some ni \<longrightarrow>
    found h addrs i (PeerImpl_getSuccessor h PASS_ON (net_env h PASS_ON net f) ni i)"
proof (rule chord.short_route [of h "(addrs, net)" b i, simplified prod.case], goal_cases)
  case (4 n)
  then show ?case using lookup_near [OF ring] stable_neighbours(5) [OF ring] by metis
next
  case (5 n c l)
  then show ?case using pass_on_hop [OF ring _ _ _ i] by blast
qed (use assms in simp_all)

section \<open>The rounds set the fingers\<close>

lemma right_finger_set:
  assumes "net a = Some ni" and "f < length (m_fingerTable ni)" and "responsible h addrs (finger_start h a f) c"
  shows "right_finger h addrs (set_finger net a ni f (node_of h c)) a f"
  using assms by (simp add: right_finger_def set_finger_def)

lemma right_finger_kept:
  assumes "net a = Some ni" and "f < length (m_fingerTable ni)" and "responsible h addrs (finger_start h a f) c"
    and "right_finger h addrs net b j"
  shows "right_finger h addrs (set_finger net a ni f (node_of h c)) b j"
  using assms by (cases "b = a \<and> j = f") (auto simp: right_finger_def set_finger_def nth_list_update split: option.splits)

lemma run_rounds_live:
  assumes "live_ring h addrs net" and "\<And>a. a \<in> set addrs \<Longrightarrow> no_gap h net a" and len: "\<And>x. length (h x) = 32"
    and "set schedule \<subseteq> set addrs" and "\<And>a. nf a < key_bits"
  shows "\<exists>net' nf'. run_rounds h sha1 kj bst schedule (net, nf) = Some (Inr (net', nf')) \<and> live_ring h addrs net' \<and>
    (\<forall>b k. data_at net' b k = data_at net b k) \<and>
    (\<forall>b j. right_finger h addrs net b j \<longrightarrow> right_finger h addrs net' b j) \<and>
    (\<forall>b. \<forall>t < count_list schedule b. right_finger h addrs net' b ((nf b + t) mod key_bits))"
  using assms
proof (induction schedule arbitrary: net nf)
  case Nil
  then show ?case by simp
next
  case (Cons a schedule)
  have a: "a \<in> set addrs" using Cons.prems(4) by simp
  obtain ni where ni: "net a = Some ni" using live_online [OF Cons.prems(1) a] by blast
  obtain c where c: "responsible h addrs (finger_start h a (nf a)) c"
    "mainLoop_round h sha1 kj bst a (\<lambda>_. False) (net, nf a) =
      Some (Inr (set_finger net a ni (nf a) (node_of h c), (nf a + 1) mod key_bits, False))"
    using round_live [OF Cons.prems(1) Cons.prems(2) [OF a] a ni len Cons.prems(5) [of a], of sha1 kj bst]
    unfolding finger_start_def by (auto simp del: split_paired_Ex)
  have table: "nf a < length (m_fingerTable ni)"
    using Cons.prems(5) [of a] live_neighbours(3) [OF Cons.prems(1) a ni] by simp
  let ?net = "set_finger net a ni (nf a) (node_of h c)" and ?nf = "nf(a := (nf a + 1) mod key_bits)"
  note keep = live_ring_setFinger [OF Cons.prems(1) Cons.prems(2) [OF a] a ni Cons.prems(5) c(1) [unfolded finger_start_def]]
  have "no_gap h ?net b" if "b \<in> set addrs" for b
    using keep(2) Cons.prems(2) [OF that] no_gap_other [of a b] by (cases "b = a") simp_all
  moreover have "?nf b < key_bits" for b using Cons.prems(5) by (simp add: key_bits_def)
  moreover have "set schedule \<subseteq> set addrs" using Cons.prems(4) by simp
  ultimately obtain net' nf' where
    run: "run_rounds h sha1 kj bst schedule (?net, ?nf) = Some (Inr (net', nf'))" "live_ring h addrs net'"
    and data: "\<And>b k. data_at net' b k = data_at ?net b k"
    and kept: "\<And>b j. right_finger h addrs ?net b j \<Longrightarrow> right_finger h addrs net' b j"
    and set_: "\<And>b t. t < count_list schedule b \<Longrightarrow> right_finger h addrs net' b ((?nf b + t) mod key_bits)"
    using Cons.IH [of ?net ?nf, OF keep(1) _ len] by blast
  have "right_finger h addrs net' b ((nf b + t) mod key_bits)" if t: "t < count_list (a # schedule) b" for b t
  proof (cases "b = a")
    case True
    show ?thesis
    proof (cases t)
      case 0
      then show ?thesis using True kept right_finger_set [of net a, OF ni table c(1)] Cons.prems(5) by simp
    next
      case (Suc u)
      then have "(nf b + t) mod key_bits = (?nf b + u) mod key_bits" using True by (simp add: mod_add_left_eq)
      then show ?thesis using set_ [of u b] t True Suc by simp
    qed
  qed (use t set_ [of t b] in simp)
  with run data kept show ?case
    by (intro exI [of _ net'] exI [of _ nf'])
      (simp add: c(2) set_finger_data [of net a, OF ni] right_finger_kept [of net a, OF ni table c(1)] del: count_list.simps)
qed

text \<open>Right fingers leave no room for departed peers.\<close>

lemma live_right_stable:
  assumes ring: "live_ring h addrs net" and right: "right_fingers h addrs net" and len: "\<And>x. length (h x) = 32"
  shows "stable_ring h addrs net"
proof -
  have "stable_peer h addrs a ni" if a: "a \<in> set addrs" and ni: "net a = Some ni" for a ni
  proof -
    note s = live_neighbours [OF ring a ni]
    have finger: "\<exists>c. m_fingerTable ni ! f = Some (node_of h c) \<and> responsible h addrs (finger_start h a f) c"
      if "f < key_bits" for f
    proof -
      have "right_finger h addrs net a f" using right a that by (simp add: right_fingers_def list_all_iff)
      then show ?thesis using ni by (auto elim!: right_fingerE simp del: split_paired_Ex)
    qed
    obtain c where c: "m_fingerTable ni ! 0 = Some (node_of h c)" "responsible h addrs (finger_start h a 0) c"
      using finger [of 0] by (auto simp: key_bits_def simp del: split_paired_Ex)
    have "is_in_range_loop (finger_start h a 0) (addr_id h a) (addr_id h (succ_addr net a)) False True"
      unfolding finger_start_def by (rule next_point_in_arc) (simp_all add: length_addr_id len)
    then have "c = succ_addr net a" using live_responsible_unique [OF ring c(2)] live_responsible [OF ring a] by blast
    moreover have "ring_node h addrs n" if n: "Some n \<in> set (m_fingerTable ni)" for n
    proof -
      obtain f where "f < key_bits" "m_fingerTable ni ! f = Some n" using n s(3) by (metis in_set_conv_nth)
      then show ?thesis using finger [of f] by (auto simp: ring_node_def responsible_def)
    qed
    ultimately show ?thesis
      using live_ringD [OF ring a ni] c(1) s(7)
      by (auto simp: stable_peer_def live_peer_def list_all_iff split: option.splits)
  qed
  then show ?thesis using ring live_online [OF ring] by (fastforce simp: stable_ring_def live_ring_def list_all_iff)
qed

lemma rounds_fingers_live:
  assumes ring: "live_ring h addrs net" "\<And>a. a \<in> set addrs \<Longrightarrow> no_gap h net a" and len: "\<And>x. length (h x) = 32"
    and schedule: "set schedule \<subseteq> set addrs" "\<And>a. nf a < key_bits" "\<And>a. a \<in> set addrs \<Longrightarrow> key_bits \<le> count_list schedule a"
  shows "\<exists>net' nf'. run_rounds h sha1 kj bst schedule (net, nf) = Some (Inr (net', nf')) \<and>
    stable_ring h addrs net' \<and> right_fingers h addrs net' \<and> (\<forall>b k. data_at net' b k = data_at net b k)"
proof -
  obtain net' nf' where run: "run_rounds h sha1 kj bst schedule (net, nf) = Some (Inr (net', nf'))"
    "live_ring h addrs net'" "\<forall>b k. data_at net' b k = data_at net b k"
    and set_: "\<And>b t. t < count_list schedule b \<Longrightarrow> right_finger h addrs net' b ((nf b + t) mod key_bits)"
    using run_rounds_live [where nf = nf, OF ring len schedule(1,2), of sha1 kj bst] by blast
  have "right_finger h addrs net' a j" if a: "a \<in> set addrs" and j: "j < key_bits" for a j
  proof -
    let ?t = "(j + key_bits - nf a) mod key_bits"
    have "(nf a + ?t) mod key_bits = (nf a + (j + key_bits - nf a)) mod key_bits" by (simp add: mod_add_right_eq)
    also have "\<dots> = j" using j schedule(2) [of a] by simp
    finally have "(nf a + ?t) mod key_bits = j" .
    moreover have "?t < count_list schedule a" using schedule(3) [OF a] j by (meson mod_less_divisor le_less_trans less_le_trans zero_le)
    ultimately show ?thesis using set_ [of ?t a] by simp
  qed
  then have right: "right_fingers h addrs net'" by (simp add: right_fingers_def list_all_iff)
  with run live_right_stable [OF run(2) right len] show ?thesis by blast
qed

lemma rounds_fingers:
  assumes "stable_ring h addrs net" and "\<And>x. length (h x) = 32" and "set schedule \<subseteq> set addrs"
    and "\<And>a. nf a < key_bits" and "\<And>a. a \<in> set addrs \<Longrightarrow> key_bits \<le> count_list schedule a"
  shows "\<exists>net' nf'. run_rounds h sha1 kj bst schedule (net, nf) = Some (Inr (net', nf')) \<and>
    stable_ring h addrs net' \<and> right_fingers h addrs net' \<and> (\<forall>b k. data_at net' b k = data_at net b k)"
  by (rule rounds_fingers_live [OF stable_live [OF assms(1)] stable_no_gap [OF assms(1)]]) (use assms in auto)

section \<open>The sample ring\<close>

lemma full_stable: "stable_ring sample_hash sample_addrs full_net"
proof -
  have full: "stable_peer sample_hash sample_addrs a (full_peer a b)" if "stable_peer sample_hash sample_addrs a (sample_peer a b)" for a b
  proof -
    have "ring_node sample_hash sample_addrs (node_of sample_hash (''a'', 1))" by (simp add: ring_node_def sample_addrs_def)
    with that show ?thesis by (simp add: stable_peer_def full_peer_def sample_peer_def ni_ok_def key_bits_def list_all_iff)
  qed
  have "distinct (map (addr_id sample_hash) sample_addrs)" by (simp add: sample_addrs_def sample_id)
  moreover have "stable_peer sample_hash sample_addrs (''a'', 1) (full_peer (''a'', 1) (''bb'', 1))"
    "stable_peer sample_hash sample_addrs (''bb'', 1) (full_peer (''bb'', 1) (''a'', 1))"
    by (rule full, rule sample_peer_stable, simp add: sample_addrs_def insert_commute)+
  ultimately show ?thesis unfolding stable_ring_def by (simp add: sample_addrs_def full_net_def)
qed

lemma sample_id_val: "be_val (addr_id sample_hash (''a'', 1)) = 3" "be_val (addr_id sample_hash (''bb'', 1)) = 4"
  by (simp_all add: sample_id be_val_append)

lemma sample_responsible:
  assumes "length k = 32"
  shows "be_val k = 4 \<Longrightarrow> responsible sample_hash sample_addrs k (''bb'', 1)"
    "4 < be_val k \<Longrightarrow> responsible sample_hash sample_addrs k (''a'', 1)"
proof -
  let ?a = "addr_id sample_hash (''a'', 1)" and ?b = "addr_id sample_hash (''bb'', 1)"
  have ids: "ring_ids sample_hash sample_addrs = {?a, ?b}" by (simp add: ring_ids_def sample_addrs_def)
  have l: "length ?a = 32" "length ?b = 32" by (simp_all add: length_addr_id sample_len)
  have le: "k \<le> ?a \<longleftrightarrow> be_val k \<le> 3" "k \<le> ?b \<longleftrightarrow> be_val k \<le> 4" "?a \<le> ?b"
    using be_val_le_iff [of k ?a] be_val_le_iff [of k ?b] be_val_le_iff [of ?a ?b] l assms sample_id_val by simp_all
  show "responsible sample_hash sample_addrs k (''bb'', 1)" if "be_val k = 4"
  proof -
    have "{n \<in> {?a, ?b}. k \<le> n} = {?b}" using that le by auto
    then show ?thesis using le that sample_member by (auto simp: responsible_def ids ring_successor_def)
  qed
  show "responsible sample_hash sample_addrs k (''a'', 1)" if "4 < be_val k"
    using that le sample_member by (simp add: responsible_def ids ring_successor_def min_def)
qed

lemma sample_finger_start:
  assumes "a \<in> set sample_addrs" and "i < 256"
  shows "length (finger_start sample_hash a i) = 32"
    "be_val (finger_start sample_hash a i) = be_val (addr_id sample_hash a) + 2 ^ i"
proof -
  have l: "length (addr_id sample_hash a) = 32" by (simp add: length_addr_id sample_len)
  then show "length (finger_start sample_hash a i) = 32" by (simp add: finger_start_def)
  have "(2::nat) ^ i \<le> 2 ^ 255" using assms(2) by (intro power_increasing) simp_all
  moreover have "be_val (addr_id sample_hash a) \<le> 4" using assms(1) sample_id_val by (auto simp: sample_addrs_def)
  ultimately have "be_val (addr_id sample_hash a) + 2 ^ i < 256 ^ 32" by simp
  then show "be_val (finger_start sample_hash a i) = be_val (addr_id sample_hash a) + 2 ^ i"
    using be_val_array_add [of "pow2 32 i" "addr_id sample_hash a"] be_val_pow2 [of i 32] l assms(2) by (simp add: finger_start_def)
qed

lemma full_right: "right_fingers sample_hash sample_addrs full_net"
proof -
  have later: "responsible sample_hash sample_addrs (finger_start sample_hash a (Suc i)) (''a'', 1)"
    if "a \<in> set sample_addrs" "Suc i < 256" for a i
  proof (rule sample_responsible(2) [OF sample_finger_start(1) [OF that]])
    have "(2::nat) ^ 1 \<le> 2 ^ Suc i" by (rule power_increasing) simp_all
    then show "4 < be_val (finger_start sample_hash a (Suc i))"
      using sample_finger_start(2) [OF that] that(1) sample_id_val by (auto simp: sample_addrs_def simp del: power_Suc)
  qed
  have first: "responsible sample_hash sample_addrs (finger_start sample_hash (''a'', 1) 0) (''bb'', 1)"
    "responsible sample_hash sample_addrs (finger_start sample_hash (''bb'', 1) 0) (''a'', 1)"
    using sample_responsible sample_finger_start [of _ 0] sample_member sample_id_val by simp_all
  have "right_finger sample_hash sample_addrs full_net a i" if "a \<in> set sample_addrs" "i < 256" for a i
    using that first later [of a "i - 1"] by (cases i)
      (auto simp: right_finger_def full_net_def full_peer_def sample_addrs_def)
  then show ?thesis by (simp add: right_fingers_def list_all_iff key_bits_def)
qed

section \<open>Properties\<close>

text \<open>
  C6: Lookups are short. On a stable ring with right fingers, a lookup from any peer goes through at most
  256 further peers (one for each bit of an identifier), each the closest preceding finger of the one
  before, up to the last peer before the identifier, whose successor is responsible; and a request that
  is passed on from peer to peer finds the responsible peer within as many hops, however large the ring is.
\<close>

theorem lookup_hops_bounded:
  assumes "stable_ring h addrs net" and "right_fingers h addrs net" and "\<And>x. length (h x) = 32"
    and "b \<in> set addrs" and "net b = Some ni" and "length i = 32"
  shows "(\<exists>path. hop_path h net i (b # path) \<and> length path \<le> key_bits \<and>
      responsible h addrs i (succ_addr net (last (b # path)))) \<and>
    (\<forall>hops \<ge> key_bits. \<exists>a \<in> set addrs. PeerImpl_getSuccessor h PASS_ON (net_env h PASS_ON net hops) ni i =
        Some (Inr (Some (mkNode h (fst a) (snd a)))) \<and>
      addr_id h a = ring_successor (ring_ids h addrs) i)"
proof -
  have bits: "key_bits = 256" by (simp add: key_bits_def)
  obtain l where l: "l \<le> 256" "\<And>f. l \<le> f \<Longrightarrow>
      found h addrs i (PeerImpl_getSuccessor h PASS_ON (net_env h PASS_ON net f) ni i)"
    using short_pass_on [OF assms(1-4,6)] assms(5) by blast
  have "found h addrs i (PeerImpl_getSuccessor h PASS_ON (net_env h PASS_ON net hops) ni i)" if "key_bits \<le> hops" for hops
    using that l(1) by (intro l(2)) (simp add: bits)
  then show ?thesis using short_path [OF assms(1-4,6)] found_answer unfolding bits by blast
qed

theorem lookup_hops_bounded_witness:
  "(\<exists>path. hop_path sample_hash full_net (replicate 32 9) ((''a'', 1) # path) \<and> length path \<le> key_bits) \<and>
   (\<exists>a \<in> set sample_addrs. PeerImpl_getSuccessor sample_hash PASS_ON (net_env sample_hash PASS_ON full_net 256)
      (full_peer (''a'', 1) (''bb'', 1)) (replicate 32 9) = Some (Inr (Some (mkNode sample_hash (fst a) (snd a)))))"
proof -
  have "full_net (''a'', 1) = Some (full_peer (''a'', 1) (''bb'', 1))" "length (replicate 32 9 :: bytes) = 32"
    by (simp_all add: full_net_def)
  from lookup_hops_bounded [OF full_stable full_right sample_len sample_member(1) this]
  have "(\<exists>path. hop_path sample_hash full_net (replicate 32 9) ((''a'', 1) # path) \<and> length path \<le> key_bits)"
    "\<forall>hops \<ge> key_bits. \<exists>a \<in> set sample_addrs. PeerImpl_getSuccessor sample_hash PASS_ON (net_env sample_hash PASS_ON full_net hops)
      (full_peer (''a'', 1) (''bb'', 1)) (replicate 32 9) = Some (Inr (Some (mkNode sample_hash (fst a) (snd a))))"
    by blast+
  moreover have "key_bits \<le> 256" by (simp add: key_bits_def)
  ultimately show ?thesis by blast
qed

text \<open>
  C14: The rounds of the main loops make the fingers right. On a stable ring, after any schedule in which
  every peer has had at least 256 rounds, in any order and from any position in its finger table, every
  finger of every peer is the one responsible for its start; the ring is still stable and no stored item
  has changed.
\<close>

theorem fingers_converge:
  assumes "stable_ring h addrs net" and "\<And>x. length (h x) = 32" and "set schedule \<subseteq> set addrs"
    and "\<And>a. nf a < key_bits" and "\<And>a. a \<in> set addrs \<Longrightarrow> key_bits \<le> count_list schedule a"
  shows "\<exists>net' nf'. run_rounds h sha1 kj bst schedule (net, nf) = Some (Inr (net', nf')) \<and>
    stable_ring h addrs net' \<and> right_fingers h addrs net' \<and> (\<forall>b k. data_at net' b k = data_at net b k)"
  using rounds_fingers [where nf = nf, OF assms] .

theorem fingers_converge_witness:
  "\<exists>net' nf'. run_rounds sample_hash id sample_kj statics_init (concat (replicate 256 sample_addrs)) (sample_net, \<lambda>_. 3) =
      Some (Inr (net', nf')) \<and> right_fingers sample_hash sample_addrs net'"
proof -
  have count: "count_list (concat (replicate n sample_addrs)) a = (if a \<in> set sample_addrs then n else 0)" for n a
    by (induction n) (auto simp: sample_addrs_def)
  have "set (concat (replicate 256 sample_addrs)) \<subseteq> set sample_addrs" by auto
  from fingers_converge [OF sample_stable sample_len this, of "\<lambda>_. 3" id sample_kj statics_init] count
  show ?thesis by (auto simp: key_bits_def)
qed

end
