(* ===== verification/Growth.thy ===== *)
theory Growth
  imports Join Fingers
begin

text \<open>
  How rings come about: a peer that creates a ring, peers that join it one after the other while the others stabilise,
  and rounds of the main loops afterwards lead to a stable ring in which every finger is right and every item is where it
  belongs: a ring of all of them if the remote call library lets a join wait inside a callback, and of the first one if
  it refuses.
\<close>

section \<open>Definitions\<close>

text \<open>
  Peers join through \<open>b\<close>, one after the other; after each join, the new peer and all others stabilise. A peer whose join
  ends with an exception has ended its main loop, and does not count as one of the ring.
\<close>

fun grow ::
    "(bytes \<Rightarrow> bytes) \<Rightarrow> (bytes \<Rightarrow> bytes) \<Rightarrow> kj_library \<Rightarrow> NodeStatics \<Rightarrow> addr \<Rightarrow> addr list \<Rightarrow> addr list \<Rightarrow> network \<Rightarrow>
     (addr list \<times> network) option" where
  "grow h sha1 kj bst b [] addrs net = Some (addrs, net)"
| "grow h sha1 kj bst b (n # ns) addrs net =
     (case Dht_join h sha1 kj bst n (node_of h b) net of
        None \<Rightarrow> None
      | Some (net1, Inr u) \<Rightarrow> grow h sha1 kj bst b ns (n # addrs) (fold (stabilize h) (n # addrs) net1)
      | Some (net1, Inl e) \<Rightarrow> grow h sha1 kj bst b ns addrs (fold (stabilize h) addrs net1))"

text \<open>A peer that has just been started and can solve the puzzle.\<close>

definition joinable :: "(bytes \<Rightarrow> bytes) \<Rightarrow> (bytes \<Rightarrow> bytes) \<Rightarrow> NodeStatics \<Rightarrow> network \<Rightarrow> addr \<Rightarrow> bool" where
  "joinable h sha1 bst net n \<longleftrightarrow>
     (case net n of None \<Rightarrow> False | Some nn \<Rightarrow> fresh_peer h n nn) \<and>
     \<not> isl (pow_solve sha1 (node_name (fst n) (snd n)) (unat (getDifficulty bst)) 0)"

text \<open>Three peers that have just been started.\<close>

definition started_net :: network where
  "started_net =
     [(''a'', 1) \<mapsto> NodeInformation_init sample_hash ''a'' 1, (''bb'', 1) \<mapsto> NodeInformation_init sample_hash ''bb'' 1,
      (''ccc'', 1) \<mapsto> NodeInformation_init sample_hash ''ccc'' 1]"

definition all_expire :: "addr list \<Rightarrow> network \<Rightarrow> bool" where
  "all_expire addrs net \<longleftrightarrow> (\<forall>y ny. y \<in> set addrs \<longrightarrow> net y = Some ny \<longrightarrow> expires_ok ny)"

definition all_joinable :: "(bytes \<Rightarrow> bytes) \<Rightarrow> (bytes \<Rightarrow> bytes) \<Rightarrow> NodeStatics \<Rightarrow> addr list \<Rightarrow> network \<Rightarrow> addr list \<Rightarrow> bool" where
  "all_joinable h sha1 bst addrs net ns \<longleftrightarrow>
     (\<forall>n \<in> set ns. addr_id h n \<notin> ring_ids h addrs \<and> joinable h sha1 bst net n)"

section \<open>One join after the other\<close>

lemma pred_of_id:
  assumes "stable_ring h addrs net"
  shows "\<exists>p \<in> set addrs. responsible h addrs i (succ_addr net p)"
proof -
  obtain a where "a \<in> set addrs" using assms by (cases addrs) (auto simp: stable_ring_def)
  then have "\<exists>l < card (addr_id h ` set addrs). \<exists>p \<in> set addrs. responsible h addrs i (succ_addr net p)"
    by (rule ring.route_induct [of h "(addrs, net)" a i, simplified prod.case, rotated])
      (use assms responsible_succ [OF assms] in auto)
  then show ?thesis by blast
qed

lemma join_step:
  assumes ring: "stable_ring h addrs net" and n: "addr_id h n \<notin> ring_ids h addrs" "joinable h sha1 bst net n"
    and b: "b \<in> set addrs" and exp: "all_expire addrs net"
    and len: "\<And>x. length (h x) = 32" "\<And>x. length (sha1 x) = 20" and wait: "kj_nested_wait kj"
  shows "\<exists>net1. Dht_join h sha1 kj bst n (node_of h b) net = Some (net1, Inr ()) \<and>
    stable_ring h (n # addrs) (fold (stabilize h) (n # addrs) net1) \<and>
    (\<forall>k a a'. responsible h addrs (h k) a \<longrightarrow> responsible h (n # addrs) (h k) a' \<longrightarrow>
       data_at (fold (stabilize h) (n # addrs) net1) a' k = data_at net a k) \<and>
    (\<forall>x. x \<notin> set (n # addrs) \<longrightarrow> fold (stabilize h) (n # addrs) net1 x = net x) \<and>
    all_expire (n # addrs) (fold (stabilize h) (n # addrs) net1)"
proof -
  obtain nn r where nn: "net n = Some nn" "fresh_peer h n nn"
    "pow_solve sha1 (node_name (fst n) (snd n)) (unat (getDifficulty bst)) 0 = Inr r"
    using n(2) unfolding joinable_def
    by (cases "pow_solve sha1 (node_name (fst n) (snd n)) (unat (getDifficulty bst)) 0") (auto split: option.splits)
  obtain p where p: "p \<in> set addrs" "responsible h addrs (addr_id h n) (succ_addr net p)" using pred_of_id [OF ring] by blast
  have s: "succ_addr net p \<in> set addrs" using ring.succ_member [of h "(addrs, net)" p] ring p(1) by simp
  obtain sn where sn: "net (succ_addr net p) = Some sn" using stable_online [OF ring s] by blast
  have "\<forall>(k, v, e) \<in> set (m_data sn). 0 \<le> e \<and> e < 2 ^ 63" using exp s sn unfolding all_expire_def expires_ok_def list_all_iff by blast
  from join_inserts [OF ring p(1) n(1) p(2) b nn(1,2) sn this len nn(3) wait]
  obtain net1 where j: "Dht_join h sha1 kj bst n (node_of h b) net = Some (net1, Inr ())"
    "stable_ring h (n # addrs) (stabilize h p (stabilize h n net1))"
    "\<forall>k a a'. responsible h addrs (h k) a \<longrightarrow> responsible h (n # addrs) (h k) a' \<longrightarrow>
       data_at (stabilize h p (stabilize h n net1)) a' k = data_at net a k"
    "\<forall>x. x \<notin> set (n # addrs) \<longrightarrow> stabilize h p (stabilize h n net1) x = net x"
    "\<forall>x nx. stabilize h p (stabilize h n net1) x = Some nx \<longrightarrow> x \<in> set (n # addrs) \<longrightarrow>
       (\<forall>y ny. y \<in> set addrs \<longrightarrow> net y = Some ny \<longrightarrow> expires_ok ny) \<longrightarrow> expires_ok nx"
    "\<forall>xs. set xs \<subseteq> set addrs \<longrightarrow> p \<in> set xs \<longrightarrow>
       fold (stabilize h) xs (stabilize h n net1) = stabilize h p (stabilize h n net1)"
    by (elim exE conjE) blast
  have "fold (stabilize h) (n # addrs) net1 = stabilize h p (stabilize h n net1)" using j(6) p(1) by simp
  moreover have "all_expire (n # addrs) (stabilize h p (stabilize h n net1))"
    using j(5) exp unfolding all_expire_def by blast
  ultimately show ?thesis using j(1-4) by (intro exI [of _ net1]) (simp only: simp_thms)
qed

lemma responsible_exists: "stable_ring h addrs net \<Longrightarrow> \<exists>a. responsible h addrs i a"
  using pred_of_id by blast

lemma grow_ring:
  assumes "stable_ring h addrs net" and "b \<in> set addrs" and "distinct (map (addr_id h) ns)"
    and "all_joinable h sha1 bst addrs net ns" and "all_expire addrs net"
    and len: "\<And>x. length (h x) = 32" "\<And>x. length (sha1 x) = 20" and wait: "kj_nested_wait kj"
  shows "\<exists>net'. grow h sha1 kj bst b ns addrs net = Some (rev ns @ addrs, net') \<and> stable_ring h (rev ns @ addrs) net' \<and>
    (\<forall>k a a'. responsible h addrs (h k) a \<longrightarrow> responsible h (rev ns @ addrs) (h k) a' \<longrightarrow> data_at net' a' k = data_at net a k)"
  using assms(1-5)
proof (induction ns arbitrary: addrs net)
  case Nil
  have "data_at net a' k = data_at net a k" if "responsible h addrs (h k) a" "responsible h addrs (h k) a'" for k a a'
    using responsible_unique [OF Nil(1) that] by simp
  moreover have "grow h sha1 kj bst b [] addrs net = Some (rev [] @ addrs, net)" "stable_ring h (rev [] @ addrs) net" using Nil(1) by simp_all
  ultimately show ?case unfolding rev.simps append_Nil by blast
next
  case (Cons n ns)
  have n: "addr_id h n \<notin> ring_ids h addrs" "joinable h sha1 bst net n" using Cons.prems(4) by (simp_all add: all_joinable_def)
  obtain net1 where join: "Dht_join h sha1 kj bst n (node_of h b) net = Some (net1, Inr ())"
    and ring: "stable_ring h (n # addrs) (fold (stabilize h) (n # addrs) net1)"
    and data: "\<And>k a a'. responsible h addrs (h k) a \<Longrightarrow> responsible h (n # addrs) (h k) a' \<Longrightarrow>
       data_at (fold (stabilize h) (n # addrs) net1) a' k = data_at net a k"
    and rest: "\<And>x. x \<notin> set (n # addrs) \<Longrightarrow> fold (stabilize h) (n # addrs) net1 x = net x"
    and exp: "all_expire (n # addrs) (fold (stabilize h) (n # addrs) net1)"
    using join_step [where net = net, OF Cons.prems(1) n Cons.prems(2,5) len wait] by blast
  define net2 where "net2 = fold (stabilize h) (n # addrs) net1"
  have "all_joinable h sha1 bst (n # addrs) net2 ns"
    unfolding all_joinable_def
  proof
    fix m assume m: "m \<in> set ns"
    have "addr_id h m \<noteq> addr_id h n" "addr_id h m \<notin> ring_ids h addrs" "joinable h sha1 bst net m"
      using Cons.prems(3,4) m by (auto simp: image_iff all_joinable_def)
    moreover from this have "m \<notin> set (n # addrs)" by (auto simp: ring_ids_def)
    ultimately show "addr_id h m \<notin> ring_ids h (n # addrs) \<and> joinable h sha1 bst net2 m" using rest [of m] by (simp add: ring_ids_def joinable_def net2_def)
  qed
  then obtain net' where net': "grow h sha1 kj bst b ns (n # addrs) net2 = Some (rev ns @ n # addrs, net')" "stable_ring h (rev ns @ n # addrs) net'"
    "\<And>k a a'. responsible h (n # addrs) (h k) a \<Longrightarrow> responsible h (rev ns @ n # addrs) (h k) a' \<Longrightarrow> data_at net' a' k = data_at net2 a k"
    using Cons.IH [of "n # addrs" net2] ring exp Cons.prems(2,3) unfolding net2_def list.set distinct.simps list.map by blast
  have "data_at net' a' k = data_at net a k" if "responsible h addrs (h k) a" "responsible h (rev ns @ n # addrs) (h k) a'" for k a a'
  proof -
    obtain c where c: "responsible h (n # addrs) (h k) c" using responsible_exists [OF ring] by blast
    show ?thesis using net'(3) [OF c that(2)] data [OF that(1) c] by (simp add: net2_def)
  qed
  with net'(1,2) show ?case by (intro exI [of _ net']) (simp add: join net2_def del: fold_simps)
qed

text \<open>Without nested waits every join ends with an exception, and the ring stays what it was.\<close>

lemma grow_refused:
  assumes "stable_ring h addrs net" and "b \<in> set addrs" and "distinct (map (addr_id h) ns)"
    and "all_joinable h sha1 bst addrs net ns"
    and len: "\<And>x. length (h x) = 32" "\<And>x. length (sha1 x) = 20" and wait: "\<not> kj_nested_wait kj"
  shows "\<exists>net'. grow h sha1 kj bst b ns addrs net = Some (addrs, net') \<and> stable_ring h addrs net' \<and>
    (\<forall>a k. data_at net' a k = data_at net a k)"
  using assms(1-4)
proof (induction ns arbitrary: net)
  case (Cons n ns)
  obtain nn r where n: "addr_id h n \<notin> ring_ids h addrs" "net n = Some nn" "fresh_peer h n nn"
    "pow_solve sha1 (node_name (fst n) (snd n)) (unat (getDifficulty bst)) 0 = Inr r"
    using Cons.prems(4) unfolding all_joinable_def joinable_def
    by (cases "pow_solve sha1 (node_name (fst n) (snd n)) (unat (getDifficulty bst)) 0") (auto split: option.splits)
  obtain p where p: "p \<in> set addrs" "responsible h addrs (addr_id h n) (succ_addr net p)" using pred_of_id [OF Cons.prems(1)] by blast
  define net1 where "net1 = net(n \<mapsto> joined_peer h (succ_addr net p) nn)"
  note refused = join_refused [OF Cons.prems(1) p(1) n(1) p(2) Cons.prems(2) n(2,3) len n(4) wait net1_def]
  have "fold (stabilize h) xs net1 = net1" if "set xs \<subseteq> set addrs" for xs
    using that by (induction xs) (simp_all add: stabilize_ring [OF refused(2)])
  moreover have "all_joinable h sha1 bst addrs net1 ns"
    using Cons.prems(3,4) by (auto simp: all_joinable_def joinable_def net1_def)
  ultimately show ?case using Cons.IH [of net1] refused Cons.prems(2,3) by auto
qed auto

lemma count_list_filter: "P x \<Longrightarrow> count_list (filter P xs) x = count_list xs x"
  by (induction xs) auto

section \<open>The sample\<close>

lemma started_joinable:
  assumes "n \<in> {(''bb'', 1), (''ccc'', 1)}"
  shows "joinable sample_hash (\<lambda>_. replicate 20 0) statics_init started_net n"
proof -
  have "\<not> isl (pow_solve (\<lambda>_. replicate 20 0) puzzle (unat (getDifficulty statics_init)) 0)" for puzzle
    by (subst pow_solve.simps) (simp add: Let_def pow_bits_eq getDifficulty_def statics_init_def DEFAULT_DIFFICULTY_def
        bitset8_def numeral_eq_Suc)
  with assms show ?thesis
    by (auto simp: joinable_def started_net_def fresh_peer_def NodeInformation_init_def node_of_def key_bits_def)
qed

section \<open>Properties\<close>

text \<open>
  C5: A network from nothing. One of several peers that have just been started creates a ring; the others join
  through it, one after the other, with the stabilisations of all after each join; then the main loops of the
  peers of the ring run, in any order, at least 256 rounds for each. All of this returns, and it leads to a stable ring
  in which every finger is the right one, and every item of the first peer that is placed by the hash of its key is held
  by the peer now responsible for it. The ring has all the peers if the remote call library lets a join
  wait inside a callback; if it refuses, as KJ documents, no peer but the first one is ever part of it.
\<close>

theorem network_from_nothing:
  assumes "net a = Some ni" and "ni_ok ni" and "m_node ni = node_of h a" and "\<forall>f \<in> set (m_fingerTable ni). f = None"
    and "expires_ok ni" and "distinct (map (addr_id h) (a # ns))" and "\<And>n. n \<in> set ns \<Longrightarrow> joinable h sha1 bst net n"
    and "\<And>x. length (h x) = 32" and "\<And>x. length (sha1 x) = 20"
    and "\<And>x. nf x < key_bits" and "\<And>x. x \<in> set (a # ns) \<Longrightarrow> key_bits \<le> count_list schedule x"
  shows "\<exists>ring net1 net2 nf'. grow h sha1 kj bst a ns [a] (stabilize h a (create a net)) = Some (ring, net1) \<and>
    ring = (if kj_nested_wait kj then rev ns @ [a] else [a]) \<and>
    run_rounds h sha1 kj bst (filter (\<lambda>x. x \<in> set ring) schedule) (net1, nf) = Some (Inr (net2, nf')) \<and>
    stable_ring h ring net2 \<and> right_fingers h ring net2 \<and>
    (\<forall>k b. responsible h ring (h k) b \<longrightarrow> data_at net2 b k = data_at net a k)"
proof -
  let ?net = "stabilize h a (create a net)"
  have "m_node ni = mkNode h (fst a) (snd a)" using assms(3) by (simp add: node_of_def)
  from create_ring [where net = net and a = a, OF assms(1,2) this assms(4)]
  obtain ni' where c: "?net = net(a \<mapsto> ni')" "m_data ni' = m_data ni" "stable_ring h [a] ?net" by blast
  have new: "all_joinable h sha1 bst [a] ?net ns"
    unfolding all_joinable_def
  proof
    fix n assume n: "n \<in> set ns"
    then have "addr_id h n \<noteq> addr_id h a" using assms(6) by (auto simp: image_iff)
    moreover from this have "n \<noteq> a" by blast
    ultimately show "addr_id h n \<notin> ring_ids h [a] \<and> joinable h sha1 bst ?net n"
      using assms(7) [OF n] by (simp add: ring_ids_def joinable_def c(1))
  qed
  have exp: "all_expire [a] ?net" using assms(5) c(2) by (simp add: c(1) all_expire_def expires_ok_def)
  have mem: "a \<in> set [a]" "distinct (map (addr_id h) ns)" using assms(6) by simp_all
  define ring where "ring = (if kj_nested_wait kj then rev ns @ [a] else [a])"
  have "\<exists>net1. grow h sha1 kj bst a ns [a] ?net = Some (ring, net1) \<and> stable_ring h ring net1 \<and>
    (\<forall>k b b'. responsible h [a] (h k) b \<longrightarrow> responsible h ring (h k) b' \<longrightarrow> data_at net1 b' k = data_at ?net b k)"
  proof (cases "kj_nested_wait kj")
    case True
    then show ?thesis using grow_ring [where net = ?net, OF c(3) mem new exp assms(8,9)] by (simp add: ring_def)
  next
    case False
    then obtain net1 where "grow h sha1 kj bst a ns [a] ?net = Some ([a], net1)" "stable_ring h [a] net1" "\<And>b k. data_at net1 b k = data_at ?net b k"
      using grow_refused [where net = ?net, OF c(3) mem new assms(8,9) False] by blast
    moreover from this have "data_at net1 b' k = data_at ?net b k" if "responsible h [a] (h k) b" "responsible h [a] (h k) b'" for k b b'
      using that by (simp add: responsible_def)
    ultimately show ?thesis using False unfolding ring_def by (intro exI [of _ net1]) (simp only: if_False simp_thms, blast)
  qed
  then obtain net1 where g: "grow h sha1 kj bst a ns [a] ?net = Some (ring, net1)" "stable_ring h ring net1"
    "\<And>k b b'. responsible h [a] (h k) b \<Longrightarrow> responsible h ring (h k) b' \<Longrightarrow> data_at net1 b' k = data_at ?net b k" by blast
  let ?rounds = "filter (\<lambda>x. x \<in> set ring) schedule"
  have sub: "set ?rounds \<subseteq> set ring" by auto
  have "key_bits \<le> count_list ?rounds x" if "x \<in> set ring" for x
  proof -
    have "x \<in> set (a # ns)" using that by (auto simp: ring_def split: if_splits)
    then show ?thesis using assms(11) that by (simp add: count_list_filter)
  qed
  from rounds_fingers [where nf = nf, OF g(2) assms(8) sub assms(10) this, of sha1 kj bst]
  obtain net2 nf' where rounds: "run_rounds h sha1 kj bst ?rounds (net1, nf) = Some (Inr (net2, nf'))" "stable_ring h ring net2"
    "right_fingers h ring net2" "\<And>b k. data_at net2 b k = data_at net1 b k" by blast
  have "data_at net2 b k = data_at net a k" if "responsible h ring (h k) b" for k b
  proof -
    obtain x where x: "responsible h [a] (h k) x" using responsible_exists [OF c(3)] by blast
    then have "x = a" by (simp add: responsible_def)
    then show ?thesis using g(3) [OF x that] rounds(4) assms(1) c(2) by (simp add: data_at_def getData_eq c(1))
  qed
  with g(1) rounds(1-3) show ?thesis by (intro exI [of _ ring] exI [of _ net1] exI [of _ net2] exI [of _ nf']) (simp add: ring_def)
qed

theorem network_from_nothing_witness:
  "\<exists>net1 net2 nf'. grow sample_hash (\<lambda>_. replicate 20 0) sample_kj statics_init (''a'', 1) [(''bb'', 1), (''ccc'', 1)] [(''a'', 1)]
        (stabilize sample_hash (''a'', 1) (create (''a'', 1) started_net)) = Some ([(''ccc'', 1), (''bb'', 1), (''a'', 1)], net1) \<and>
     run_rounds sample_hash (\<lambda>_. replicate 20 0) sample_kj statics_init
       (concat (replicate 256 [(''a'', 1), (''bb'', 1), (''ccc'', 1)])) (net1, \<lambda>_. 0) = Some (Inr (net2, nf')) \<and>
     stable_ring sample_hash [(''ccc'', 1), (''bb'', 1), (''a'', 1)] net2"
proof -
  let ?all = "[(''a'', 1), (''bb'', 1), (''ccc'', 1)] :: addr list" and ?ns = "[(''bb'', 1), (''ccc'', 1)] :: addr list"
  have a: "started_net (''a'', 1) = Some (NodeInformation_init sample_hash ''a'' 1)" by (simp add: started_net_def)
  have ok: "ni_ok (NodeInformation_init sample_hash ''a'' 1)" "m_node (NodeInformation_init sample_hash ''a'' 1) = node_of sample_hash (''a'', 1)"
    "\<forall>f \<in> set (m_fingerTable (NodeInformation_init sample_hash ''a'' 1)). f = None" "expires_ok (NodeInformation_init sample_hash ''a'' 1)"
    by (simp_all add: NodeInformation_init_def ni_ok_def node_of_def expires_ok_def)
  have ids: "distinct (map (addr_id sample_hash) ((''a'', 1) # ?ns))" by (simp add: sample_id)
  have count: "count_list (concat (replicate m ?all)) x = (if x \<in> set ?all then m else 0)" for m x by (induction m) auto
  have filter: "filter (\<lambda>x. x \<in> set [(''ccc'', 1), (''bb'', 1), (''a'', 1)]) (concat (replicate 256 ?all)) = concat (replicate 256 ?all)"
    by (rule filter_True) auto
  have start: "(0::nat) < key_bits" by (simp add: key_bits_def)
  have enough: "key_bits \<le> count_list (concat (replicate 256 ?all)) x" if "x \<in> set ((''a'', 1) # ?ns)" for x
    using that count [of 256 x] by (simp add: key_bits_def)
  have wait: "kj_nested_wait sample_kj" by (simp add: sample_kj_def)
  have sha: "length (replicate 20 0 :: bytes) = 20" by simp
  have join: "joinable sample_hash (\<lambda>_. replicate 20 0) statics_init started_net n" if "n \<in> set ?ns" for n
    by (rule started_joinable) (use that in auto)
  obtain ring net1 net2 nf' where res: "grow sample_hash (\<lambda>_. replicate 20 0) sample_kj statics_init (''a'', 1) ?ns [(''a'', 1)]
        (stabilize sample_hash (''a'', 1) (create (''a'', 1) started_net)) = Some (ring, net1)"
    "ring = (if kj_nested_wait sample_kj then rev ?ns @ [(''a'', 1)] else [(''a'', 1)])"
    "run_rounds sample_hash (\<lambda>_. replicate 20 0) sample_kj statics_init (filter (\<lambda>x. x \<in> set ring) (concat (replicate 256 ?all)))
       (net1, \<lambda>_. 0) = Some (Inr (net2, nf'))" "stable_ring sample_hash ring net2"
    using network_from_nothing [where nf = "\<lambda>_. 0" and kj = sample_kj, OF a ok ids join sample_len sha start enough]
    by blast
  have "ring = [(''ccc'', 1), (''bb'', 1), (''a'', 1)]" using res(2) wait by simp
  with res(1,3,4) filter show ?thesis by metis
qed

end
