(* ===== verification/Departure.thy ===== *)
theory Departure
  imports Fingers Join
begin

text \<open>
  What happens when a peer leaves without a word: its neighbours notice that it does not answer
  (\<open>Dht::stabilize\<close>, \<open>Dht::fixFingers\<close>, \<open>Dht::checkPredecessor\<close>), and the order in which they do decides
  whether the ring closes again.
\<close>

section \<open>Definitions\<close>

text \<open>The new finger of index \<open>f\<close> while the first finger does not answer: the peer itself, or nothing.\<close>

definition lost_finger :: "(bytes \<Rightarrow> bytes) \<Rightarrow> addr \<Rightarrow> addr \<Rightarrow> nat \<Rightarrow> Node option" where
  "lost_finger h q b f =
     (if is_in_range_loop (finger_start h b f) (addr_id h q) (addr_id h b) False True then Some (node_of h b) else None)"

text \<open>A peer \<open>b\<close> with an online predecessor \<open>q\<close> whose successor \<open>x\<close> has left.\<close>

definition bereft :: "(bytes \<Rightarrow> bytes) \<Rightarrow> network \<Rightarrow> addr \<Rightarrow> addr \<Rightarrow> addr \<Rightarrow> NodeInformation \<Rightarrow> bool" where
  "bereft h net q b x ni \<longleftrightarrow>
     net b = Some ni \<and> m_node ni = node_of h b \<and> length (m_fingerTable ni) = key_bits \<and>
     getSuccessor ni = Some (node_of h x) \<and> net x = None \<and> addr_id h x \<noteq> addr_id h b \<and>
     m_predecessor ni = Some (node_of h q) \<and> net q \<noteq> None"

subsection \<open>A gap in a ring\<close>

text \<open>The table after the fingers from \<open>g\<close> up to \<open>g + j\<close> have been replaced.\<close>

definition lost_table :: "(nat \<Rightarrow> Node option) \<Rightarrow> nat \<Rightarrow> nat \<Rightarrow> NodeInformation \<Rightarrow> NodeInformation" where
  "lost_table l g j ni =
     ni\<lparr>m_fingerTable := take g (m_fingerTable ni) @ map l [g..<g + j] @ drop (g + j) (m_fingerTable ni)\<rparr>"

text \<open>\<open>p\<close>, \<open>x\<close> and \<open>y\<close> follow one another on a stable ring with right fingers, and \<open>x\<close> leaves.\<close>

definition consecutive :: "(bytes \<Rightarrow> bytes) \<Rightarrow> addr list \<Rightarrow> network \<Rightarrow> addr \<Rightarrow> addr \<Rightarrow> addr \<Rightarrow> bool" where
  "consecutive h addrs net p x y \<longleftrightarrow>
     stable_ring h addrs net \<and> right_fingers h addrs net \<and> p \<in> set addrs \<and>
     x = succ_addr net p \<and> y = succ_addr net x \<and> y \<noteq> p"

text \<open>The network when \<open>x\<close> has left and \<open>y\<close> has noticed, and when \<open>p\<close> has found \<open>y\<close> and told it.\<close>

definition widowed :: "(bytes \<Rightarrow> bytes) \<Rightarrow> addr \<Rightarrow> addr \<Rightarrow> network \<Rightarrow> network" where
  "widowed h x y net = checkPredecessor h y (net(x := None))"

definition closed_gap :: "(bytes \<Rightarrow> bytes) \<Rightarrow> addr \<Rightarrow> addr \<Rightarrow> addr \<Rightarrow> NodeInformation \<Rightarrow> NodeInformation \<Rightarrow> nat \<Rightarrow> network \<Rightarrow> network" where
  "closed_gap h p x y np ny k net =
     net(x := None, p \<mapsto> np\<lparr>m_fingerTable := replicate k None @ drop k (m_fingerTable np)\<rparr>,
         y \<mapsto> ny\<lparr>m_predecessor := Some (node_of h p)\<rparr>)"

subsection \<open>A sample ring\<close>

text \<open>The three peers with the identifiers 3, 4 and 12, without fingers but their successors.\<close>

definition three_net :: network where
  "three_net = live_net((''a'', 1) \<mapsto> live_sample_peer (''a'', 1) (''bb'', 1) (''cccccccccc'', 1) None)"

section \<open>A successor that does not answer\<close>

text \<open>
  Every lookup at such a peer fails beyond its own arc: between the peer and its successor because the successor
  is asked whether it is online, and elsewhere because the routing asks it for its predecessor.
\<close>

lemma lookup_bereft:
  assumes "bereft h net q b x ni"
  shows "PeerImpl_getSuccessor h LOCAL (net_env h m net f) ni i =
    (if is_in_range_loop i (addr_id h q) (addr_id h b) False True then Some (Inr (Some (node_of h b)))
     else if is_in_range_loop i (addr_id h b) (addr_id h x) False True then Some (Inr None)
     else Some (Inl (Rpc_Exception ''connection refused'')))"
proof -
  have b: "net b = Some ni" "m_node ni = node_of h b" "length (m_fingerTable ni) = key_bits"
    "getSuccessor ni = Some (node_of h x)" "net x = None" "addr_id h x \<noteq> addr_id h b" "m_predecessor ni = Some (node_of h q)"
    using assms by (simp_all add: bereft_def)
  have id: "NI_getId h ni = addr_id h b" using b(2) by (simp add: NI_getId_def)
  obtain c where c: "getClosestPreceding h ni i = Inr c" using getClosestPreceding_total [OF b(3)] by blast
  have "checkResult h (net_env h m net f) ni (node_of h b) i \<lparr>closestPreceding = c, successor = Some (node_of h x)\<rparr> =
      Inl (Rpc_Exception ''connection refused'')"
    using b by (cases c) (simp_all add: checkResult_def Let_def node_eq_def getNode_def net_call_def)
  then have "getSuccessorAlgorithm h (net_env h m net f) ni i [node_of h b] [] =
      Some (Inl (Rpc_Exception ''connection refused''))"
    using b(2,4) c
    by (subst getSuccessorAlgorithm.simps)
      (simp add: getClosestPrecedingHelper_def helper_iterate.simps helper_impl_def node_eq_def getNode_def)
  then show ?thesis
    using b by (simp add: PeerImpl_getSuccessor_def getPredecessor_def id getNode_def net_call_def)
qed

lemma round_bereft:
  assumes b: "bereft h net q b x ni" and f: "f < key_bits" and len: "\<And>x. length (h x) = 32"
  shows "mainLoop_round h sha1 kj bst b (\<lambda>_. False) (net, f) =
    Some (Inr (net(b \<mapsto> ni\<lparr>m_fingerTable := (m_fingerTable ni)[f := lost_finger h q b f]\<rparr>), (f + 1) mod key_bits, False))"
proof -
  have ni: "net b = Some ni" "m_node ni = node_of h b" "length (m_fingerTable ni) = key_bits"
    "getSuccessor ni = Some (node_of h x)" "net x = None" "m_predecessor ni = Some (node_of h q)" "net q \<noteq> None"
    using b by (simp_all add: bereft_def)
  let ?net = "net(b \<mapsto> ni\<lparr>m_fingerTable := (m_fingerTable ni)[f := lost_finger h q b f]\<rparr>)"
  have id: "NI_getId h ni = addr_id h b" using ni(2) by (simp add: NI_getId_def)
  have l: "length (finger_start h b f) = 32" by (simp add: finger_start_def length_addr_id len)
  have "Dht_getSuccessor h net b (finger_start h b f) = Some (lost_finger h q b f)"
    using lookup_bereft [OF b, of LOCAL 0 "finger_start h b f"] ni(1) l
    by (simp add: Dht_getSuccessor_def server_getSuccessor_def lost_finger_def nodeFromReader_opt_simps)
  then have fix_: "fixFingers h b f net = Some (Inr (?net, (f + 1) mod key_bits))"
    using ni(1,3) f by (simp add: fixFingers_def id finger_start_def setFinger_def)
  have "stabilize h b net = net"
    using ni by (simp add: stabilize_def net_call_def send_notify_def update_peer_def)
  moreover have "enter_ring h sha1 kj bst b net = Some (net, Inr ())" using ni by (simp add: enter_ring_def)
  moreover have "checkPredecessor h b ?net = ?net"
    using ni(6,7) by (auto simp: checkPredecessor_def getPredecessor_def net_call_def)
  ultimately show ?thesis using fix_ by (simp add: mainLoop_round_def Let_def)
qed

lemma run_rounds_append:
  "run_rounds h sha1 kj bst (xs @ ys) s =
     (case run_rounds h sha1 kj bst xs s of
        None \<Rightarrow> None | Some (Inl e) \<Rightarrow> Some (Inl e) | Some (Inr s') \<Rightarrow> run_rounds h sha1 kj bst ys s')"
proof (induction xs arbitrary: s)
  case (Cons x xs)
  then show ?case by (cases s) (simp split: option.splits sum.splits prod.splits)
qed simp

lemma lost_table_0 [simp]: "lost_table l g 0 ni = ni"
  by (simp add: lost_table_def)

lemma lost_table_simps [simp]:
  "m_node (lost_table l g j ni) = m_node ni" "m_predecessor (lost_table l g j ni) = m_predecessor ni"
  "g + j \<le> length (m_fingerTable ni) \<Longrightarrow> length (m_fingerTable (lost_table l g j ni)) = length (m_fingerTable ni)"
  by (simp_all add: lost_table_def)

lemma lost_table_Suc:
  assumes "g + j < length (m_fingerTable ni)"
  shows "lost_table l g (Suc j) ni =
    (lost_table l g j ni)\<lparr>m_fingerTable := (m_fingerTable (lost_table l g j ni))[g + j := l (g + j)]\<rparr>"
proof -
  have "drop (g + j) (m_fingerTable ni) = m_fingerTable ni ! (g + j) # drop (Suc (g + j)) (m_fingerTable ni)"
    using assms by (simp add: Cons_nth_drop_Suc)
  then show ?thesis using assms by (simp add: lost_table_def list_update_append)
qed

lemma rounds_bereft:
  assumes b: "bereft h net q b x ni" and len: "\<And>x. length (h x) = 32"
    and succ: "\<And>j. j < n \<Longrightarrow> getSuccessor (lost_table (lost_finger h q b) g j ni) = Some (node_of h x)"
    and "g + n \<le> key_bits" and "nf b = g" and "g < key_bits"
  shows "run_rounds h sha1 kj bst (replicate n b) (net, nf) =
    Some (Inr (net(b \<mapsto> lost_table (lost_finger h q b) g n ni), nf(b := (g + n) mod key_bits)))"
  using succ assms(4)
proof (induction n)
  case 0
  then show ?case using b assms(5,6) by (auto simp: bereft_def fun_upd_idem_iff)
next
  case (Suc n)
  let ?m = "lost_table (lost_finger h q b) g n ni"
  have run: "run_rounds h sha1 kj bst (replicate n b) (net, nf) = Some (Inr (net(b \<mapsto> ?m), nf(b := (g + n) mod key_bits)))"
    using Suc.prems by (intro Suc.IH) simp_all
  have l: "length (m_fingerTable ni) = key_bits" using b by (simp add: bereft_def)
  have "bereft h (net(b \<mapsto> ?m)) q b x ?m"
    using b Suc.prems(1) [of n] Suc.prems(2) by (auto simp: bereft_def)
  from round_bereft [OF this _ len, of "g + n" sha1 kj bst] Suc.prems(2) l
  have "mainLoop_round h sha1 kj bst b (\<lambda>_. False) (net(b \<mapsto> ?m), g + n) =
      Some (Inr (net(b \<mapsto> lost_table (lost_finger h q b) g (Suc n) ni), (g + Suc n) mod key_bits, False))"
    by (simp add: lost_table_Suc)
  then show ?case
    using Suc.prems(2) unfolding replicate_append_same [symmetric] replicate_Suc run_rounds_append run by (simp add: fun_eq_iff)
qed

text \<open>After a full turn that starts behind the first finger, the peer knows no other peer any more.\<close>

lemma rounds_wipe:
  assumes b: "bereft h net q b x ni" and first: "m_fingerTable ni ! 0 = Some (node_of h x)"
    and len: "\<And>x. length (h x) = 32" and nf: "nf b = 1"
  shows "\<exists>ni'. run_rounds h sha1 kj bst (replicate 256 b) (net, nf) = Some (Inr (net(b \<mapsto> ni'), nf)) \<and>
    m_fingerTable ni' = map (lost_finger h q b) [0..<256]"
proof -
  let ?l = "lost_finger h q b" and ?t = "m_fingerTable ni"
  have l: "length ?t = 256" using b by (simp add: bereft_def key_bits_def)
  then obtain ts where ts: "?t = Some (node_of h x) # ts" "length ts = 255" using first by (cases ?t) auto
  have succ: "getSuccessor (lost_table ?l 1 j ni) = Some (node_of h x)" for j
    by (simp add: lost_table_def getSuccessor_def ts(1))
  have run: "run_rounds h sha1 kj bst (replicate 255 b) (net, nf) = Some (Inr (net(b \<mapsto> lost_table ?l 1 255 ni), nf(b := 0)))"
    using rounds_bereft [where nf = nf, OF b len succ, of 255] nf by (simp add: key_bits_def)
  have "bereft h (net(b \<mapsto> lost_table ?l 1 255 ni)) q b x (lost_table ?l 1 255 ni)"
    using b succ l by (auto simp: bereft_def key_bits_def)
  from round_bereft [OF this _ len, of 0 sha1 kj bst]
  have step: "mainLoop_round h sha1 kj bst b (\<lambda>_. False) (net(b \<mapsto> lost_table ?l 1 255 ni), 0) =
      Some (Inr (net(b \<mapsto> (lost_table ?l 1 255 ni)\<lparr>m_fingerTable := (m_fingerTable (lost_table ?l 1 255 ni))[0 := ?l 0]\<rparr>), 1, False))"
    by (simp add: key_bits_def)
  have "replicate 256 b = replicate 255 b @ [b]"
    using replicate_append_same [of 255 b] by (simp add: numeral_eq_Suc)
  then have "run_rounds h sha1 kj bst (replicate 256 b) (net, nf) =
      Some (Inr (net(b \<mapsto> (lost_table ?l 1 255 ni)\<lparr>m_fingerTable := (m_fingerTable (lost_table ?l 1 255 ni))[0 := ?l 0]\<rparr>), nf))"
    using nf by (simp only: run_rounds_append run) (simp add: step fun_eq_iff del: One_nat_def)
  moreover have "(m_fingerTable (lost_table ?l 1 255 ni))[0 := ?l 0] = map ?l [0..<256]"
    using ts by (simp add: lost_table_def upt_rec [of 0 256])
  ultimately show ?thesis by auto
qed

section \<open>A departed peer before the successor\<close>

text \<open>No finger above the index \<open>k\<close> precedes the identifier.\<close>

definition none_above :: "(bytes \<Rightarrow> bytes) \<Rightarrow> addr \<Rightarrow> Node option list \<Rightarrow> nat \<Rightarrow> bytes \<Rightarrow> bool" where
  "none_above h b fingers k i \<longleftrightarrow>
     list_all (\<lambda>f. case f of None \<Rightarrow> True | Some n \<Rightarrow> \<not> is_in_range_loop (getId h n) (addr_id h b) i False False) (drop (Suc k) fingers)"

lemma table_far_finger:
  assumes "length (m_fingerTable ni) = key_bits" and "k < key_bits" and b: "NI_getId h ni = addr_id h b"
    and d: "is_in_range_loop (addr_id h d) (addr_id h b) i False False" and above: "none_above h b (m_fingerTable ni) k i"
  shows "getClosestPreceding h (ni\<lparr>m_fingerTable := (m_fingerTable ni)[k := Some (node_of h d)]\<rparr>) i = Inr (Some (node_of h d))"
proof -
  let ?ni = "ni\<lparr>m_fingerTable := (m_fingerTable ni)[k := Some (node_of h d)]\<rparr>"
  have id: "NI_getId h ?ni = addr_id h b" using b by (simp add: NI_getId_def)
  have "getClosestPreceding_loop h ?ni i (Suc k + j) = Inr (Some (node_of h d))" if "Suc k + j \<le> key_bits" for j
    using that
  proof (induction j)
    case 0
    then show ?case using assms(1) d id by (simp add: getFinger_def)
  next
    case (Suc j)
    then have "m_fingerTable ni ! (Suc k + j) \<in> set (drop (Suc k) (m_fingerTable ni))"
      using assms(1) by (auto simp: in_set_conv_nth intro!: exI [of _ j])
    then have "case m_fingerTable ni ! (Suc k + j) of None \<Rightarrow> True | Some n \<Rightarrow> \<not> is_in_range_loop (getId h n) (addr_id h b) i False False"
      using above by (auto simp: none_above_def list_all_iff)
    then show ?case using Suc assms(1) id by (auto simp: getFinger_def split: option.splits)
  qed
  from this [of "key_bits - Suc k"] assms(2) show ?thesis by (simp add: getClosestPreceding_def)
qed

lemma table_no_finger:
  assumes "stable_ring h addrs net" and "b \<in> set addrs" and "net b = Some ni"
    and d: "is_in_range_loop (addr_id h d) (addr_id h b) (addr_id h (succ_addr net b)) False False"
  shows "getClosestPreceding h (ni\<lparr>m_fingerTable := (m_fingerTable ni)[k := Some (node_of h d)]\<rparr>) (addr_id h d) = Inr None"
proof -
  let ?ni = "ni\<lparr>m_fingerTable := (m_fingerTable ni)[k := Some (node_of h d)]\<rparr>"
  note s = stable_neighbours [OF assms(1-3)]
  have l: "length (m_fingerTable ?ni) = key_bits" using stable_table [OF assms(1-3)] by simp
  have id: "NI_getId h ?ni = addr_id h b" using s(2) by (simp add: NI_getId_def)
  obtain c where c: "getClosestPreceding h ?ni (addr_id h d) = Inr c" using getClosestPreceding_total [OF l] by blast
  have False if n: "c = Some n" for n
  proof -
    have mem: "Some n \<in> set (m_fingerTable ?ni)" "is_in_range_loop (getId h n) (addr_id h b) (addr_id h d) False False"
      using getClosestPreceding_Some [OF c [unfolded n] l] id by auto
    then have "n \<noteq> node_of h d" using shrink_arc(2) [of "addr_id h d" "addr_id h b"] by auto
    then have "Some n \<in> set (m_fingerTable ni)"
      using mem(1) set_update_subset_insert [of "m_fingerTable ni" k "Some (node_of h d)"] by auto
    then obtain m where "m \<in> set addrs" "n = node_of h m"
      using assms(1-3) by (auto elim!: stable_peerE [of h addrs net b] ring_nodeE)
    then show False using adjacentD [OF s(6)] shrink_arc(1) [OF d mem(2)] by auto
  qed
  with c show ?thesis by (cases c) auto
qed

lemma lookup_misrouted:
  assumes ring: "stable_ring h addrs net" and b: "b \<in> set addrs" "net b = Some ni" and i: "length i = 32"
    and len: "\<And>x. length (h x) = 32"
    and d: "net d = None" "is_in_range_loop (addr_id h d) (addr_id h b) (addr_id h (succ_addr net b)) False False"
    and far: "\<not> responsible h addrs i b" "\<not> responsible h addrs i (succ_addr net b)"
    and k: "0 < k" "k < key_bits" "none_above h b (m_fingerTable ni) k i"
    and ni': "ni' = ni\<lparr>m_fingerTable := (m_fingerTable ni)[k := Some (node_of h d)]\<rparr>"
  shows "PeerImpl_getSuccessor h LOCAL (net_env h m (net(b \<mapsto> ni')) f) ni' i = Some (Inr (Some (node_of h (succ_addr net b))))"
proof -
  let ?net = "net(b \<mapsto> ni')" and ?s = "succ_addr net b"
  note s = stable_neighbours [OF ring b]
  have l: "length (m_fingerTable ni) = key_bits" by (rule stable_table [OF ring b])
  have same: "m_node ni' = node_of h b" "NI_getId h ni' = addr_id h b" "m_predecessor ni' = m_predecessor ni"
    using s(1,2) by (simp_all add: ni' NI_getId_def)
  obtain p where p: "p \<in> set addrs" "m_predecessor ni = Some (node_of h p)" using s(5) by blast
  have own: "\<not> is_in_range_loop i (addr_id h p) (addr_id h b) False True"
    using own_arc_responsible [OF ring b p(2)] far(1) by auto
  have beyond: "is_in_range_loop (addr_id h ?s) (addr_id h b) i False False"
    using responsible_succ [OF ring b(1)] far(2) circle.up_to_iff by blast
  then have d_i: "is_in_range_loop (addr_id h d) (addr_id h b) i False False" using shrink_arc(1) d(2) by blast
  have sb: "?s \<noteq> b"
    using beyond circle.between_irrefl by metis
  obtain ns where ns: "net ?s = Some ns" "m_predecessor ns = Some (node_of h b)" using pred_of_succ [OF ring b(1)] by blast
  have gone: "departed h addrs ?net b (addr_id h d) (node_of h d)"
  proof -
    have "d \<notin> set addrs" using d(1) stable_online [OF ring] by fastforce
    moreover have "addr_id h d \<notin> ring_ids h addrs"
      using d(2) adjacentD [OF s(6)] by (auto simp: ring_ids_def)
    ultimately show ?thesis using d(1) b(1) shrink_arc(2) by (auto simp: departed_def)
  qed
  have d_b: "\<not> node_eq h (node_of h d) (getNode ni')"
    using gone b(1) by (auto simp: departed_def ring_ids_def node_eq_def getNode_def same(1))
  have succ: "getSuccessor ni' = Some (node_of h ?s)"
  proof -
    obtain n fs where "m_fingerTable ni = Some n # fs" using first_finger_stable [OF ring b] by blast
    then show ?thesis using s(3) k(1) by (cases k) (simp_all add: ni' getSuccessor_def)
  qed
  have check: "checkResult h (net_env h m ?net f) ni' (node_of h b) i \<lparr>closestPreceding = c, successor = getSuccessor ni'\<rparr> =
      Inr \<lparr>closestPreceding = c, successor = Some (node_of h ?s)\<rparr>"
    if "\<And>n. c = Some n \<Longrightarrow> is_in_range_loop (getId h n) (addr_id h b) i False False" for c
  proof -
    have "addr_id h ?s \<noteq> addr_id h b" using sb addr_id_inj [OF ring s(4) b(1)] by simp
    moreover have "is_in_range_loop i (addr_id h b) (addr_id h b) False True" by (auto simp: range_simps)
    ultimately show ?thesis
      using that sb ns by (cases c) (simp_all add: checkResult_def succ Let_def node_eq_def getNode_def same net_call_def
          server_getPredecessor_def getPredecessor_def nodeFromReader_opt_simps)
  qed
  have impl: "helper_impl h (net_env h m ?net f) ni' (node_of h b) i i =
      Inr \<lparr>closestPreceding = Some (node_of h d), successor = Some (node_of h ?s)\<rparr>"
    "helper_impl h (net_env h m ?net f) ni' (node_of h b) i (addr_id h d) =
      Inr \<lparr>closestPreceding = None, successor = Some (node_of h ?s)\<rparr>"
    using table_far_finger [OF l k(2) s(2) d_i k(3)] table_no_finger [OF ring b d(2), of k] check [of "Some (node_of h d)"] check [of None] d_i
    by (simp_all add: helper_impl_def node_eq_def getNode_def same(1) ni' [symmetric])
  have "helper_iterate h (net_env h m ?net f) ni' (node_of h b) i [node_of h d] (addr_id h d) =
      Some (Inr \<lparr>closestPreceding = None, successor = Some (node_of h ?s)\<rparr>)"
    by (subst helper_iterate.simps) (simp add: impl(2))
  then have again: "helper_iterate h (net_env h m ?net f) ni' (node_of h b) i [node_of h d] i =
      Some (Inr \<lparr>closestPreceding = None, successor = Some (node_of h ?s)\<rparr>)"
    by (subst helper_iterate.simps) (simp add: impl(1) uset_contains_def node_eq_def)
  have "getSuccessorAlgorithm h (net_env h m ?net f) ni' i [node_of h b] [] =
      getSuccessorAlgorithm h (net_env h m ?net f) ni' i [node_of h d, node_of h b] []"
    by (subst getSuccessorAlgorithm.simps)
      (simp add: getClosestPrecedingHelper_def helper_iterate.simps [of h _ _ _ _ "[]"] impl(1) uset_contains_def)
  also have "\<dots> = getSuccessorAlgorithm h (net_env h m ?net f) ni' i [node_of h b] [node_of h d]"
    using algorithm_departed [OF same(1) b(1) gone] by (simp add: uset_insert_def uset_contains_def)
  also have "\<dots> = Some (Inr (Some (node_of h ?s)))"
    by (subst getSuccessorAlgorithm.simps) (simp add: getClosestPrecedingHelper_def again)
  finally show ?thesis
    using own beyond circle.up_to_iff [of i "addr_id h b" "addr_id h ?s"]
    by (simp add: PeerImpl_getSuccessor_def getPredecessor_def same succ p(2) getNode_def)
qed

section \<open>Closing the gap\<close>

lemma start_in_arc:
  assumes len: "\<And>x. length (h x) = 32" and f: "f < 256" and "addr_id h p \<noteq> addr_id h c"
  shows "is_in_range_loop (finger_start h p f) (addr_id h p) (addr_id h c) False True \<longleftrightarrow> 2 ^ f \<le> id_dist h p c"
proof -
  have l: "length (addr_id h x) = 32" for x by (rule length_addr_id [OF len])
  have ls: "length (finger_start h p f) = 32" by (simp add: finger_start_def l)
  have lt: "be_val (addr_id h p) < full_circle" using be_val_less [of "addr_id h p"] by (simp add: l full_circle_def)
  have pow: "2 ^ f < full_circle" by (rule pow_less_circle [OF f])
  have "be_val (finger_start h p f) = (be_val (addr_id h p) + 2 ^ f) mod full_circle"
    using be_val_array_add [of "pow2 32 f" "addr_id h p"] be_val_pow2 [of f 32] f by (simp add: finger_start_def full_circle_def l)
  then have "clockwise full_circle (addr_id h p) (finger_start h p f) = 2 ^ f"
    using lt pow clockwise_eq [OF l [of p] ls, folded full_circle_def] by (auto simp: mod_if split: if_splits)
  then show ?thesis
    unfolding range_half_open_clockwise [OF ls l l] id_dist_def full_circle_def [symmetric] using assms(3) by simp
qed

lemma consecutive_facts:
  assumes "consecutive h addrs net p x y"
  shows "x \<in> set addrs" "y \<in> set addrs" "p \<noteq> x" "x \<noteq> y" "p \<noteq> y"
    "is_in_range_loop (addr_id h x) (addr_id h p) (addr_id h y) False False"
proof -
  have ring: "stable_ring h addrs net" and p: "p \<in> set addrs" and x: "x = succ_addr net p" and y: "y = succ_addr net x"
    and "y \<noteq> p" using assms by (auto simp: consecutive_def)
  obtain np where np: "net p = Some np" using stable_online [OF ring p] by blast
  note sp = stable_neighbours [OF ring p np]
  show xa: "x \<in> set addrs" using sp(4) x by simp
  obtain nx where nx: "net x = Some nx" using stable_online [OF ring xa] by blast
  note sx = stable_neighbours [OF ring xa nx]
  show ya: "y \<in> set addrs" using sx(4) y by simp
  show px: "p \<noteq> x" and "p \<noteq> y" using x y \<open>y \<noteq> p\<close> by auto
  show xy: "x \<noteq> y" using succ_addr_inj [OF ring p xa] x y px by auto
  have "addr_id h p \<noteq> addr_id h x" "addr_id h x \<noteq> addr_id h y" "addr_id h p \<noteq> addr_id h y"
    using px xy \<open>y \<noteq> p\<close> addr_id_inj [OF ring] p xa ya by auto
  moreover have "\<not> is_in_range_loop (addr_id h y) (addr_id h p) (addr_id h x) False False"
    using adjacentD [OF sp(6) ya] x by simp
  ultimately show "is_in_range_loop (addr_id h x) (addr_id h p) (addr_id h y) False False"
    by (auto simp: range_simps split: if_splits)
qed

text \<open>
  Which fingers of \<open>p\<close> were the peer that left: those up to its distance. The first one beyond it is \<open>y\<close>, unless
  the fingers skip \<open>y\<close>.
\<close>

lemma fingers_at_gap:
  assumes c: "consecutive h addrs net p x y" and np: "net p = Some np" and len: "\<And>x. length (h x) = 32"
    and f: "f < key_bits"
  shows "2 ^ f \<le> id_dist h p x \<Longrightarrow> m_fingerTable np ! f = Some (node_of h x)"
    "id_dist h p x < 2 ^ f \<Longrightarrow> m_fingerTable np ! f \<noteq> Some (node_of h x)"
    "id_dist h p x < 2 ^ f \<Longrightarrow> 2 ^ f \<le> id_dist h p y \<Longrightarrow> m_fingerTable np ! f = Some (node_of h y)"
proof -
  have ring: "stable_ring h addrs net" and right: "right_fingers h addrs net" and p: "p \<in> set addrs"
    and x: "x = succ_addr net p" and y: "y = succ_addr net x" using c by (auto simp: consecutive_def)
  note k = consecutive_facts [OF c]
  have f': "f < 256" using f by (simp add: key_bits_def)
  have ne: "addr_id h p \<noteq> addr_id h x" "addr_id h p \<noteq> addr_id h y" using k addr_id_inj [OF ring] p by auto
  have "right_finger h addrs net p f" using right p f by (simp add: right_fingers_def list_all_iff)
  then obtain d where d: "m_fingerTable np ! f = Some (node_of h d)" "responsible h addrs (finger_start h p f) d"
    using np by (auto elim!: right_fingerE)
  have d_x: "d = x \<longleftrightarrow> 2 ^ f \<le> id_dist h p x"
    using responsible_iff [OF ring p, of "finger_start h p f"] start_in_arc [OF len f' ne(1)] d(2)
      responsible_unique [OF ring d(2)] x by metis
  have node: "node_of h d = node_of h z \<longleftrightarrow> d = z" for z by (metis node_of_simps(3))
  show "2 ^ f \<le> id_dist h p x \<Longrightarrow> m_fingerTable np ! f = Some (node_of h x)"
    and "id_dist h p x < 2 ^ f \<Longrightarrow> m_fingerTable np ! f \<noteq> Some (node_of h x)"
    using d(1) d_x by (auto simp: node)
  assume "id_dist h p x < 2 ^ f" "2 ^ f \<le> id_dist h p y"
  then have "is_in_range_loop (finger_start h p f) (addr_id h x) (addr_id h y) False True"
    using start_in_arc [OF len f' ne(1)] start_in_arc [OF len f' ne(2)] gap_facts(7) [OF k(6)] by auto
  then have "responsible h addrs (finger_start h p f) y" using responsible_succ [OF ring k(1)] y by simp
  then show "m_fingerTable np ! f = Some (node_of h y)" using responsible_unique [OF ring d(2)] d(1) by auto
qed

lemma widowed_eq:
  assumes c: "consecutive h addrs net p x y" and ny: "net y = Some ny"
  shows "widowed h x y net = net(x := None, y \<mapsto> ny\<lparr>m_predecessor := None\<rparr>)"
proof -
  have ring: "stable_ring h addrs net" and y: "y = succ_addr net x" using c by (auto simp: consecutive_def)
  note k = consecutive_facts [OF c]
  have "m_predecessor ny = Some (node_of h x)" using pred_of_succ [OF ring k(1)] ny y by auto
  then show ?thesis
    using k(4) ny by (simp add: widowed_def checkPredecessor_def getPredecessor_def net_call_def setPredecessor_def)
qed

lemma first_finger_replicate: "first_finger (replicate k None @ fs) = first_finger fs"
  by (induction k) simp_all

text \<open>A peer that keeps its neighbours has at worst a departed finger beyond its successor.\<close>

lemma bystander_live:
  assumes c: "consecutive h addrs net p x y" and z: "z \<in> set addrs" "z \<noteq> x" "z \<noteq> p"
    and ni: "net z = Some ni" "m_node ni' = m_node ni" "m_fingerTable ni' = m_fingerTable ni" "ni_ok ni'"
    and pred: "case m_predecessor ni' of None \<Rightarrow> False | Some q \<Rightarrow>
      ring_node h (remove1 x addrs) q \<and> adjacent h (remove1 x addrs) (getId h q) (addr_id h z)"
    and gone: "net' x = None"
  shows "live_peer h (remove1 x addrs) net' z ni'" "getSuccessor ni' = Some (node_of h (succ_addr net z))" "first_index ni' = 0"
proof -
  have ring: "stable_ring h addrs net" and x: "x = succ_addr net p" and p: "p \<in> set addrs" using c by (auto simp: consecutive_def)
  note k = consecutive_facts [OF c]
  have d: "distinct addrs" "inj_on (addr_id h) (set addrs)" using ring by (simp_all add: stable_ring_def distinct_map)
  then have rest: "set (remove1 x addrs) = set addrs - {x}" by simp
  note s = stable_neighbours [OF ring z(1) ni(1)]
  obtain fs where fs: "m_fingerTable ni = Some (node_of h (succ_addr net z)) # fs"
    "\<And>f. Some f \<in> set fs \<Longrightarrow> ring_node h addrs f" using first_finger_stable [OF ring z(1) ni(1)] by blast
  show succ: "getSuccessor ni' = Some (node_of h (succ_addr net z))" by (simp add: getSuccessor_def ni(3) fs(1))
  show "first_index ni' = 0" by (simp add: first_index_def ni(3) fs(1))
  have "succ_addr net z \<noteq> x" using succ_addr_inj [OF ring z(1) p] z(3) x by metis
  then have member: "ring_node h (remove1 x addrs) (node_of h (succ_addr net z))" using s(4) rest by (simp add: ring_node_def)
  have adj: "adjacent h (remove1 x addrs) (addr_id h z) (addr_id h (succ_addr net z))"
    using s(6) rest by (auto simp: adjacent_def list_all_iff)
  have "addr_id h x \<notin> ring_ids h (remove1 x addrs)" using d(2) k(1) rest by (auto simp: ring_ids_def inj_on_def)
  then have dep: "departed h (remove1 x addrs) net' z (addr_id h (succ_addr net z)) (node_of h x)"
    using gone adjacentD [OF s(6) k(1)] by (simp add: departed_def)
  have "ring_node h (remove1 x addrs) f \<or> departed h (remove1 x addrs) net' z (addr_id h (succ_addr net z)) f"
    if "Some f \<in> set (m_fingerTable ni')" for f
  proof -
    have "ring_node h addrs f" using that fs s(4) by (auto simp: ni(3) ring_node_def)
    then obtain a where "a \<in> set addrs" "f = node_of h a" by (rule ring_nodeE)
    then show ?thesis using dep rest by (cases "a = x") (simp_all add: ring_node_def)
  qed
  then show "live_peer h (remove1 x addrs) net' z ni'"
    using pred ni(2,4) s(1) member adj by (auto simp: live_peer_def succ list_all_iff split: option.splits)
qed

lemma adjacent_over_gap:
  assumes c: "consecutive h addrs net p x y"
  shows "adjacent h (remove1 x addrs) (addr_id h p) (addr_id h y)"
proof -
  have ring: "stable_ring h addrs net" and p: "p \<in> set addrs" and x: "x = succ_addr net p" and y: "y = succ_addr net x"
    using c by (auto simp: consecutive_def)
  note k = consecutive_facts [OF c]
  obtain np nx where n: "net p = Some np" "net x = Some nx" using stable_online [OF ring] p k(1) by blast
  have "\<not> is_in_range_loop (addr_id h m) (addr_id h p) (addr_id h y) False False" if m: "m \<in> set (remove1 x addrs)" for m
  proof -
    have m': "m \<in> set addrs" "m \<noteq> x" using m ring by (simp_all add: stable_ring_def distinct_map)
    then have "addr_id h m \<noteq> addr_id h x" using addr_id_inj [OF ring _ k(1)] by simp
    moreover have "\<not> is_in_range_loop (addr_id h m) (addr_id h p) (addr_id h x) False False"
      "\<not> is_in_range_loop (addr_id h m) (addr_id h x) (addr_id h y) False False"
      using adjacentD [OF stable_neighbours(6) [OF ring p n(1)] m'(1)] adjacentD [OF stable_neighbours(6) [OF ring k(1) n(2)] m'(1)] x y
      by simp_all
    ultimately show ?thesis using k(6) by (auto simp: range_simps split: if_splits)
  qed
  then show ?thesis by (simp add: adjacent_def list_all_iff)
qed

lemma pred_stays:
  assumes c: "consecutive h addrs net p x y" and z: "z \<in> set addrs" "z \<noteq> y" "net z = Some ni"
  shows "case m_predecessor ni of None \<Rightarrow> False | Some q \<Rightarrow>
    ring_node h (remove1 x addrs) q \<and> adjacent h (remove1 x addrs) (getId h q) (addr_id h z)"
proof -
  have ring: "stable_ring h addrs net" and y: "y = succ_addr net x" using c by (auto simp: consecutive_def)
  have rest: "set (remove1 x addrs) = set addrs - {x}" using ring by (simp add: stable_ring_def distinct_map)
  obtain q where q: "q \<in> set addrs" "m_predecessor ni = Some (node_of h q)" "adjacent h addrs (addr_id h q) (addr_id h z)"
    using stable_neighbours(5) [OF ring z(1,3)] by blast
  then have "q \<noteq> x" using succ_of_pred [OF ring z(1) q(1,3)] z(2) y by auto
  with q rest show ?thesis by (auto simp: ring_node_def adjacent_def list_all_iff)
qed

lemma finder_live:
  assumes c: "consecutive h addrs net p x y" and np: "net p = Some np" and len: "\<And>x. length (h x) = 32"
    and k: "k < key_bits" "id_dist h p x < 2 ^ k" "2 ^ k \<le> id_dist h p y"
    and ni: "ni = np\<lparr>m_fingerTable := replicate k None @ drop k (m_fingerTable np)\<rparr>"
  shows "live_peer h (remove1 x addrs) net' p ni" "getSuccessor ni = Some (node_of h y)" "first_index ni = k"
proof -
  have ring: "stable_ring h addrs net" and p: "p \<in> set addrs" using c by (auto simp: consecutive_def)
  note t = consecutive_facts [OF c]
  have rest: "set (remove1 x addrs) = set addrs - {x}" using ring by (simp add: stable_ring_def distinct_map)
  have l: "length (m_fingerTable np) = key_bits" by (rule stable_table [OF ring p np])
  have at_k: "drop k (m_fingerTable np) = Some (node_of h y) # drop (Suc k) (m_fingerTable np)"
    using fingers_at_gap(3) [OF c np len k] k(1) l Cons_nth_drop_Suc [of k "m_fingerTable np"] by simp
  show succ: "getSuccessor ni = Some (node_of h y)"
    by (simp add: getSuccessor_def ni at_k first_finger_replicate)
  show "first_index ni = k" by (simp add: first_index_def ni at_k takeWhile_append)
  have y: "ring_node h (remove1 x addrs) (node_of h y)" using t(2,4) rest by (simp add: ring_node_def)
  have "ring_node h (remove1 x addrs) f" if "Some f \<in> set (m_fingerTable ni)" for f
  proof -
    have "Some f \<in> set (drop k (m_fingerTable np))" using that by (auto simp: ni)
    then obtain j where j: "k + j < key_bits" "m_fingerTable np ! (k + j) = Some f" using l by (auto simp: in_set_conv_nth less_diff_conv add.commute)
    have "id_dist h p x < 2 ^ (k + j)" using k(2) by (rule less_le_trans) simp
    then have "f \<noteq> node_of h x" using fingers_at_gap(2) [OF c np len j(1)] j(2) by auto
    moreover have "Some f \<in> set (m_fingerTable np)" using j l by (metis nth_mem)
    then have "ring_node h addrs f" using ring p np by (auto elim!: stable_peerE [of h addrs net p])
    ultimately show ?thesis using rest by (auto elim!: ring_nodeE simp: ring_node_def)
  qed
  moreover have "ni_ok ni" "m_node ni = node_of h p" "m_predecessor ni = m_predecessor np"
    using ring p np k(1) l by (auto elim!: stable_peerE [of h addrs net p] simp: ni ni_ok_def)
  ultimately show "live_peer h (remove1 x addrs) net' p ni"
    using pred_stays [OF c p t(5) np] adjacent_over_gap [OF c] y
    by (auto simp: live_peer_def succ list_all_iff split: option.splits)
qed

lemma closed_gap_live:
  assumes c: "consecutive h addrs net p x y" and n: "net p = Some np" "net y = Some ny" and len: "\<And>x. length (h x) = 32"
    and k: "k < key_bits" "id_dist h p x < 2 ^ k" "2 ^ k \<le> id_dist h p y"
  shows "live_ring h (remove1 x addrs) (closed_gap h p x y np ny k net)"
    "a \<in> set (remove1 x addrs) \<Longrightarrow> no_gap h (closed_gap h p x y np ny k net) a"
proof -
  let ?net = "closed_gap h p x y np ny k net" and ?rest = "remove1 x addrs"
  have ring: "stable_ring h addrs net" and p: "p \<in> set addrs" using c by (auto simp: consecutive_def)
  note t = consecutive_facts [OF c]
  have d: "distinct addrs" "distinct (map (addr_id h) ?rest)"
    using ring by (auto simp: stable_ring_def distinct_map inj_on_def)
  have rest: "set ?rest = set addrs - {x}" using d(1) by simp
  have gone: "?net x = None" using t by (simp add: closed_gap_def)
  have l: "length (addr_id h z) = 32" for z by (rule length_addr_id [OF len])
  have peer: "\<exists>ni. ?net z = Some ni \<and> live_peer h ?rest ?net z ni \<and> no_gap h ?net z" if "z \<in> set ?rest" for z
  proof -
    have z: "z \<in> set addrs" "z \<noteq> x" using that rest by auto
    have whole: "no_gap h ?net z" if ni: "?net z = Some ni" and "first_index ni = 0" for ni
      using that next_point_in_arc [OF l l] by (simp add: no_gap_def)
    consider "z = p" | "z = y" | "z \<noteq> p" "z \<noteq> y" by blast
    then show ?thesis
    proof cases
      case 1
      note f = finder_live [OF c n(1) len k refl]
      have ni: "?net z = Some (np\<lparr>m_fingerTable := replicate k None @ drop k (m_fingerTable np)\<rparr>)"
        using 1 t by (simp add: closed_gap_def)
      have "is_in_range_loop (finger_start h p j) (addr_id h p) (addr_id h y) False True" if "j \<le> k" for j
      proof -
        have "2 ^ j \<le> id_dist h p y" by (rule order_trans [OF power_increasing [OF that] k(3)]) simp
        moreover have "addr_id h p \<noteq> addr_id h y" using addr_id_inj [OF ring p t(2)] t(5) by simp
        ultimately show ?thesis using start_in_arc [of h j p y, OF len] that k(1) by (simp add: key_bits_def)
      qed
      then have "no_gap h ?net z"
        using ni f(2,3) 1 by (auto simp: no_gap_def succ_addr_def list_all_iff finger_start_def)
      with ni f(1) 1 show ?thesis by simp
    next
      case 2
      have "ring_node h ?rest (node_of h p)" using p t(3) rest by (simp add: ring_node_def)
      then have pred: "case m_predecessor (ny\<lparr>m_predecessor := Some (node_of h p)\<rparr>) of None \<Rightarrow> False | Some q \<Rightarrow>
          ring_node h ?rest q \<and> adjacent h ?rest (getId h q) (addr_id h y)"
        using adjacent_over_gap [OF c] by simp
      have "ni_ok (ny\<lparr>m_predecessor := Some (node_of h p)\<rparr>)"
        using ring t(2) n(2) by (auto elim!: stable_peerE [of h addrs net y] simp: ni_ok_def)
      note f = bystander_live [where net' = ?net, OF c t(2) t(4) [symmetric] t(5) [symmetric] n(2) _ _ this pred gone]
      have "?net z = Some (ny\<lparr>m_predecessor := Some (node_of h p)\<rparr>)" using 2 by (simp add: closed_gap_def)
      with f(1,3) 2 whole show ?thesis by simp
    next
      case 3
      obtain ni where ni: "net z = Some ni" using stable_online [OF ring z(1)] by blast
      have "ni_ok ni" using ring z(1) ni by (auto elim!: stable_peerE [of h addrs net z])
      note f = bystander_live [where net' = ?net, OF c z 3(1) ni refl refl this pred_stays [OF c z(1) 3(2) ni] gone]
      have "?net z = Some ni" using 3 z(2) ni by (simp add: closed_gap_def)
      with f(1,3) whole show ?thesis by simp
    qed
  qed
  then show "a \<in> set ?rest \<Longrightarrow> no_gap h ?net a" by blast
  have "?rest \<noteq> []" using p t(3) rest by force
  then show "live_ring h ?rest ?net" using peer d(2) by (fastforce simp: live_ring_def list_all_iff)
qed

text \<open>The round in which \<open>p\<close> stabilises with \<open>y\<close>.\<close>

lemma round_closes_gap:
  assumes c: "consecutive h addrs net p x y" and n: "net p = Some np" "net y = Some ny" and len: "\<And>x. length (h x) = 32"
    and k: "k < key_bits" "id_dist h p x < 2 ^ k" "2 ^ k \<le> id_dist h p y"
  shows "mainLoop_round h sha1 kj bst p (\<lambda>_. False)
      ((widowed h x y net)(p \<mapsto> np\<lparr>m_fingerTable := replicate k None @ drop k (m_fingerTable np)\<rparr>), f) =
    mainLoop_round h sha1 kj bst p (\<lambda>_. False) (closed_gap h p x y np ny k net, f)"
proof -
  let ?np = "np\<lparr>m_fingerTable := replicate k None @ drop k (m_fingerTable np)\<rparr>"
  let ?net = "(widowed h x y net)(p \<mapsto> ?np)" and ?closed = "closed_gap h p x y np ny k net"
  have ring: "stable_ring h addrs net" and p: "p \<in> set addrs" using c by (auto simp: consecutive_def)
  note t = consecutive_facts [OF c]
  have mem: "p \<in> set (remove1 x addrs)" using p t(3) by simp
  note live = closed_gap_live(1) [OF c n len k]
  have succ: "getSuccessor ?np = Some (node_of h y)" by (rule finder_live(2) [OF c n(1) len k refl])
  have node: "m_node np = node_of h p" by (rule stable_neighbours(1) [OF ring p n(1)])
  have eq: "?net = net(x := None, y \<mapsto> ny\<lparr>m_predecessor := None\<rparr>, p \<mapsto> ?np)" by (simp add: widowed_eq [OF c n(2)])
  have "stabilize h p ?net = ?net(y \<mapsto> ny\<lparr>m_predecessor := Some (node_of h p)\<rparr>)"
    using succ t(5) by (simp add: eq stabilize_def net_call_def server_getPredecessor_def getPredecessor_def nodeFromReader_opt_simps
        send_notify_def update_peer_def notify_None getNode_def node)
  also have "\<dots> = ?closed" using t(5) by (simp add: eq closed_gap_def fun_upd_twist)
  finally have stab: "stabilize h p ?net = ?closed" .
  have "enter_ring h sha1 kj bst p ?net = Some (?net, Inr ())" using succ by (simp add: enter_ring_def)
  then show ?thesis
    by (simp add: mainLoop_round_def stab enter_ring_live [OF live mem] stabilize_live [OF live mem])
qed

lemma lost_table_gap:
  assumes c: "consecutive h addrs net p x y" and np: "net p = Some np" "m_predecessor np = Some (node_of h q)"
    and len: "\<And>x. length (h x) = 32" and k: "k \<le> key_bits" "\<And>f. f < k \<Longrightarrow> 2 ^ f \<le> id_dist h p x"
  shows "lost_table (lost_finger h q p) 0 k np = np\<lparr>m_fingerTable := replicate k None @ drop k (m_fingerTable np)\<rparr>"
proof -
  have ring: "stable_ring h addrs net" and p: "p \<in> set addrs" and x: "x = succ_addr net p" using c by (auto simp: consecutive_def)
  note t = consecutive_facts [OF c]
  have "lost_finger h q p f = None" if f: "f < k" for f
  proof -
    have "is_in_range_loop (finger_start h p f) (addr_id h p) (addr_id h x) False True"
      using start_in_arc [of h f p x, OF len] k f addr_id_inj [OF ring p t(1)] t(3) by (simp add: key_bits_def)
    then have "responsible h addrs (finger_start h p f) x" using responsible_succ [OF ring p] x by simp
    moreover have "responsible h addrs (finger_start h p f) p"
      if "is_in_range_loop (finger_start h p f) (addr_id h q) (addr_id h p) False True"
      using own_arc_responsible [OF ring p np] that by simp
    ultimately have "\<not> is_in_range_loop (finger_start h p f) (addr_id h q) (addr_id h p) False True"
      using responsible_unique [OF ring] t(3) by blast
    then show ?thesis by (simp add: lost_finger_def)
  qed
  then have "map (lost_finger h q p) [0..<k] = replicate k None" by (intro replicate_eqI) auto
  then show ?thesis by (simp add: lost_table_def)
qed

lemma rounds_find_successor:
  assumes c: "consecutive h addrs net p x y" and np: "net p = Some np" and len: "\<And>x. length (h x) = 32" and nf: "nf p = 0"
    and k: "k < key_bits" "\<And>f. f < k \<Longrightarrow> 2 ^ f \<le> id_dist h p x"
  shows "run_rounds h sha1 kj bst (replicate k p) (widowed h x y net, nf) =
    Some (Inr ((widowed h x y net)(p \<mapsto> np\<lparr>m_fingerTable := replicate k None @ drop k (m_fingerTable np)\<rparr>), nf(p := k)))"
proof -
  have ring: "stable_ring h addrs net" and p: "p \<in> set addrs" and x: "x = succ_addr net p" and y: "y = succ_addr net x"
    using c by (auto simp: consecutive_def)
  note t = consecutive_facts [OF c]
  obtain ny where ny: "net y = Some ny" using stable_online [OF ring t(2)] by blast
  note s = stable_neighbours [OF ring p np]
  obtain q where q: "q \<in> set addrs" "m_predecessor np = Some (node_of h q)" "adjacent h addrs (addr_id h q) (addr_id h p)"
    using s(5) by blast
  have "q \<noteq> x" using succ_of_pred [OF ring p q(1,3)] y t(5) by auto
  moreover obtain nq where "net q = Some nq" using stable_online [OF ring q(1)] by blast
  ultimately have online: "widowed h x y net q \<noteq> None" using t(4) by (simp add: widowed_eq [OF c ny])
  have l: "length (m_fingerTable np) = key_bits" by (rule stable_table [OF ring p np])
  have "widowed h x y net p = Some np" "widowed h x y net x = None"
    using np t by (simp_all add: widowed_eq [OF c ny])
  moreover have "getSuccessor np = Some (node_of h x)" using s(3) x by simp
  moreover have "addr_id h x \<noteq> addr_id h p" using addr_id_inj [OF ring t(1) p] t(3) by simp
  ultimately have b: "bereft h (widowed h x y net) q p x np"
    using online s(1) l q(2) by (simp add: bereft_def)
  have gap: "lost_table (lost_finger h q p) 0 j np = np\<lparr>m_fingerTable := replicate j None @ drop j (m_fingerTable np)\<rparr>"
    if "j \<le> k" for j
    using lost_table_gap [OF c np q(2) len, of j] k that by simp
  have "getSuccessor (lost_table (lost_finger h q p) 0 j np) = Some (node_of h x)" if j: "j < k" for j
  proof -
    have "m_fingerTable np ! j = Some (node_of h x)" using fingers_at_gap(1) [OF c np len _ k(2) [OF j]] j k(1) by simp
    then have "drop j (m_fingerTable np) = Some (node_of h x) # drop (Suc j) (m_fingerTable np)"
      using j k(1) l Cons_nth_drop_Suc [of j "m_fingerTable np"] by simp
    then show ?thesis using gap [of j] j by (simp add: getSuccessor_def first_finger_replicate)
  qed
  from rounds_bereft [OF b len this, of k nf sha1 kj bst] nf k(1) gap [of k] show ?thesis by simp
qed

lemma gap_closes:
  assumes c: "consecutive h addrs net p x y" and len: "\<And>x. length (h x) = 32"
    and f: "f < key_bits" "id_dist h p x < 2 ^ f" "2 ^ f \<le> id_dist h p y"
    and nf: "nf p = 0" "\<And>a. nf a < key_bits" and schedule: "set schedule \<subseteq> set addrs - {x}"
    "\<And>a. a \<in> set addrs - {x} \<Longrightarrow> key_bits \<le> count_list schedule a"
  shows "\<exists>k \<le> f. \<exists>net' nf'. run_rounds h sha1 kj bst (replicate (Suc k) p @ schedule) (checkPredecessor h y (net(x := None)), nf) =
      Some (Inr (net', nf')) \<and>
    stable_ring h (remove1 x addrs) net' \<and> right_fingers h (remove1 x addrs) net' \<and>
    (\<forall>b d. b \<noteq> x \<longrightarrow> data_at net' b d = data_at net b d)"
proof -
  have ring: "stable_ring h addrs net" and p: "p \<in> set addrs" using c by (auto simp: consecutive_def)
  note t = consecutive_facts [OF c]
  have rest: "set (remove1 x addrs) = set addrs - {x}" using ring by (simp add: stable_ring_def distinct_map)
  obtain np ny where n: "net p = Some np" "net y = Some ny" using stable_online [OF ring] p t(2) by blast
  define k where "k = (LEAST g. id_dist h p x < 2 ^ g)"
  have k: "id_dist h p x < 2 ^ k" "k \<le> f" unfolding k_def using f(2) by (rule LeastI, rule Least_le)
  have below: "2 ^ g \<le> id_dist h p x" if "g < k" for g using not_less_Least [OF that [unfolded k_def]] by simp
  have k': "k < key_bits" "2 ^ k \<le> id_dist h p y" 
    using k(2) f(1) by simp (rule order_trans [OF power_increasing [OF k(2)] f(3)], simp)
  let ?closed = "closed_gap h p x y np ny k net"
  note closed = closed_gap_live [OF c n len k'(1) k(1) k'(2)]
  have counts: "key_bits \<le> count_list (p # schedule) a" if "a \<in> set (remove1 x addrs)" for a
    using schedule(2) [of a] that unfolding rest by (auto simp: le_SucI)
  have "set (p # schedule) \<subseteq> set (remove1 x addrs)" using schedule(1) p t(3) unfolding rest by simp
  moreover have "(nf(p := k)) a < key_bits" for a using nf(2) k'(1) by simp
  ultimately obtain net' nf' where run: "run_rounds h sha1 kj bst (p # schedule) (?closed, nf(p := k)) = Some (Inr (net', nf'))"
    "stable_ring h (remove1 x addrs) net'" "right_fingers h (remove1 x addrs) net'" "\<forall>b d. data_at net' b d = data_at ?closed b d"
    using rounds_fingers_live [where nf = "nf(p := k)" and schedule = "p # schedule", OF closed len _ _ counts, of sha1 kj bst]
    by blast
  have "run_rounds h sha1 kj bst (replicate k p) (widowed h x y net, nf) =
      Some (Inr ((widowed h x y net)(p \<mapsto> np\<lparr>m_fingerTable := replicate k None @ drop k (m_fingerTable np)\<rparr>), nf(p := k)))"
    by (rule rounds_find_successor [OF c n(1) len]) (use nf(1) k'(1) below in auto)
  then have "run_rounds h sha1 kj bst (replicate k p @ p # schedule) (widowed h x y net, nf) =
      run_rounds h sha1 kj bst (p # schedule) (?closed, nf(p := k))"
    by (simp add: run_rounds_append round_closes_gap [OF c n len k'(1) k(1) k'(2)])
  moreover have "replicate (Suc k) p @ schedule = replicate k p @ p # schedule" by (simp add: replicate_app_Cons_same)
  moreover have "data_at ?closed b d = data_at net b d" if "b \<noteq> x" for b d
    using that n t by (simp add: data_at_def closed_gap_def getData_eq)
  ultimately show ?thesis using run k(2) unfolding widowed_def [symmetric] by (intro exI [of _ k]) auto
qed

section \<open>The sample ring\<close>

lemma three_adjacent:
  "adjacent sample_hash live_addrs (addr_id sample_hash (''a'', 1)) (addr_id sample_hash (''bb'', 1))"
  "adjacent sample_hash live_addrs (addr_id sample_hash (''bb'', 1)) (addr_id sample_hash (''cccccccccc'', 1))"
  "adjacent sample_hash live_addrs (addr_id sample_hash (''cccccccccc'', 1)) (addr_id sample_hash (''a'', 1))"
  by (simp_all add: adjacent_def live_addrs_def sample_id range_simps sample_id_less)

lemma three_members: "(''a'', 1) \<in> set live_addrs" "(''bb'', 1) \<in> set live_addrs" "(''cccccccccc'', 1) \<in> set live_addrs"
  by (simp_all add: live_addrs_def)

lemma three_stable: "stable_ring sample_hash live_addrs three_net"
proof -
  have peer: "stable_peer sample_hash live_addrs a (live_sample_peer a s p None)"
    if "a \<in> set live_addrs" "s \<in> set live_addrs" "p \<in> set live_addrs"
      "adjacent sample_hash live_addrs (addr_id sample_hash a) (addr_id sample_hash s)"
      "adjacent sample_hash live_addrs (addr_id sample_hash p) (addr_id sample_hash a)" for a s p
    using live_sample_peer [where far = None and net = three_net, OF that] that(2)
    by (auto simp: stable_peer_def live_peer_def live_sample_peer_def list_all_iff ring_node_def getSuccessor_def)
  have "distinct (map (addr_id sample_hash) live_addrs)" by (simp add: live_addrs_def sample_id)
  then show ?thesis
    using peer three_adjacent three_members
    by (auto simp: stable_ring_def three_net_def live_net_def live_addrs_def list_all_iff)
qed

lemma three_dist:
  "id_dist sample_hash (''a'', 1) (''bb'', 1) = 1" "id_dist sample_hash (''a'', 1) (''cccccccccc'', 1) = 9"
proof -
  have "be_val (replicate n 0 @ [b]) = unat b" for n and b :: byte
    by (induction n) simp_all
  then have "be_val (addr_id sample_hash (''a'', 1)) = 3" "be_val (addr_id sample_hash (''bb'', 1)) = 4"
    "be_val (addr_id sample_hash (''cccccccccc'', 1)) = 12"
    by (simp_all add: sample_id)
  then show "id_dist sample_hash (''a'', 1) (''bb'', 1) = 1" "id_dist sample_hash (''a'', 1) (''cccccccccc'', 1) = 9"
    by (simp_all add: id_dist_def full_circle_def clockwise_def)
qed

lemma three_consecutive:
  "\<exists>net. consecutive sample_hash live_addrs net (''a'', 1) (''bb'', 1) (''cccccccccc'', 1)"
proof -
  have "count_list (concat (replicate n live_addrs)) a = (if a \<in> set live_addrs then n else 0)" for n a
    by (induction n) (auto simp: live_addrs_def)
  then obtain net where net: "stable_ring sample_hash live_addrs net" "right_fingers sample_hash live_addrs net"
    using rounds_fingers [OF three_stable sample_len, of "concat (replicate 256 live_addrs)" "\<lambda>_. 0" id sample_kj statics_init]
    by (auto simp: key_bits_def)
  then show ?thesis
    using succ_of_pred [OF net(1) _ _ three_adjacent(1)] succ_of_pred [OF net(1) _ _ three_adjacent(2)] three_members
    by (intro exI [of _ net]) (simp add: consecutive_def)
qed

section \<open>Properties\<close>

text \<open>
  C15: The ring closes after a peer has left, if three conditions hold. Of three peers that follow one another on a stable
  ring with right fingers, the middle one goes silent. The conditions: some finger of the first one is the third;
  the third one has already found that its predecessor does not answer; and the next finger that the first one refreshes
  is the first of its table. Then a number of rounds of the first one, at most as many as that finger's index and one
  more, close the gap, and after 256 more rounds of every peer that is left, in any order, the ring of those peers is stable
  with right fingers. Those peers have exactly the items they had: what only the silent peer had is
  not recovered.
\<close>

theorem departure_repaired:
  assumes "consecutive h addrs net p x y" and "\<And>x. length (h x) = 32"
    and "f < key_bits" and "id_dist h p x < 2 ^ f" and "2 ^ f \<le> id_dist h p y"
    and "nf p = 0" and "\<And>a. nf a < key_bits" and "set schedule \<subseteq> set addrs - {x}"
    and "\<And>a. a \<in> set addrs - {x} \<Longrightarrow> key_bits \<le> count_list schedule a"
  shows "\<exists>k \<le> f. \<exists>net' nf'. run_rounds h sha1 kj bst (replicate (Suc k) p @ schedule) (checkPredecessor h y (net(x := None)), nf) =
      Some (Inr (net', nf')) \<and>
    stable_ring h (remove1 x addrs) net' \<and> right_fingers h (remove1 x addrs) net' \<and>
    (\<forall>b d. b \<noteq> x \<longrightarrow> data_at net' b d = data_at net b d)"
  using gap_closes [where nf = nf, OF assms] .

theorem departure_repaired_witness:
  "\<exists>net k net' nf'. stable_ring sample_hash live_addrs net \<and>
     run_rounds sample_hash id sample_kj statics_init
       (replicate (Suc k) (''a'', 1) @ concat (replicate 256 [(''a'', 1), (''cccccccccc'', 1)]))
       (checkPredecessor sample_hash (''cccccccccc'', 1) (net((''bb'', 1) := None)), \<lambda>_. 0) = Some (Inr (net', nf')) \<and>
     stable_ring sample_hash [(''a'', 1), (''cccccccccc'', 1)] net'"
proof -
  obtain net where net: "consecutive sample_hash live_addrs net (''a'', 1) (''bb'', 1) (''cccccccccc'', 1)"
    using three_consecutive by blast
  have count: "count_list (concat (replicate n [(''a'', 1), (''cccccccccc'', 1)])) a =
      (if a \<in> set live_addrs - {(''bb'', 1)} then n else 0)" for n a
    by (induction n) (auto simp: live_addrs_def)
  have "set (concat (replicate 256 [(''a'', 1), (''cccccccccc'', 1)])) \<subseteq> set live_addrs - {(''bb'', 1)}"
    by (auto simp: live_addrs_def)
  moreover have "(\<lambda>_. 0 :: nat) (''a'', 1 :: u16) = 0" "(\<lambda>_. 0 :: nat) (a :: addr) < key_bits" "(1::nat) < key_bits" for a
    by (simp_all add: key_bits_def)
  ultimately obtain k net' nf' where run: "run_rounds sample_hash id sample_kj statics_init
       (replicate (Suc k) (''a'', 1) @ concat (replicate 256 [(''a'', 1), (''cccccccccc'', 1)]))
       (checkPredecessor sample_hash (''cccccccccc'', 1) (net((''bb'', 1) := None)), \<lambda>_. 0) = Some (Inr (net', nf'))"
    "stable_ring sample_hash (remove1 (''bb'', 1) live_addrs) net'"
    using departure_repaired [where nf = "\<lambda>_. 0", OF net sample_len, of 1 "concat (replicate 256 [(''a'', 1), (''cccccccccc'', 1)])" id
        sample_kj statics_init] count three_dist by (auto simp: key_bits_def)
  moreover have "remove1 (''bb'', 1) live_addrs = [(''a'', 1), (''cccccccccc'', 1)]" by (simp add: live_addrs_def)
  moreover have "stable_ring sample_hash live_addrs net" using net by (simp add: consecutive_def)
  ultimately show ?thesis by metis
qed

text \<open>
  C34: Where the finger table is refreshed from matters. If the successor of a peer goes silent while the peer's next
  finger is the one after the first, a full turn of its rounds leaves it without any other peer in its table,
  though all its other fingers may have been online.
\<close>

theorem successor_loss_wipes_fingers:
  assumes "bereft h net q b x ni" and "m_fingerTable ni ! 0 = Some (node_of h x)"
    and "\<And>x. length (h x) = 32" and "nf b = 1"
  shows "\<exists>ni'. run_rounds h sha1 kj bst (replicate 256 b) (net, nf) = Some (Inr (net(b \<mapsto> ni'), nf)) \<and>
    list_all (\<lambda>f. f = None \<or> f = Some (node_of h b)) (m_fingerTable ni')"
proof -
  obtain ni' where "run_rounds h sha1 kj bst (replicate 256 b) (net, nf) = Some (Inr (net(b \<mapsto> ni'), nf))"
    "m_fingerTable ni' = map (lost_finger h q b) [0..<256]"
    using rounds_wipe [where nf = nf, OF assms] by blast
  then show ?thesis by (auto simp: list_all_iff lost_finger_def)
qed

theorem successor_loss_wipes_fingers_witness:
  "\<exists>ni'. run_rounds sample_hash id sample_kj statics_init (replicate 256 (''a'', 1)) (live_net((''bb'', 1) := None), \<lambda>_. 1) =
      Some (Inr (live_net((''bb'', 1) := None, (''a'', 1) \<mapsto> ni'), \<lambda>_. 1)) \<and>
    list_all (\<lambda>f. f = None \<or> f = Some (node_of sample_hash (''a'', 1))) (m_fingerTable ni')"
proof -
  let ?ni = "live_sample_peer (''a'', 1) (''bb'', 1) (''cccccccccc'', 1) (Some (node_of sample_hash (''dddddd'', 1)))"
  have "bereft sample_hash (live_net((''bb'', 1) := None)) (''cccccccccc'', 1) (''a'', 1) (''bb'', 1) ?ni"
    by (simp add: bereft_def live_net_def sample_id getSuccessor_def live_sample_peer_def key_bits_def)
      (simp add: NodeInformation_init_def node_of_def)
  from successor_loss_wipes_fingers [where nf = "\<lambda>_. 1", OF this _ sample_len, of id sample_kj statics_init] show ?thesis
    by (simp add: live_sample_peer_def)
qed

text \<open>
  C35: A departed peer before the successor misleads the lookup. If a finger of a peer on a stable ring is one that
  was between the peer and its successor and has left, and no higher finger precedes the identifier looked for, the lookup
  asks it in vain, then looks for a finger before it, finds none, and answers with the successor, also for identifiers
  that the successor is not responsible for.
\<close>

theorem stale_finger_misroutes:
  assumes "stable_ring h addrs net" and "b \<in> set addrs" and "net b = Some ni" and "length i = 32" and "\<And>x. length (h x) = 32"
    and "net d = None" and "is_in_range_loop (addr_id h d) (addr_id h b) (addr_id h (succ_addr net b)) False False"
    and "\<not> responsible h addrs i b" and "\<not> responsible h addrs i (succ_addr net b)"
    and "0 < k" and "k < key_bits" and "none_above h b (m_fingerTable ni) k i"
    and "ni' = ni\<lparr>m_fingerTable := (m_fingerTable ni)[k := Some (node_of h d)]\<rparr>"
  shows "PeerImpl_getSuccessor h LOCAL (net_env h LOCAL (net(b \<mapsto> ni')) f) ni' i = Some (Inr (Some (node_of h (succ_addr net b))))"
  using lookup_misrouted [OF assms] .

theorem stale_finger_misroutes_witness:
  "\<exists>ni'. PeerImpl_getSuccessor sample_hash LOCAL (net_env sample_hash LOCAL (three_net((''bb'', 1) \<mapsto> ni')) 0) ni'
       (replicate 31 0 @ [1]) = Some (Inr (Some (node_of sample_hash (''cccccccccc'', 1)))) \<and>
     responsible sample_hash live_addrs (replicate 31 0 @ [1]) (''a'', 1)"
proof -
  let ?i = "replicate 31 0 @ [1] :: bytes"
  have succ: "succ_addr three_net (''bb'', 1) = (''cccccccccc'', 1)"
    by (rule succ_of_pred [OF three_stable three_members(3,2) three_adjacent(2)])
  obtain ni where ni: "three_net (''bb'', 1) = Some ni" using stable_online [OF three_stable three_members(2)] by blast
  have "ring_successor (ring_ids sample_hash live_addrs) ?i = addr_id sample_hash (''a'', 1)"
    by (rule ring_successor_eqI [where a = "addr_id sample_hash (''cccccccccc'', 1)"])
      (auto simp: ring_ids_def live_addrs_def sample_id range_simps sample_id_less)
  then have resp: "responsible sample_hash live_addrs ?i (''a'', 1)" by (simp add: responsible_def three_members)
  then have "\<not> responsible sample_hash live_addrs ?i (''bb'', 1)" "\<not> responsible sample_hash live_addrs ?i (''cccccccccc'', 1)"
    using responsible_unique [OF three_stable resp] by auto
  moreover have above: "none_above sample_hash (''bb'', 1) (m_fingerTable ni) 255 ?i"
    using stable_table [OF three_stable three_members(2) ni] by (simp add: none_above_def key_bits_def)
  moreover have "three_net (''dddddd'', 1) = None" by (simp add: three_net_def live_net_def)
  moreover have "is_in_range_loop (addr_id sample_hash (''dddddd'', 1)) (addr_id sample_hash (''bb'', 1))
      (addr_id sample_hash (''cccccccccc'', 1)) False False"
    by (simp add: sample_id range_simps sample_id_less)
  ultimately show ?thesis
    using stale_finger_misroutes [OF three_stable three_members(2) ni _ sample_len _ _ _ _ _ _ above refl, of "(''dddddd'', 1)" 0] resp succ
    by (auto simp: key_bits_def)
qed

end
