(* ===== verification/Connection.thy ===== *)
theory Connection
  imports Messages "HOL-Library.Sublist"
begin

text \<open>
  \<open>src/src/api/connection\<close>: a client's connection. The read handlers (\<open>start_read\<close>, \<open>finish_read\<close>
  and the two completion handlers) cut the received bytes into messages and queue a call of the request
  handler for each; the manager thread takes the results from the front of the queue and sends them.
  The state is the record \<open>Connection\<close>, with the read that is under way, the bytes the client still
  sends before it closes its side, and the bytes sent to it. Asio is a library: \<open>async_read\<close> completes
  when it has the bytes it was asked for, or with an error when the stream ends before; closing the
  socket completes it with an error. How many bytes \<open>write_some\<close> takes is open. \<open>conn_step\<close> interleaves
  the read handlers, the request handlers, the manager and \<open>close\<close> in every order.
\<close>

section \<open>Definitions\<close>

subsection \<open>State\<close>

text \<open>A call of a request handler: the request, and its result once there is one.\<close>

datatype future = Running DecodedData | Ready DecodedData "bytes result"

datatype pending_read = No_Read | Read_Header | Read_Body MessageHeader nat

record Connection =
  c_header :: bytes
  c_data :: bytes
  c_open :: bool
  c_done :: bool
  c_calls :: "future list"
  c_lock :: bool
  c_manager :: bool
  c_cancelled :: bool
  c_pending :: pending_read
  c_blocked :: bool
  c_input :: bytes
  c_output :: bytes

fun decoded_header :: "DecodedData \<Rightarrow> MessageHeader" where
  "decoded_header (Data_PUT d) = m_header d"
| "decoded_header (Data_KEY d) = m_header d"
| "decoded_header (Data_PUT_HASH d) = m_header d"
| "decoded_header (Data_GET_HASH d) = m_header d"

subsection \<open>Reading\<close>

definition start_read :: "Connection \<Rightarrow> Connection" where
  "start_read c = (if \<not> c_open c then c\<lparr>c_pending := No_Read\<rparr> else c\<lparr>c_pending := Read_Header\<rparr>)"

text \<open>
  \<open>header.size\<close> minus the size of the header is computed in \<open>size_t\<close>, and \<open>asio::buffer\<close> takes at most
  the whole of \<open>m_data\<close>.
\<close>

definition body_length :: "Connection \<Rightarrow> MessageHeader \<Rightarrow> nat" where
  "body_length c header = min (length (c_data c)) (unat ((ucast (hdr_size header) :: u64) - 4))"

definition finish_read :: "Connection \<Rightarrow> Connection" where
  "finish_read c =
     (if \<not> c_open c then c\<lparr>c_pending := No_Read\<rparr>
      else let header = MessageHeader_of_raw (header_at (c_header c) 0)
           in c\<lparr>c_pending := Read_Body header (body_length c header)\<rparr>)"

text \<open>The header is looked at before the error is.\<close>

definition on_header :: "bool \<Rightarrow> bytes \<Rightarrow> Connection \<Rightarrow> Connection" where
  "on_header err bs c = finish_read (c\<lparr>c_header := overwrite (c_header c) 0 bs\<rparr>)"

text \<open>A lock that the dead manager holds is waited for in vain.\<close>

definition push_call :: "DecodedData \<Rightarrow> Connection \<Rightarrow> Connection" where
  "push_call d c = (if c_lock c then c\<lparr>c_blocked := True\<rparr> else c\<lparr>c_calls := c_calls c @ [Running d]\<rparr>)"

text \<open>\<open>hs\<close> are the message types that have a request handler.\<close>

definition on_body :: "u16 list \<Rightarrow> MessageHeader \<Rightarrow> bool \<Rightarrow> bytes \<Rightarrow> Connection \<Rightarrow> Connection result" where
  "on_body hs header err bs c =
     (let bytes = c_header c @ bs;
          c = start_read (c\<lparr>c_data := overwrite (c_data c) 0 bs\<rparr>)
      in if err then Inr c
         else if 0 < length bs
         then (case Request_init header bytes of
                 Inl (Undefined_Behaviour e) \<Rightarrow> Inl (Undefined_Behaviour e)
               | Inl e \<Rightarrow> Inr c
               | Inr request \<Rightarrow>
                   if c_open c \<and> msg_type (decoded_header (m_decodedData request)) \<in> set hs
                   then Inr (push_call (m_decodedData request) c)
                   else Inr c)
         else Inr c)"

definition stream_read :: "nat \<Rightarrow> bytes \<Rightarrow> bool \<times> bytes \<times> bytes" where
  "stream_read n input = (length input < n, take n input, drop n input)"

subsection \<open>Answering\<close>

text \<open>
  One round of the manager thread. \<open>wr\<close> is the outcome of \<open>write_some\<close>: the number of bytes it took, or
  nothing when it throws. \<open>get()\<close> rethrows what the request handler threw, while the lock is held.
\<close>

definition manager_round :: "nat option \<Rightarrow> Connection \<Rightarrow> Connection" where
  "manager_round wr c =
     (if \<not> c_manager c then c
      else if \<not> c_open c then c\<lparr>c_done := True, c_manager := False\<rparr>
      else case c_calls c of
             Ready d (Inl e) # rest \<Rightarrow> c\<lparr>c_lock := True, c_manager := False\<rparr>
           | Ready d (Inr bs) # rest \<Rightarrow>
               (let c = c\<lparr>c_calls := rest\<rparr>
                in if bs \<noteq> []
                   then (case wr of Some n \<Rightarrow> c\<lparr>c_output := c_output c @ take n bs\<rparr> | None \<Rightarrow> c\<lparr>c_manager := False\<rparr>)
                   else c)
           | _ \<Rightarrow> c)"

definition Connection_close :: "Connection \<Rightarrow> Connection" where
  "Connection_close c = c\<lparr>c_open := False\<rparr>"

definition isDone :: "Connection \<Rightarrow> bool" where
  "isDone c = c_done c"

text \<open>The destructor tells the request handlers to stop; the members it destroys wait for the threads.\<close>

definition Connection_destroy :: "Connection \<Rightarrow> Connection" where
  "Connection_destroy c = c\<lparr>c_cancelled := True\<rparr>"

text \<open>
  A new connection has begun to read. \<open>m_header\<close> has no initial value (\<open>garbage\<close>), \<open>m_data\<close> is zeroed.
\<close>

definition Connection_init :: "bytes \<Rightarrow> bytes \<Rightarrow> Connection" where
  "Connection_init garbage input =
     start_read
       \<lparr>c_header = garbage, c_data = replicate (2 ^ 16 - 1) 0, c_open = True, c_done = False, c_calls = [],
        c_lock = False, c_manager = True, c_cancelled = False, c_pending = No_Read, c_blocked = False,
        c_input = input, c_output = []\<rparr>"

subsection \<open>Interleaving\<close>

text \<open>\<open>ans d r\<close>: the handler of the request \<open>d\<close> may have the result \<open>r\<close>.\<close>

inductive conn_step :: "u16 list \<Rightarrow> (DecodedData \<Rightarrow> bytes result \<Rightarrow> bool) \<Rightarrow> Connection \<Rightarrow> Connection \<Rightarrow> bool"
  for hs ans where
  header: "c_open c \<Longrightarrow> \<not> c_blocked c \<Longrightarrow> c_pending c = Read_Header \<Longrightarrow>
    stream_read 4 (c_input c) = (err, bs, rest) \<Longrightarrow> conn_step hs ans c (on_header err bs (c\<lparr>c_input := rest\<rparr>))"
| body: "c_open c \<Longrightarrow> \<not> c_blocked c \<Longrightarrow> c_pending c = Read_Body hdr n \<Longrightarrow>
    stream_read n (c_input c) = (err, bs, rest) \<Longrightarrow> on_body hs hdr err bs (c\<lparr>c_input := rest\<rparr>) = Inr c' \<Longrightarrow>
    conn_step hs ans c c'"
| header_aborted: "\<not> c_open c \<Longrightarrow> \<not> c_blocked c \<Longrightarrow> c_pending c = Read_Header \<Longrightarrow> conn_step hs ans c (on_header True [] c)"
| body_aborted: "\<not> c_open c \<Longrightarrow> \<not> c_blocked c \<Longrightarrow> c_pending c = Read_Body hdr n \<Longrightarrow>
    on_body hs hdr True [] c = Inr c' \<Longrightarrow> conn_step hs ans c c'"
| finish: "k < length (c_calls c) \<Longrightarrow> c_calls c ! k = Running d \<Longrightarrow> ans d r \<Longrightarrow>
    conn_step hs ans c (c\<lparr>c_calls := (c_calls c)[k := Ready d r]\<rparr>)"
| manage: "conn_step hs ans c (manager_round wr c)"
| close: "conn_step hs ans c (Connection_close c)"

subsection \<open>Vocabulary of the specifications\<close>

text \<open>A complete message: its header announces its length, and it has a body.\<close>

definition complete_message :: "bytes \<Rightarrow> bool" where
  "complete_message m \<longleftrightarrow> 4 < length m \<and> unat (hdr_size (MessageHeader_of_raw (header_at m 0))) = length m \<and>
     \<not> is_ub (Request_init (MessageHeader_of_raw (header_at m 0)) m)"

text \<open>The call that a message leads to, if any, and the connection after it was read.\<close>

definition calls_of :: "u16 list \<Rightarrow> bytes \<Rightarrow> DecodedData list" where
  "calls_of hs m =
     (case Request_init (MessageHeader_of_raw (header_at m 0)) m of
        Inr request \<Rightarrow> if msg_type (decoded_header (m_decodedData request)) \<in> set hs then [m_decodedData request] else []
      | Inl e \<Rightarrow> [])"

definition deliver :: "u16 list \<Rightarrow> bytes \<Rightarrow> Connection \<Rightarrow> Connection" where
  "deliver hs m c = c\<lparr>c_header := take 4 m, c_data := overwrite (c_data c) 0 (drop 4 m),
     c_calls := c_calls c @ map Running (calls_of hs m), c_input := drop (length m) (c_input c)\<rparr>"

text \<open>A connection that waits for the next message and can take it.\<close>

definition reading :: "Connection \<Rightarrow> bool" where
  "reading c \<longleftrightarrow> c_open c \<and> \<not> c_blocked c \<and> \<not> c_lock c \<and> c_pending c = Read_Header \<and>
     length (c_header c) = 4 \<and> length (c_data c) = 2 ^ 16 - 1"

fun call_request :: "future \<Rightarrow> DecodedData" where
  "call_request (Running d) = d"
| "call_request (Ready d r) = d"

text \<open>What every state of a connection satisfies.\<close>

definition conn_ok :: "Connection \<Rightarrow> bool" where
  "conn_ok c \<longleftrightarrow> length (c_header c) = 4 \<and> length (c_data c) = 2 ^ 16 - 1 \<and>
     (c_open c \<longrightarrow> \<not> c_done c \<and>
        (case c_pending c of
           No_Read \<Rightarrow> False
         | Read_Header \<Rightarrow> True
         | Read_Body hdr n \<Rightarrow> hdr = MessageHeader_of_raw (header_at (c_header c) 0) \<and> n = body_length c hdr))"

text \<open>
  The history of a connection: the requests that were queued and the calls that were taken from the
  queue, from the change of the queue's length in each step.
\<close>

definition queued :: "Connection \<Rightarrow> Connection \<Rightarrow> DecodedData list" where
  "queued c c' = map call_request (drop (length (c_calls c)) (c_calls c'))"

definition taken :: "Connection \<Rightarrow> Connection \<Rightarrow> future list" where
  "taken c c' = take (length (c_calls c) - length (c_calls c')) (c_calls c)"

inductive conn_run :: "u16 list \<Rightarrow> (DecodedData \<Rightarrow> bytes result \<Rightarrow> bool) \<Rightarrow> Connection \<Rightarrow>
    DecodedData list \<Rightarrow> future list \<Rightarrow> Connection \<Rightarrow> bool" for hs ans c0 where
  init: "conn_run hs ans c0 [] [] c0"
| step: "conn_run hs ans c0 ds fs c \<Longrightarrow> conn_step hs ans c c' \<Longrightarrow>
    conn_run hs ans c0 (ds @ queued c c') (fs @ taken c c') c'"

text \<open>A call whose result was taken, and the part of it that was sent.\<close>

definition answered :: "(DecodedData \<Rightarrow> bytes result \<Rightarrow> bool) \<Rightarrow> future \<Rightarrow> bytes \<Rightarrow> bool" where
  "answered ans f p \<longleftrightarrow> (\<exists>d a. f = Ready d (Inr a) \<and> ans d (Inr a) \<and> prefix p a)"

text \<open>A client that sends one request and closes its side.\<close>

definition sample_stream :: bytes where
  "sample_stream = m_bytes (Message_KEY_make DHT_GET (replicate 32 5))"

section \<open>Reading messages\<close>

text \<open>
  The contract of a reader of frames: in a state that is ready, a complete frame at the front of the
  input is delivered by some steps. A sequence of frames is then delivered one by one.
\<close>

locale frame_reader =
  fixes step :: "'s \<Rightarrow> 's \<Rightarrow> bool"
    and ready :: "'s \<Rightarrow> bool"
    and input :: "'s \<Rightarrow> 'b list"
    and frame :: "'b list \<Rightarrow> bool"
    and dlv :: "'b list \<Rightarrow> 's \<Rightarrow> 's"
  assumes reads_frame: "ready s \<Longrightarrow> frame m \<Longrightarrow> input s = m @ rest \<Longrightarrow> step\<^sup>*\<^sup>* s (dlv m s)"
    and ready_dlv: "ready s \<Longrightarrow> frame m \<Longrightarrow> input s = m @ rest \<Longrightarrow> ready (dlv m s)"
    and input_dlv: "input s = m @ rest \<Longrightarrow> input (dlv m s) = rest"
begin

lemma reads_frames:
  "ready s \<Longrightarrow> list_all frame ms \<Longrightarrow> input s = concat ms @ rest \<Longrightarrow>
     step\<^sup>*\<^sup>* s (fold dlv ms s) \<and> ready (fold dlv ms s) \<and> input (fold dlv ms s) = rest"
proof (induction ms arbitrary: s)
  case (Cons m ms)
  then have m: "frame m" "input s = m @ concat ms @ rest" "list_all frame ms" by simp_all
  from Cons.IH [OF ready_dlv [OF Cons.prems(1) m(1,2)] m(3) input_dlv [OF m(2)]]
  show ?case using reads_frame [OF Cons.prems(1) m(1,2)] by (auto intro: rtranclp_trans)
qed simp

end

lemma header_at_take: "4 \<le> length m \<Longrightarrow> header_at (take 4 m) 0 = header_at m 0"
  by (simp add: header_at_def read_u16_def)

lemma message_length: "complete_message m \<Longrightarrow> length m < 2 ^ 16"
  using unsigned_less [of "hdr_size (MessageHeader_of_raw (header_at m 0))", where 'a = nat]
  by (auto simp: complete_message_def)

lemma body_length_message:
  assumes "complete_message m" and "length (c_data c) = 2 ^ 16 - 1"
  shows "body_length c (MessageHeader_of_raw (header_at m 0)) = length m - 4"
proof -
  let ?s = "hdr_size (MessageHeader_of_raw (header_at m 0))"
  have s: "unat ?s = length m" "4 < length m" using assms(1) by (simp_all add: complete_message_def)
  have u: "unat (ucast ?s :: u64) = length m" using s(1) message_length [OF assms(1)] by (simp add: unsigned_ucast_eq take_bit_nat_eq_self)
  then have "unat ((ucast ?s :: u64) - 4) = length m - 4"
    using s(2) by (subst unat_sub) (simp_all add: word_le_nat_alt)
  then show ?thesis using message_length [OF assms(1)] assms(2) by (simp add: body_length_def)
qed

lemma reads_message:
  assumes c: "reading c" and m: "complete_message m" and i: "c_input c = m @ rest"
  shows "(conn_step hs ans)\<^sup>*\<^sup>* c (deliver hs m c)"
proof -
  let ?hdr = "MessageHeader_of_raw (header_at m 0)"
  let ?c1 = "c\<lparr>c_input := drop 4 m @ rest, c_header := take 4 m, c_pending := Read_Body ?hdr (length m - 4)\<rparr>"
  have len: "4 < length m" using m by (simp add: complete_message_def)
  have "conn_step hs ans c (on_header False (take 4 m) (c\<lparr>c_input := drop 4 m @ rest\<rparr>))"
    by (rule conn_step.header) (use c i len in \<open>simp_all add: reading_def stream_read_def\<close>)
  moreover have "on_header False (take 4 m) (c\<lparr>c_input := drop 4 m @ rest\<rparr>) = ?c1"
    using c len body_length_message [OF m, of c]
    by (simp add: reading_def on_header_def finish_read_def overwrite_def body_length_def header_at_take Let_def)
  moreover have "conn_step hs ans ?c1 (deliver hs m c)"
  proof (rule conn_step.body)
    show "stream_read (length m - 4) (c_input ?c1) = (False, drop 4 m, rest)"
      using len by (simp add: stream_read_def)
    have "\<not> is_ub (Request_init ?hdr (take 4 m @ drop 4 m))" using m by (simp add: complete_message_def)
    then show "on_body hs ?hdr False (drop 4 m) (?c1\<lparr>c_input := rest\<rparr>) = Inr (deliver hs m c)"
      using c len i
      by (auto simp: on_body_def reading_def start_read_def push_call_def deliver_def calls_of_def Let_def
          split: sum.splits cpp_error.splits)
  qed (use c in \<open>simp_all add: reading_def\<close>)
  ultimately show ?thesis by simp
qed

interpretation conn: frame_reader "conn_step hs ans" reading c_input complete_message "deliver hs" for hs ans
proof
  fix c m rest assume c: "reading c" "complete_message m" "c_input c = m @ rest"
  show "(conn_step hs ans)\<^sup>*\<^sup>* c (deliver hs m c)" by (rule reads_message [OF c])
  show "reading (deliver hs m c)"
    using c(1) message_length [OF c(2)] c(2) by (simp add: reading_def deliver_def complete_message_def)
qed (simp add: deliver_def)

lemma fold_deliver_calls: "c_calls (fold (deliver hs) ms c) = c_calls c @ map Running (concat (map (calls_of hs) ms))"
  by (induction ms arbitrary: c) (simp_all add: deliver_def)

section \<open>The end of the stream\<close>

lemma conn_ok_update [simp]:
  "conn_ok (c\<lparr>c_calls := x\<rparr>) = conn_ok c" "conn_ok (c\<lparr>c_lock := b\<rparr>) = conn_ok c"
  "conn_ok (c\<lparr>c_manager := b\<rparr>) = conn_ok c" "conn_ok (c\<lparr>c_output := bs\<rparr>) = conn_ok c"
  "conn_ok (c\<lparr>c_blocked := b\<rparr>) = conn_ok c" "conn_ok (c\<lparr>c_lock := b, c_manager := b'\<rparr>) = conn_ok c"
  "conn_ok (c\<lparr>c_calls := x, c_output := bs\<rparr>) = conn_ok c" "conn_ok (c\<lparr>c_calls := x, c_manager := b\<rparr>) = conn_ok c"
  by (simp_all add: conn_ok_def body_length_def cong: pending_read.case_cong)

lemma conn_ok_init: "length g = 4 \<Longrightarrow> conn_ok (Connection_init g input)"
  by (simp add: conn_ok_def Connection_init_def start_read_def)

lemma conn_ok_header: "conn_ok c \<Longrightarrow> length bs \<le> 4 \<Longrightarrow> conn_ok (on_header err bs (c\<lparr>c_input := rest\<rparr>))"
  by (auto simp: conn_ok_def on_header_def finish_read_def body_length_def Let_def)

lemma conn_ok_body:
  assumes "conn_ok c" and "length bs \<le> 2 ^ 16 - 1" and "on_body hs hdr err bs (c\<lparr>c_input := rest\<rparr>) = Inr c'"
  shows "conn_ok c'"
proof -
  have "conn_ok (start_read (c\<lparr>c_input := rest, c_data := overwrite (c_data c) 0 bs\<rparr>))" (is "conn_ok ?c")
    using assms(1,2) by (auto simp: conn_ok_def start_read_def)
  moreover have "conn_ok (push_call d c)" if "conn_ok c" for c d
    using that by (simp add: push_call_def)
  moreover have "c' = ?c \<or> (\<exists>d. c' = push_call d ?c)"
    using assms(3) by (auto simp: on_body_def Let_def split: if_splits sum.splits cpp_error.splits)
  ultimately show ?thesis by blast
qed

lemma conn_ok_step:
  assumes "conn_step hs ans c c'" and "conn_ok c"
  shows "conn_ok c'"
  using assms
proof (induction rule: conn_step.induct)
  case (header c err bs rest)
  then show ?case by (intro conn_ok_header) (auto simp: stream_read_def)
next
  case (body c hdr n err bs rest c')
  have "length bs \<le> n" using body.hyps(4) by (auto simp: stream_read_def)
  moreover have "n \<le> 2 ^ 16 - 1" using body.hyps(1,3) body.prems by (auto simp: conn_ok_def body_length_def)
  ultimately show ?case by (intro conn_ok_body [OF body.prems _ body.hyps(5)]) simp
next
  case (header_aborted c)
  then show ?case using conn_ok_header [of c "[]" True "c_input c"] by simp
next
  case (body_aborted c hdr n c')
  then show ?case using conn_ok_body [of c "[]" hs hdr True "c_input c" c'] by simp
next
  case (manage c wr)
  have "conn_ok (c\<lparr>c_done := True, c_manager := False\<rparr>)" if "\<not> c_open c"
    using manage that by (simp add: conn_ok_def)
  with manage show ?case
    by (simp add: manager_round_def Let_def split: list.split future.split sum.split option.split)
next
  case (close c)
  then show ?case by (simp add: conn_ok_def Connection_close_def)
qed simp

lemma conn_ok_steps: "(conn_step hs ans)\<^sup>*\<^sup>* c c' \<Longrightarrow> conn_ok c \<Longrightarrow> conn_ok c'"
  by (induction rule: rtranclp_induct) (auto intro: conn_ok_step)

text \<open>On a stream that has ended, the two read handlers start each other.\<close>

lemma ended_stream_cycle:
  assumes "conn_ok c" and "c_open c" and "\<not> c_blocked c" and "c_input c = []"
  shows "\<exists>c'. c' \<noteq> c \<and> conn_step hs ans c c' \<and> conn_step hs ans c' c"
proof -
  let ?hdr = "MessageHeader_of_raw (header_at (c_header c) 0)"
  let ?n = "body_length c ?hdr"
  let ?h = "c\<lparr>c_pending := Read_Header\<rparr>" and ?b = "c\<lparr>c_pending := Read_Body ?hdr ?n\<rparr>"
  have i: "x\<lparr>c_input := []\<rparr> = x" if "c_input x = []" for x :: Connection
    using that by (intro Connection.equality) simp_all
  have "conn_step hs ans ?h (on_header True [] (?h\<lparr>c_input := []\<rparr>))"
    by (rule conn_step.header) (use assms in \<open>simp_all add: stream_read_def\<close>)
  moreover have "on_header True [] (?h\<lparr>c_input := []\<rparr>) = ?b"
    using assms i [of ?h] by (simp add: on_header_def finish_read_def overwrite_def body_length_def Let_def)
  ultimately have h: "conn_step hs ans ?h ?b" by simp
  have b: "conn_step hs ans ?b ?h"
    by (rule conn_step.body [where err = "0 < ?n" and bs = "[]" and rest = "[]" and hdr = ?hdr and n = ?n])
      (use assms i [of ?h] in \<open>simp_all add: stream_read_def on_body_def start_read_def overwrite_def Let_def\<close>)
  have "c_pending ?h \<noteq> c_pending ?b" by simp
  then have ne: "?h \<noteq> ?b" by metis
  have "c = ?h \<or> c = ?b"
    using assms(1,2) by (cases "c_pending c") (auto simp: conn_ok_def intro!: Connection.equality)
  with h b ne show ?thesis by metis
qed

section \<open>The queue of calls\<close>

lemma on_body_calls:
  "on_body hs hdr err bs c = Inr c' \<Longrightarrow> c_output c' = c_output c \<and> (c_calls c' = c_calls c \<or> (\<exists>d. c_calls c' = c_calls c @ [Running d]))"
  by (auto simp: on_body_def start_read_def push_call_def Let_def split: if_splits sum.splits cpp_error.splits)

lemma on_header_calls: "c_calls (on_header err bs c) = c_calls c" "c_output (on_header err bs c) = c_output c"
  by (simp_all add: on_header_def finish_read_def Let_def)

text \<open>What a step does to the queue: nothing, a new call, a result, or the first call is answered.\<close>

lemma conn_step_queue:
  assumes "conn_step hs ans c c'"
  obtains (same) "c_calls c' = c_calls c" "c_output c' = c_output c"
  | (queue) d where "c_calls c' = c_calls c @ [Running d]" "c_output c' = c_output c"
  | (result) k d r where "k < length (c_calls c)" "c_calls c ! k = Running d" "ans d r"
      "c_calls c' = (c_calls c)[k := Ready d r]" "c_output c' = c_output c"
  | (answer) d a p where "c_calls c = Ready d (Inr a) # c_calls c'" "c_output c' = c_output c @ p" "prefix p a"
  using assms
proof (cases rule: conn_step.cases)
  case (manage wr)
  then show ?thesis
    using that(1,4)
    by (auto simp: manager_round_def Let_def take_is_prefix split: if_splits list.splits future.splits sum.splits option.splits)
next
  case (body hdr n err bs rest)
  then show ?thesis using on_body_calls that(1,2) by fastforce
next
  case (body_aborted hdr n)
  then show ?thesis using on_body_calls that(1,2) by fastforce
qed (use that(1,3) in \<open>auto simp: on_header_calls Connection_close_def\<close>)

lemma conn_run_order:
  assumes "conn_run hs ans c0 ds fs c" and "c_calls c0 = []" and "c_output c0 = []"
  shows "ds = map call_request (fs @ c_calls c) \<and> (\<forall>d r. Ready d r \<in> set (c_calls c) \<longrightarrow> ans d r) \<and>
    (\<exists>ps. list_all2 (answered ans) fs ps \<and> c_output c = concat ps)"
  using assms
proof (induction rule: conn_run.induct)
  case (step ds fs c c')
  then obtain ps where IH: "ds = map call_request (fs @ c_calls c)" "\<And>d r. Ready d r \<in> set (c_calls c) \<Longrightarrow> ans d r"
      "list_all2 (answered ans) fs ps" "c_output c = concat ps" by blast
  from step.hyps(2) show ?case
  proof (cases rule: conn_step_queue)
    case (answer d a p)
    have "answered ans (Ready d (Inr a)) p" using IH(2) [of d "Inr a"] answer by (simp add: answered_def)
    then have "list_all2 (answered ans) (fs @ [Ready d (Inr a)]) (ps @ [p])" using IH(3) by (simp add: list_all2_appendI)
    then show ?thesis
      using IH(1,2,4) answer by (auto simp: queued_def taken_def intro!: exI [of _ "ps @ [p]"])
  next
    case (result k d r)
    have "Ready d' r' \<in> set (c_calls c) \<or> (d' = d \<and> r' = r)" if "Ready d' r' \<in> set (c_calls c')" for d' r'
      using that set_update_subset_insert [of "c_calls c" k "Ready d r"] result(4) by auto
    moreover have "map call_request (c_calls c') = map call_request (c_calls c)"
      using result(1,2,4) by (simp add: map_update list_update_same_conv)
    ultimately show ?thesis using IH result by (auto simp: queued_def taken_def)
  next
    case same
    then show ?thesis using IH by (auto simp: queued_def taken_def)
  next
    case (queue d)
    then show ?thesis using IH by (auto simp: queued_def taken_def)
  qed
qed (auto intro: exI [of _ "[]"])

section \<open>Closing, and a handler that throws\<close>

lemma close_ends_reading:
  assumes "\<not> c_open c" and "\<not> c_blocked c"
  shows "\<exists>c'. (conn_step hs ans)\<^sup>*\<^sup>* c c' \<and> c_pending c' = No_Read \<and> \<not> c_open c' \<and> c_manager c' = c_manager c"
proof (cases "c_pending c")
  case No_Read
  then show ?thesis using assms by blast
next
  case Read_Header
  have "conn_step hs ans c (on_header True [] c)" by (rule conn_step.header_aborted [OF assms Read_Header])
  then show ?thesis using assms by (intro exI [of _ "on_header True [] c"]) (auto simp: on_header_def finish_read_def)
next
  case (Read_Body hdr n)
  let ?c = "c\<lparr>c_data := overwrite (c_data c) 0 [], c_pending := No_Read\<rparr>"
  have "conn_step hs ans c ?c"
    by (rule conn_step.body_aborted [OF assms Read_Body]) (use assms in \<open>simp add: on_body_def start_read_def Let_def\<close>)
  then show ?thesis using assms by (intro exI [of _ ?c]) auto
qed

lemma on_body_wedged:
  assumes "on_body hs hdr err bs c = Inr c'" and "c_lock c"
  shows "c_lock c' \<and> c_manager c' = c_manager c \<and> c_done c' = c_done c \<and> c_output c' = c_output c \<and> c_calls c' = c_calls c"
  using assms by (auto simp: on_body_def start_read_def push_call_def Let_def split: if_splits sum.splits cpp_error.splits)

lemma wedged_steps:
  assumes "(conn_step hs ans)\<^sup>*\<^sup>* c c'" and "c_lock c" and "\<not> c_manager c"
  shows "c_lock c' \<and> \<not> c_manager c' \<and> c_done c' = c_done c \<and> c_output c' = c_output c \<and>
    length (c_calls c') = length (c_calls c)"
  using assms(1)
proof (induction rule: rtranclp_induct)
  case base
  show ?case using assms by simp
next
  case (step x y)
  from step(2) show ?case
  proof (cases rule: conn_step.cases)
    case (body hdr n err bs rest)
    then show ?thesis using step(3) on_body_wedged [OF body(5)] by simp
  next
    case (body_aborted hdr n)
    then show ?thesis using step(3) on_body_wedged [OF body_aborted(4)] by simp
  qed (use step(3) in \<open>auto simp: on_header_def finish_read_def manager_round_def Connection_close_def Let_def\<close>)
qed

section \<open>Messages of the clients\<close>

lemma complete_put:
  assumes "length k = 32" and "8 + length k + length v < 2 ^ 16"
  shows "complete_message (m_bytes (Message_DHT_PUT_make k v t r))"
    "DHT_PUT \<in> set hs \<Longrightarrow> calls_of hs (m_bytes (Message_DHT_PUT_make k v t r)) =
       [Data_PUT ((Message_DHT_PUT_make k v t r)\<lparr>put_key := k, put_value := v\<rparr>)]"
proof -
  let ?m = "Message_DHT_PUT_make k v t r"
  have n: "unat (of_nat (40 + length v) :: u16) = 40 + length v" using unat_of_nat_u16 [of "40 + length v"] assms by simp
  have h: "MessageHeader_of_raw (header_at (m_bytes ?m) 0) = m_header ?m"
    using assms(1) by (simp add: codec_simps PUT_make_header header_at_header_bytes)
  have "length (m_bytes ?m) = 40 + length v" using assms(1) by (simp add: codec_simps)
  moreover have "unat (hdr_size (m_header ?m)) = 40 + length v" "msg_type (m_header ?m) = DHT_PUT"
    using n assms(1) by (simp_all add: PUT_make_header)
  ultimately show "complete_message (m_bytes ?m)"
    "DHT_PUT \<in> set hs \<Longrightarrow> calls_of hs (m_bytes ?m) = [Data_PUT (?m\<lparr>put_key := k, put_value := v\<rparr>)]"
    by (simp_all add: complete_message_def calls_of_def request_of_put [OF assms] h)
qed

lemma complete_get:
  assumes "length k = 32"
  shows "complete_message (m_bytes (Message_KEY_make DHT_GET k))"
    "DHT_GET \<in> set hs \<Longrightarrow> calls_of hs (m_bytes (Message_KEY_make DHT_GET k)) = [Data_KEY ((Message_KEY_make DHT_GET k)\<lparr>key_key := k\<rparr>)]"
proof -
  let ?m = "Message_KEY_make DHT_GET k"
  have h: "MessageHeader_of_raw (header_at (m_bytes ?m) 0) = m_header ?m"
    using assms by (simp add: codec_simps KEY_make_header header_at_header_bytes)
  have "length (m_bytes ?m) = 36" using assms by (simp add: codec_simps)
  moreover have "unat (hdr_size (m_header ?m)) = 36" "msg_type (m_header ?m) = DHT_GET"
    using assms by (simp_all add: KEY_make_header)
  ultimately show "complete_message (m_bytes ?m)"
    "DHT_GET \<in> set hs \<Longrightarrow> calls_of hs (m_bytes ?m) = [Data_KEY (?m\<lparr>key_key := k\<rparr>)]"
    by (simp_all add: complete_message_def calls_of_def request_of_get [OF assms] h)
qed

lemma reading_init: "length g = 4 \<Longrightarrow> reading (Connection_init g input)"
  by (simp add: reading_def Connection_init_def start_read_def)

lemma init_delivers:
  assumes "length g = 4" and "complete_message m"
  shows "\<exists>c'. (conn_step hs ans)\<^sup>*\<^sup>* (Connection_init g m) c' \<and> c_calls c' = map Running (calls_of hs m)"
proof -
  have "c_input (Connection_init g m) = m @ []" by (simp add: Connection_init_def start_read_def)
  from reads_message [OF reading_init [OF assms(1)] assms(2) this]
  show ?thesis by (intro exI [of _ "deliver hs m (Connection_init g m)"])
    (simp add: deliver_def Connection_init_def start_read_def)
qed

lemma sample_delivered:
  "(conn_step [DHT_GET] ans)\<^sup>*\<^sup>* (Connection_init [0, 0, 0, 0] sample_stream)
     (deliver [DHT_GET] sample_stream (Connection_init [0, 0, 0, 0] sample_stream))"
  by (rule reads_message [of _ _ "[]"])
    (use complete_get(1) [of "replicate 32 5"] in \<open>simp_all add: reading_def sample_stream_def Connection_init_def start_read_def\<close>)

lemma sample_answered:
  "\<exists>c. (conn_step [DHT_GET] (\<lambda>d r. r = Inr [9]))\<^sup>*\<^sup>* (Connection_init [0, 0, 0, 0] sample_stream) c \<and> c_output c = [9]"
proof -
  let ?c = "deliver [DHT_GET] sample_stream (Connection_init [0, 0, 0, 0] sample_stream)"
  let ?d = "Data_KEY ((Message_KEY_make DHT_GET (replicate 32 5))\<lparr>key_key := replicate 32 5\<rparr>)"
  let ?c1 = "?c\<lparr>c_calls := [Ready ?d (Inr [9])]\<rparr>"
  have calls: "c_calls ?c = [Running ?d]"
    using complete_get(2) [of "replicate 32 5" "[DHT_GET]"]
    by (simp add: deliver_def sample_stream_def Connection_init_def start_read_def)
  have "conn_step [DHT_GET] (\<lambda>d r. r = Inr [9]) ?c ?c1"
    using conn_step.finish [where k = 0 and c = ?c and d = ?d and r = "Inr [9]" and hs = "[DHT_GET]"] calls by simp
  moreover have "conn_step [DHT_GET] (\<lambda>d r. r = Inr [9]) ?c1 (manager_round (Some 1) ?c1)" by (rule conn_step.manage)
  moreover have "c_output (manager_round (Some 1) ?c1) = [9]"
    by (simp add: manager_round_def deliver_def Connection_init_def start_read_def)
  ultimately show ?thesis using sample_delivered by (meson rtranclp.rtrancl_into_rtrancl)
qed

lemma conn_run_steps: "(conn_step hs ans)\<^sup>*\<^sup>* c c' \<Longrightarrow> \<exists>ds fs. conn_run hs ans c ds fs c'"
  by (induction rule: rtranclp_induct) (blast intro: conn_run.intros)+

section \<open>Properties\<close>

text \<open>
  C10: A connection cuts the stream into messages. However the bytes of a sequence of complete messages
  arrive, the read handlers take them off the input and queue one call for each message that decodes to a
  request with a handler, in the order of the messages and nothing else, and wait for the next message.
\<close>

theorem messages_reassembled:
  assumes "reading c" and "list_all complete_message ms" and "c_input c = concat ms @ rest"
  shows "\<exists>c'. (conn_step hs ans)\<^sup>*\<^sup>* c c' \<and> reading c' \<and> c_input c' = rest \<and>
    c_calls c' = c_calls c @ map Running (concat (map (calls_of hs) ms))"
  using conn.reads_frames [OF assms] fold_deliver_calls by blast

theorem messages_reassembled_witness:
  "\<exists>c'. (conn_step [DHT_GET] (\<lambda>d r. True))\<^sup>*\<^sup>*
      (Connection_init [0, 0, 0, 0] (m_bytes (Message_KEY_make DHT_GET (replicate 32 5)))) c' \<and>
    c_calls c' = [Running (Data_KEY ((Message_KEY_make DHT_GET (replicate 32 5))\<lparr>key_key := replicate 32 5\<rparr>))]"
proof -
  let ?m = "m_bytes (Message_KEY_make DHT_GET (replicate 32 5))"
  let ?c = "Connection_init [0, 0, 0, 0] ?m"
  have c: "reading ?c" by (rule reading_init) simp
  have m: "list_all complete_message [?m]" using complete_get [of "replicate 32 5"] by simp
  have i: "c_input ?c = concat [?m] @ []" by (simp add: Connection_init_def start_read_def)
  have "c_calls ?c = []" by (simp add: Connection_init_def start_read_def)
  then show ?thesis
    using messages_reassembled [OF c m i, of "[DHT_GET]" "\<lambda>d r. True"] complete_get(2) [of "replicate 32 5" "[DHT_GET]"]
    by auto
qed

text \<open>
  C11: Answers leave a connection in the order of their requests, whichever request handler finishes
  first. The queued requests are those already taken from the queue followed by those still in it; each
  taken call has a result its handler may have, and what was sent is, call by call, a beginning of that
  result.
\<close>

theorem answers_in_order:
  assumes "conn_run hs ans (Connection_init g input) ds fs c"
  shows "ds = map call_request (fs @ c_calls c) \<and>
    (\<exists>ps. list_all2 (\<lambda>f p. \<exists>d a. f = Ready d (Inr a) \<and> ans d (Inr a) \<and> prefix p a) fs ps \<and> c_output c = concat ps)"
proof -
  have "c_calls (Connection_init g input) = []" "c_output (Connection_init g input) = []"
    by (simp_all add: Connection_init_def start_read_def)
  from conn_run_order [OF assms this] show ?thesis unfolding answered_def by blast
qed

theorem answers_in_order_witness:
  "\<exists>c ds fs. conn_run [DHT_GET] (\<lambda>d r. r = Inr [9]) (Connection_init [0, 0, 0, 0] sample_stream) ds fs c \<and>
     c_output c = [9] \<and> ds = map call_request (fs @ c_calls c)"
proof -
  obtain c where c: "(conn_step [DHT_GET] (\<lambda>d r. r = Inr [9]))\<^sup>*\<^sup>* (Connection_init [0, 0, 0, 0] sample_stream) c"
      "c_output c = [9]" using sample_answered by blast
  obtain ds fs where "conn_run [DHT_GET] (\<lambda>d r. r = Inr [9]) (Connection_init [0, 0, 0, 0] sample_stream) ds fs c"
    using conn_run_steps [OF c(1)] by blast
  with answers_in_order [OF this] c(2) show ?thesis by blast
qed

text \<open>
  C37: When a client goes away, its connection does not end. In every state that an open connection
  reaches, once the input is used up, the manager has not finished, and the two read handlers start each
  other for ever: two steps lead from the state back to itself.
\<close>

theorem ended_connection_spins:
  assumes "length g = 4" and "(conn_step hs ans)\<^sup>*\<^sup>* (Connection_init g input) c"
    and "c_open c" and "\<not> c_blocked c" and "c_input c = []"
  shows "\<not> isDone c \<and> (\<exists>c'. c' \<noteq> c \<and> conn_step hs ans c c' \<and> conn_step hs ans c' c)"
proof -
  have "conn_ok c" by (rule conn_ok_steps [OF assms(2) conn_ok_init [OF assms(1)]])
  then show ?thesis using ended_stream_cycle [OF _ assms(3-5)] assms(3) by (auto simp: isDone_def conn_ok_def)
qed

theorem ended_connection_spins_witness:
  "\<not> isDone (Connection_init [0, 0, 0, 0] []) \<and>
   (\<exists>c'. c' \<noteq> Connection_init [0, 0, 0, 0] [] \<and> conn_step [] (\<lambda>d r. True) (Connection_init [0, 0, 0, 0] []) c' \<and>
      conn_step [] (\<lambda>d r. True) c' (Connection_init [0, 0, 0, 0] []))"
  by (rule ended_connection_spins [where input = "[]" and g = "[0, 0, 0, 0]"]) (simp_all add: Connection_init_def start_read_def)

text \<open>
  Closing a connection ends it: the read that is under way is aborted and no other follows, and the
  manager finishes.
\<close>

theorem close_finishes:
  assumes "\<not> c_blocked c" and "c_manager c"
  shows "\<exists>c'. (conn_step hs ans)\<^sup>*\<^sup>* (Connection_close c) c' \<and> c_pending c' = No_Read \<and> isDone c'"
proof -
  obtain c' where c': "(conn_step hs ans)\<^sup>*\<^sup>* (Connection_close c) c'" "c_pending c' = No_Read" "\<not> c_open c'" "c_manager c'"
    using close_ends_reading [of "Connection_close c"] assms by (auto simp: Connection_close_def)
  have "(conn_step hs ans)\<^sup>*\<^sup>* (Connection_close c) (manager_round None c')"
    using c'(1) conn_step.manage by (rule rtranclp.rtrancl_into_rtrancl)
  then show ?thesis
    using c'(2-4) by (intro exI [of _ "manager_round None c'"]) (simp add: manager_round_def isDone_def)
qed

theorem close_finishes_witness:
  "\<exists>c'. (conn_step [] (\<lambda>d r. True))\<^sup>*\<^sup>* (Connection_close (Connection_init [0, 0, 0, 0] [])) c' \<and>
     c_pending c' = No_Read \<and> isDone c'"
  by (rule close_finishes) (simp_all add: Connection_init_def start_read_def)

text \<open>
  A request handler that throws silences its connection for good. When the call at the front has
  ended with an exception, the manager dies with the lock in its hands: after that nothing is sent, no
  request is queued, and the connection is not done even when it is closed.
\<close>

theorem handler_exception_wedges:
  assumes "c_open c" and "c_manager c" and "\<not> c_done c" and "c_calls c = Ready d (Inl e) # rest"
    and "(conn_step hs ans)\<^sup>*\<^sup>* (manager_round wr c) c'"
  shows "c_output c' = c_output c \<and> length (c_calls c') = length (c_calls c) \<and> \<not> isDone c'"
proof -
  have "manager_round wr c = c\<lparr>c_lock := True, c_manager := False\<rparr>"
    using assms(1,2,4) by (simp add: manager_round_def)
  then show ?thesis using wedged_steps [OF assms(5)] assms(3) by (simp add: isDone_def)
qed

theorem handler_exception_wedges_witness:
  "\<not> isDone (manager_round None ((Connection_init [] [])\<lparr>c_calls :=
     [Ready (Data_KEY (Message_KEY_make DHT_GET [])) (Inl (Runtime_Error []))]\<rparr>))"
  by (rule handler_exception_wedges [THEN conjunct2, THEN conjunct2, OF _ _ _ _ rtranclp.rtrancl_refl])
    (simp_all add: Connection_init_def start_read_def)

end
