(* ===== verification/Api.thy ===== *)
theory Api
  imports Connection Dht
begin

text \<open>
  \<open>src/src/api/api\<close> and \<open>Dht::setApi\<close>: the server that accepts the clients' connections, the map from
  message types to request handlers, and the handlers that a peer registers. A handler gets the decoded
  message through a dynamic cast to the class that its message type stands for. The lemmas show that the
  cast never fails, and put the chain from the bytes a client sends to the bytes it receives together.
\<close>

section \<open>Definitions\<close>

subsection \<open>Request handlers\<close>

text \<open>
  What a handler does to the network and to the settings of its process, with its answer. \<open>None\<close> is a
  call that never returns.
\<close>

type_synonym handler_result = "(bytes \<times> network \<times> NodeStatics) result option"
type_synonym request_handler_t = "DecodedData \<Rightarrow> network \<Rightarrow> NodeStatics \<Rightarrow> handler_result"

datatype msg_class = Class_KEY | Class_PUT | Class_PUT_HASH | Class_GET_HASH

definition message_type_from_int :: "u16 \<Rightarrow> msg_class option" where
  "message_type_from_int t =
     (if t = DHT_GET then Some Class_KEY
      else if t = DHT_PUT then Some Class_PUT
      else if t = DHT_PUT_KEY_IS_HASH_OF_DATA then Some Class_PUT_HASH
      else if t = DHT_GET_KEY_IS_HASH_OF_DATA then Some Class_GET_HASH
      else None)"

fun data_class :: "DecodedData \<Rightarrow> msg_class" where
  "data_class (Data_KEY d) = Class_KEY"
| "data_class (Data_PUT d) = Class_PUT"
| "data_class (Data_PUT_HASH d) = Class_PUT_HASH"
| "data_class (Data_GET_HASH d) = Class_GET_HASH"

text \<open>A handler for one class of messages.\<close>

datatype specific_handler =
    H_KEY "Message_KEY \<Rightarrow> network \<Rightarrow> NodeStatics \<Rightarrow> handler_result"
  | H_PUT "Message_DHT_PUT \<Rightarrow> network \<Rightarrow> NodeStatics \<Rightarrow> handler_result"
  | H_PUT_HASH "Message_DHT_PUT_KEY_IS_HASH_OF_DATA \<Rightarrow> network \<Rightarrow> NodeStatics \<Rightarrow> handler_result"
  | H_GET_HASH "Message_DHT_GET_KEY_IS_HASH_OF_DATA \<Rightarrow> network \<Rightarrow> NodeStatics \<Rightarrow> handler_result"

text \<open>The wrapper that \<open>on\<close> stores: a reference cast that fails throws.\<close>

fun cast_call :: "specific_handler \<Rightarrow> request_handler_t" where
  "cast_call (H_KEY f) (Data_KEY d) = f d"
| "cast_call (H_PUT f) (Data_PUT d) = f d"
| "cast_call (H_PUT_HASH f) (Data_PUT_HASH d) = f d"
| "cast_call (H_GET_HASH f) (Data_GET_HASH d) = f d"
| "cast_call _ _ = (\<lambda>net st. Some (Inl Bad_Cast))"

subsection \<open>The server\<close>

record Api =
  m_openConnections :: "Connection list"
  m_requestHandlers :: "(u16 \<times> request_handler_t) list"
  m_isRunning :: bool

definition Api_on :: "u16 \<Rightarrow> specific_handler option \<Rightarrow> Api \<Rightarrow> Api" where
  "Api_on t requestHandler api =
     (case requestHandler of
        Some r \<Rightarrow> api\<lparr>m_requestHandlers := smap_assign t (cast_call r) (m_requestHandlers api)\<rparr>
      | None \<Rightarrow> api\<lparr>m_requestHandlers := smap_erase t (m_requestHandlers api)\<rparr>)"

definition start_accept :: "Api \<Rightarrow> Api" where
  "start_accept api =
     (if \<not> m_isRunning api then api
      else api\<lparr>m_openConnections := filter (\<lambda>c. \<not> isDone c) (m_openConnections api)\<rparr>)"

definition on_accept :: "bool \<Rightarrow> Connection \<Rightarrow> Api \<Rightarrow> Api" where
  "on_accept err socket api =
     (let api = start_accept api
      in if err then api else api\<lparr>m_openConnections := m_openConnections api @ [socket]\<rparr>)"

definition Api_init :: Api where
  "Api_init = start_accept \<lparr>m_openConnections = [], m_requestHandlers = [], m_isRunning = True\<rparr>"

text \<open>The destructor; also returned is how it leaves the connections.\<close>

definition Api_destroy :: "Api \<Rightarrow> Api \<times> Connection list" where
  "Api_destroy api =
     (let api = api\<lparr>m_isRunning := False\<rparr>;
          closed = map Connection_close (m_openConnections api)
      in (api\<lparr>m_openConnections := []\<rparr>, map Connection_destroy closed))"

definition handled_types :: "Api \<Rightarrow> u16 list" where
  "handled_types api = map fst (m_requestHandlers api)"

text \<open>The call that a connection starts for a request.\<close>

definition call_handler :: "Api \<Rightarrow> DecodedData \<Rightarrow> network \<Rightarrow> NodeStatics \<Rightarrow> handler_result" where
  "call_handler api d net st =
     (case map_of (m_requestHandlers api) (msg_type (decoded_header d)) of
        Some f \<Rightarrow> f d net st
      | None \<Rightarrow> Some (Inl (Undefined_Behaviour ''dereference of an end iterator'')))"

text \<open>
  The connections of a server that runs: new ones are accepted, and each takes its steps; only the
  destructor closes one. \<open>n\<close> counts the accepted ones.
\<close>

inductive api_run :: "(DecodedData \<Rightarrow> bytes result \<Rightarrow> bool) \<Rightarrow> nat \<Rightarrow> Api \<Rightarrow> bool" for ans where
  init: "m_isRunning api \<Longrightarrow> m_openConnections api = [] \<Longrightarrow> api_run ans 0 api"
| accept: "api_run ans n api \<Longrightarrow> length g = 4 \<Longrightarrow> api_run ans (Suc n) (on_accept False (Connection_init g input) api)"
| accept_error: "api_run ans n api \<Longrightarrow> api_run ans n (on_accept True c api)"
| conn: "api_run ans n api \<Longrightarrow> k < length (m_openConnections api) \<Longrightarrow>
    conn_step (handled_types api) ans (m_openConnections api ! k) c \<Longrightarrow> c \<noteq> Connection_close (m_openConnections api ! k) \<Longrightarrow>
    api_run ans n (api\<lparr>m_openConnections := (m_openConnections api)[k := c]\<rparr>)"

subsection \<open>The handlers of a peer\<close>

definition put_handler where
  "put_handler h now self m net st = map_option Inr (onDhtPut h now self m net st)"

definition get_handler where
  "get_handler h self m net st = map_option (\<lambda>r. Inr (r, net, st)) (onDhtGet h self m net st)"

definition put_hash_handler where
  "put_hash_handler h now self m net st = map_option Inr (onDhtPutKeyIsHashOfData h now self m net st)"

definition get_hash_handler where
  "get_hash_handler h garbage self m net st =
     map_option (map_sum id (\<lambda>r. (r, net, st))) (onDhtGetKeyIsHashOfData h garbage self m net st)"

definition Dht_setApi :: "(bytes \<Rightarrow> bytes) \<Rightarrow> (nat \<Rightarrow> int) \<Rightarrow> bytes \<Rightarrow> addr \<Rightarrow> Api \<Rightarrow> Api" where
  "Dht_setApi h now garbage self api =
     (let api = Api_on DHT_PUT (Some (H_PUT (put_handler h now self))) api;
          api = Api_on DHT_GET (Some (H_KEY (get_handler h self))) api;
          api = Api_on DHT_PUT_KEY_IS_HASH_OF_DATA (Some (H_PUT_HASH (put_hash_handler h now self))) api;
          api = Api_on DHT_GET_KEY_IS_HASH_OF_DATA (Some (H_GET_HASH (get_hash_handler h garbage self))) api
      in api)"

text \<open>What a peer answers to a request, by its class.\<close>

fun peer_answer :: "(bytes \<Rightarrow> bytes) \<Rightarrow> (nat \<Rightarrow> int) \<Rightarrow> bytes \<Rightarrow> addr \<Rightarrow> request_handler_t" where
  "peer_answer h now garbage self (Data_PUT m) = put_handler h now self m"
| "peer_answer h now garbage self (Data_KEY m) = get_handler h self m"
| "peer_answer h now garbage self (Data_PUT_HASH m) = put_hash_handler h now self m"
| "peer_answer h now garbage self (Data_GET_HASH m) = get_hash_handler h garbage self m"

section \<open>Dispatch\<close>

lemma decode_header:
  "Message_DHT_PUT_decode bs = Inr d \<Longrightarrow> m_header d = MessageHeader_of_raw (header_at bs 0)"
  "Message_KEY_decode bs = Inr e \<Longrightarrow> m_header e = MessageHeader_of_raw (header_at bs 0)"
  "Message_DHT_PUT_KEY_IS_HASH_OF_DATA_decode bs = Inr f \<Longrightarrow> m_header f = MessageHeader_of_raw (header_at bs 0)"
  "Message_DHT_GET_KEY_IS_HASH_OF_DATA_decode bs = Inr g \<Longrightarrow> m_header g = MessageHeader_of_raw (header_at bs 0)"
  by (auto simp: decode_defs split: if_splits)

lemma map_sum_Inr: "map_sum id f x = Inr y \<longleftrightarrow> (\<exists>z. x = Inr z \<and> y = f z)"
  by (cases x) auto

lemma Request_class:
  assumes "Request_init (MessageHeader_of_raw (header_at bs 0)) bs = Inr r"
  shows "decoded_header (m_decodedData r) = MessageHeader_of_raw (header_at bs 0)"
    "message_type_from_int (msg_type (MessageHeader_of_raw (header_at bs 0))) = Some (data_class (m_decodedData r))"
  using assms unfolding Request_init_def
  by (auto split: if_splits simp: map_sum_Inr decode_header message_type_from_int_def msg_type_defs)

lemma handlers_registered:
  "map_of (m_requestHandlers (Dht_setApi h now garbage self api)) t =
     (if t = DHT_PUT then Some (cast_call (H_PUT (put_handler h now self)))
      else if t = DHT_GET then Some (cast_call (H_KEY (get_handler h self)))
      else if t = DHT_PUT_KEY_IS_HASH_OF_DATA then Some (cast_call (H_PUT_HASH (put_hash_handler h now self)))
      else if t = DHT_GET_KEY_IS_HASH_OF_DATA then Some (cast_call (H_GET_HASH (get_hash_handler h garbage self)))
      else map_of (m_requestHandlers api) t)"
  by (simp add: Dht_setApi_def Api_on_def Let_def map_of_smap_assign msg_type_defs)

lemma call_handler_class:
  assumes "message_type_from_int (msg_type (decoded_header d)) = Some (data_class d)"
  shows "call_handler (Dht_setApi h now garbage self api) d net st = peer_answer h now garbage self d net st"
  using assms
  by (cases d) (auto simp: call_handler_def handlers_registered message_type_from_int_def msg_type_defs split: if_splits)

lemma handled_types_setApi:
  "message_type_from_int t \<noteq> None \<Longrightarrow> t \<in> set (handled_types (Dht_setApi h now garbage self api))"
  using handlers_registered [of h now garbage self api t]
  by (auto simp: handled_types_def message_type_from_int_def split: if_splits dest!: map_of_SomeD intro: rev_image_eqI)

section \<open>The connections of a server\<close>

lemma conn_step_open: "conn_step hs ans c c' \<Longrightarrow> c' \<noteq> Connection_close c \<Longrightarrow> c_open c \<Longrightarrow> c_open c'"
  by (erule conn_step.cases)
    (auto simp: on_header_def finish_read_def on_body_def start_read_def push_call_def manager_round_def Let_def
      split: if_splits sum.splits cpp_error.splits list.splits future.splits option.splits)

lemma api_run_kept:
  "api_run ans n api \<Longrightarrow> m_isRunning api \<and> length (m_openConnections api) = n \<and>
     (\<forall>c \<in> set (m_openConnections api). conn_ok c \<and> c_open c)"
proof (induction rule: api_run.induct)
  case (accept n api g input)
  then have "filter (\<lambda>c. \<not> isDone c) (m_openConnections api) = m_openConnections api"
    by (auto simp: filter_id_conv isDone_def conn_ok_def)
  moreover have "c_open (Connection_init g input)" by (simp add: Connection_init_def start_read_def)
  ultimately show ?case using accept conn_ok_init by (auto simp: on_accept_def start_accept_def Let_def)
next
  case (accept_error n api c)
  then have "filter (\<lambda>c. \<not> isDone c) (m_openConnections api) = m_openConnections api"
    by (auto simp: filter_id_conv isDone_def conn_ok_def)
  then show ?case using accept_error by (auto simp: on_accept_def start_accept_def Let_def)
next
  case (conn n api k c)
  then have "m_openConnections api ! k \<in> set (m_openConnections api)" by simp
  then have "conn_ok c" "c_open c" using conn conn_ok_step conn_step_open by blast+
  then show ?case using conn set_update_subset_insert [of "m_openConnections api" k c] by auto
qed simp

section \<open>Properties\<close>

text \<open>
  C12: The handler that a peer's server calls for a request is the one for the class of the decoded
  message: for every message that decodes, whatever handlers were registered before, there is a handler,
  its dynamic cast succeeds, and it answers as the peer does for that class.
\<close>

theorem dispatch_type_safe:
  assumes "Request_init (MessageHeader_of_raw (header_at bs 0)) bs = Inr r"
  shows "message_type_from_int (msg_type (decoded_header (m_decodedData r))) = Some (data_class (m_decodedData r)) \<and>
    call_handler (Dht_setApi h now garbage self api) (m_decodedData r) net st =
      peer_answer h now garbage self (m_decodedData r) net st"
  using Request_class [OF assms] call_handler_class by simp

theorem dispatch_type_safe_witness:
  "\<exists>r. call_handler (Dht_setApi sample_hash (\<lambda>_. 0) [] (''a'', 1) Api_init) (Data_KEY r) sample_net statics_init =
     peer_answer sample_hash (\<lambda>_. 0) [] (''a'', 1) (Data_KEY r) sample_net statics_init"
proof -
  let ?m = "Message_KEY_make DHT_GET (replicate 32 5)"
  have "MessageHeader_of_raw (header_at (m_bytes ?m) 0) = m_header ?m"
    by (simp add: codec_simps KEY_make_header header_at_header_bytes)
  then have "Request_init (MessageHeader_of_raw (header_at (m_bytes ?m) 0)) (m_bytes ?m) =
      Inr \<lparr>m_rawBytes = m_bytes ?m, m_decodedData = Data_KEY (?m\<lparr>key_key := replicate 32 5\<rparr>)\<rparr>"
    using request_of_get [of "replicate 32 5"] by simp
  from dispatch_type_safe [OF this, of sample_hash "\<lambda>_. 0" "[]" "(''a'', 1)" Api_init] show ?thesis by auto
qed

text \<open>
  C3: From the bytes of a client to the bytes of its answer. A client sends a put over its connection to
  one peer of a stable ring, another sends a get of the same key to any peer. Each connection queues
  exactly one call; the put's call returns and leaves the ring stable, and the get's call, made on the
  network that the put left, returns the message \<open>DHT_SUCCESS\<close> with the key and the value.
\<close>

theorem client_put_get:
  assumes "stable_ring h addrs net" and "b \<in> set addrs" and "c \<in> set addrs" and "\<And>x. length (h x) = 32"
    and "length k = 32" and "8 + length k + length v < 2 ^ 16" and "length g = 4"
    and "api = Dht_setApi h now garbage b Api_init" and "api' = Dht_setApi h now' garbage' c Api_init"
  shows "\<exists>cb cc p q net' st'.
    (conn_step (handled_types api) ans)\<^sup>*\<^sup>* (Connection_init g (m_bytes (Message_DHT_PUT_make k v t r))) cb \<and>
    c_calls cb = [Running p] \<and>
    (conn_step (handled_types api') ans)\<^sup>*\<^sup>* (Connection_init g (m_bytes (Message_KEY_make DHT_GET k))) cc \<and>
    c_calls cc = [Running q] \<and>
    call_handler api p net st = Some (Inr (m_bytes (Message_DHT_PUT_make k v t r), net', st')) \<and> stable_ring h addrs net' \<and>
    call_handler api' q net' st2 = Some (Inr (m_bytes (Message_DHT_SUCCESS_make k v), net', st2))"
proof -
  let ?p = "(Message_DHT_PUT_make k v t r)\<lparr>put_key := k, put_value := v\<rparr>"
  let ?q = "(Message_KEY_make DHT_GET k)\<lparr>key_key := k\<rparr>"
  have "DHT_PUT \<in> set (handled_types api)" "DHT_GET \<in> set (handled_types api')"
    unfolding assms(8,9) by (rule handled_types_setApi, simp add: message_type_from_int_def)+
  then have calls: "calls_of (handled_types api) (m_bytes (Message_DHT_PUT_make k v t r)) = [Data_PUT ?p]"
      "calls_of (handled_types api') (m_bytes (Message_KEY_make DHT_GET k)) = [Data_KEY ?q]"
    using complete_put(2) [OF assms(5,6)] complete_get(2) [OF assms(5)] by simp_all
  obtain cb cc where conns: "(conn_step (handled_types api) ans)\<^sup>*\<^sup>* (Connection_init g (m_bytes (Message_DHT_PUT_make k v t r))) cb"
      "c_calls cb = [Running (Data_PUT ?p)]"
      "(conn_step (handled_types api') ans)\<^sup>*\<^sup>* (Connection_init g (m_bytes (Message_KEY_make DHT_GET k))) cc"
      "c_calls cc = [Running (Data_KEY ?q)]"
    using init_delivers [OF assms(7) complete_put(1) [OF assms(5,6)]] init_delivers [OF assms(7) complete_get(1) [OF assms(5)]]
      calls by fastforce
  obtain net' st' where put: "onDhtPut h now b ?p net st = Some (m_bytes ?p, net', st')" "stable_ring h addrs net'"
      "onDhtGet h c ?q net' st2 = Some (m_bytes (Message_DHT_SUCCESS_make (put_key ?p) (put_value ?p)))"
    using put_then_get_ring [OF assms(1-4), of ?q ?p now st st2] by auto
  have "call_handler api (Data_PUT ?p) net st = Some (Inr (m_bytes (Message_DHT_PUT_make k v t r), net', st'))"
    unfolding assms(8) by (subst call_handler_class) (use put(1) in \<open>simp_all add: put_handler_def PUT_make_header message_type_from_int_def msg_type_defs\<close>)
  moreover have "call_handler api' (Data_KEY ?q) net' st2 = Some (Inr (m_bytes (Message_DHT_SUCCESS_make k v), net', st2))"
    unfolding assms(9) by (subst call_handler_class) (use put(3) in \<open>simp_all add: get_handler_def KEY_make_header message_type_from_int_def\<close>)
  ultimately show ?thesis using conns put(2) by blast
qed

theorem client_put_get_witness:
  "\<exists>p q net' st'.
     call_handler (Dht_setApi sample_hash (\<lambda>_. 0) [] (''a'', 1) Api_init) p sample_net statics_init =
       Some (Inr (m_bytes (Message_DHT_PUT_make (replicate 32 5) [7] 60 3), net', st')) \<and>
     call_handler (Dht_setApi sample_hash (\<lambda>_. 0) [] (''bb'', 1) Api_init) q net' statics_init =
       Some (Inr (m_bytes (Message_DHT_SUCCESS_make (replicate 32 5) [7]), net', statics_init))"
proof -
  have l: "length (replicate 32 (5::byte)) = 32" "8 + length (replicate 32 (5::byte)) + length [7::byte] < 2 ^ 16"
    "length [0::byte, 0, 0, 0] = 4" by simp_all
  from client_put_get [OF sample_stable sample_member sample_len l refl refl, where now = "\<lambda>_. 0" and garbage = "[]" and
      now' = "\<lambda>_. 0" and garbage' = "[]" and t = 60 and r = 3 and st = statics_init and ?st2.0 = statics_init and ans = "\<lambda>d r. True"]
  show ?thesis by blast
qed

text \<open>
  A server forgets no connection: while it runs, the connections it keeps are all it has ever
  accepted, and accepting another removes none, because no connection that the server has not closed is
  ever done.
\<close>

theorem connections_accumulate:
  assumes "api_run ans n api"
  shows "length (m_openConnections api) = n \<and>
    m_openConnections (on_accept False c api) = m_openConnections api @ [c]"
proof -
  have "filter (\<lambda>c. \<not> isDone c) (m_openConnections api) = m_openConnections api"
    using api_run_kept [OF assms] by (auto simp: filter_id_conv isDone_def conn_ok_def)
  then show ?thesis using api_run_kept [OF assms] by (simp add: on_accept_def start_accept_def Let_def)
qed

theorem connections_accumulate_witness:
  "length (m_openConnections (on_accept False (Connection_init [0, 0, 0, 0] []) Api_init)) = Suc 0"
proof -
  have "api_run (\<lambda>d r. True) 0 Api_init" by (rule api_run.init) (simp_all add: Api_init_def start_accept_def)
  then have "api_run (\<lambda>d r. True) (Suc 0) (on_accept False (Connection_init [0, 0, 0, 0] []) Api_init)"
    by (rule api_run.accept) simp
  from connections_accumulate [OF this] show ?thesis by blast
qed

end
