(* ===== verification/Process.thy ===== *)
theory Process
  imports Api Maintenance
begin

text \<open>
  The life of a \<open>Dht\<close> object (\<open>src/src/dht/Dht.h\<close>, \<open>Dht::runServer\<close>, \<open>Dht::mainLoop\<close>): the thread of
  the server, the thread of the main loop it starts, the destructor in the thread of the owner, and the
  request handlers that the client interface calls meanwhile. Each thread is a function from the state
  to the state after its next step, or \<open>None\<close> while it has to wait; \<open>process_step\<close> interleaves them.
  The state has the flags the threads share and where each of them is. What an operation of the main
  loop does to the network is in \<open>Maintenance\<close>, what a request handler does in \<open>Dht\<close>; here it returns,
  throws, or does not return.
\<close>

section \<open>Definitions\<close>

subsection \<open>State\<close>

text \<open>
  Where \<open>runServer\<close> is: before the server object, before the main loop is started, in the polling loop,
  after it, waiting for the main loop's future at the end of the scope, and returned. \<open>Server_Unwind\<close>
  waits for the same future after an exception of \<open>poll\<close>.
\<close>

datatype server_pc = Server_Start | Server_Ready | Server_Poll | Server_Reset | Server_Join | Server_Unwind | Server_Done

text \<open>
  Where the main loop is: not started, in the first wait, at the \<open>n\<close>th test of the flag, in the \<open>n\<close>th
  operation of a round, in the wait at the end of a round, at the exit, returned, ended by an exception, or
  in an operation that does not return.
\<close>

datatype main_pc =
  Main_None | Main_Sleep | Main_Check nat | Main_Op nat | Main_Wait | Main_Exit | Main_Done | Main_Failed | Main_Blocked

text \<open>
  Where the owner is: before \<open>setApi\<close>, in the life of the object, and in the destructor after the flag was
  set, while the client interface is destroyed, after that, after the main loop was waited for, and at the end.
\<close>

datatype owner_pc =
  Owner_New | Owner_Alive | Owner_Cancelled | Owner_Stopping | Owner_Stopped | Owner_Waited | Owner_Destroyed

text \<open>How an operation, a request handler or a replication task ends.\<close>

datatype outcome = Returns | Throws | Blocks

text \<open>
  \<open>requests\<close> counts the request handlers under way, \<open>blocked_requests\<close> those that will not return. A handler
  that has thrown leaves the mutex of its connection locked once its result is taken (\<open>request_thrown\<close>); the next
  request on that connection then blocks the only thread that reads requests (\<open>service_blocked\<close>).
\<close>

record Dht_process =
  m_dhtCancelled :: bool
  m_mainLoopExited :: bool
  m_peerImpl :: bool
  m_replicationFuture :: bool
  server_at :: server_pc
  main_at :: main_pc
  owner_at :: owner_pc
  requests :: nat
  blocked_requests :: nat
  request_thrown :: bool
  service_blocked :: bool
  task_blocked :: bool

definition Dht_init :: Dht_process where
  "Dht_init =
     \<lparr>m_dhtCancelled = False, m_mainLoopExited = False, m_peerImpl = False, m_replicationFuture = False,
      server_at = Server_Start, main_at = Main_None, owner_at = Owner_New, requests = 0, blocked_requests = 0,
      request_thrown = False, service_blocked = False, task_blocked = False\<rparr>"

text \<open>\<open>m_peerImpl.value()\<close>\<close>

definition getPeerImpl :: "Dht_process \<Rightarrow> unit result" where
  "getPeerImpl p = (if m_peerImpl p then Inr () else Inl (Runtime_Error ''bad_optional_access''))"

subsection \<open>Threads\<close>

text \<open>
  \<open>bound\<close>: the port of the peer could be bound. If not, the exception of the listening task comes out of
  \<open>poll\<close>. Leaving the scope waits for the future of the main loop, in both cases.
\<close>

definition runServer_step :: "bool \<Rightarrow> Dht_process \<Rightarrow> Dht_process option" where
  "runServer_step bound p =
     (case server_at p of
        Server_Start \<Rightarrow> Some (p\<lparr>m_peerImpl := True, server_at := Server_Ready\<rparr>)
      | Server_Ready \<Rightarrow> Some (p\<lparr>main_at := Main_Sleep, server_at := Server_Poll\<rparr>)
      | Server_Poll \<Rightarrow>
          if m_mainLoopExited p then Some (p\<lparr>server_at := Server_Reset\<rparr>)
          else if \<not> bound then Some (p\<lparr>server_at := Server_Unwind\<rparr>)
          else Some p
      | Server_Reset \<Rightarrow> Some (p\<lparr>m_peerImpl := False, server_at := Server_Join\<rparr>)
      | Server_Join \<Rightarrow> if main_at p \<in> {Main_Done, Main_Failed} then Some (p\<lparr>server_at := Server_Done\<rparr>) else None
      | Server_Unwind \<Rightarrow> if main_at p \<in> {Main_Done, Main_Failed} then Some (p\<lparr>server_at := Server_Done\<rparr>) else None
      | Server_Done \<Rightarrow> None)"

text \<open>
  The operations of a round are \<open>join\<close> or \<open>create\<close> (0), \<open>stabilize\<close> (1), \<open>fixFingers\<close> (2) and
  \<open>checkPredecessor\<close> (3). \<open>res\<close>: how the operation ends.
\<close>

definition mainLoop_step :: "outcome \<Rightarrow> Dht_process \<Rightarrow> Dht_process option" where
  "mainLoop_step res p =
     (case main_at p of
        Main_None \<Rightarrow> None
      | Main_Sleep \<Rightarrow> Some (p\<lparr>main_at := Main_Check 0\<rparr>)
      | Main_Check k \<Rightarrow>
          if m_dhtCancelled p then Some (p\<lparr>main_at := Main_Exit\<rparr>)
          else Some (p\<lparr>main_at := (if k < 4 then Main_Op k else Main_Wait)\<rparr>)
      | Main_Op k \<Rightarrow>
          if getPeerImpl p \<noteq> Inr () then Some (p\<lparr>main_at := Main_Failed\<rparr>)
          else Some (p\<lparr>main_at :=
            (case res of Returns \<Rightarrow> Main_Check (k + 1) | Throws \<Rightarrow> Main_Failed | Blocks \<Rightarrow> Main_Blocked)\<rparr>)
      | Main_Wait \<Rightarrow> Some (p\<lparr>main_at := Main_Check 0\<rparr>)
      | Main_Exit \<Rightarrow> Some (p\<lparr>m_mainLoopExited := True, main_at := Main_Done\<rparr>)
      | Main_Done \<Rightarrow> None
      | Main_Failed \<Rightarrow> None
      | Main_Blocked \<Rightarrow> None)"

text \<open>
  The owner: \<open>setApi\<close>, and the statements of the destructor. Destroying the client interface waits for its
  service thread and for the handlers that are under way, because their futures come from \<open>std::async\<close>.
\<close>

definition owner_step :: "Dht_process \<Rightarrow> Dht_process option" where
  "owner_step p =
     (case owner_at p of
        Owner_New \<Rightarrow> Some (p\<lparr>owner_at := Owner_Alive\<rparr>)
      | Owner_Alive \<Rightarrow> Some (p\<lparr>m_dhtCancelled := True, owner_at := Owner_Cancelled\<rparr>)
      | Owner_Cancelled \<Rightarrow> Some (p\<lparr>owner_at := Owner_Stopping\<rparr>)
      | Owner_Stopping \<Rightarrow>
          if requests p = 0 \<and> blocked_requests p = 0 \<and> \<not> service_blocked p then Some (p\<lparr>owner_at := Owner_Stopped\<rparr>) else None
      | Owner_Stopped \<Rightarrow> if server_at p = Server_Done then Some (p\<lparr>owner_at := Owner_Waited\<rparr>) else None
      | Owner_Waited \<Rightarrow> if \<not> m_replicationFuture p then Some (p\<lparr>owner_at := Owner_Destroyed\<rparr>) else None
      | Owner_Destroyed \<Rightarrow> None)"

text \<open>
  A request starts while the client interface is served; \<open>same\<close>: it arrives on a connection on which a handler
  has thrown.
\<close>

definition request_start :: "bool \<Rightarrow> Dht_process \<Rightarrow> Dht_process option" where
  "request_start same p =
     (if owner_at p \<in> {Owner_Alive, Owner_Cancelled} \<and> \<not> service_blocked p
      then Some (if same \<and> request_thrown p then p\<lparr>service_blocked := True\<rparr> else p\<lparr>requests := requests p + 1\<rparr>)
      else None)"

text \<open>
  A handler ends, or turns out not to; a put leaves a replication task behind, and waits for the task of the put
  before it, because it assigns to the future of that task.
\<close>

definition request_end :: "outcome \<Rightarrow> bool \<Rightarrow> Dht_process \<Rightarrow> Dht_process option" where
  "request_end res replicates p =
     (if requests p = 0 then None
      else case res of
             Returns \<Rightarrow>
               if replicates \<and> m_replicationFuture p then None
               else Some (p\<lparr>requests := requests p - 1, m_replicationFuture := (m_replicationFuture p \<or> replicates)\<rparr>)
           | Throws \<Rightarrow> Some (p\<lparr>requests := requests p - 1, request_thrown := True\<rparr>)
           | Blocks \<Rightarrow> Some (p\<lparr>requests := requests p - 1, blocked_requests := blocked_requests p + 1\<rparr>))"

definition replication_end :: "outcome \<Rightarrow> Dht_process \<Rightarrow> Dht_process option" where
  "replication_end res p =
     (if m_replicationFuture p \<and> \<not> task_blocked p
      then Some (if res = Blocks then p\<lparr>task_blocked := True\<rparr> else p\<lparr>m_replicationFuture := False\<rparr>)
      else None)"

text \<open>
  Who takes the step, and every order of steps. \<open>may k res\<close>: the \<open>k\<close>th operation of a round can end like that;
  \<open>may 4\<close> and \<open>may 5\<close> are the handlers and the replication tasks. A handler that finds no peer throws.
\<close>

datatype actor = By_Server | By_Main | By_Owner | By_Client | By_Handler | By_Task

inductive process_step :: "bool \<Rightarrow> (nat \<Rightarrow> outcome \<Rightarrow> bool) \<Rightarrow> actor \<Rightarrow> Dht_process \<Rightarrow> Dht_process \<Rightarrow> bool" for bound may where
  server: "runServer_step bound p = Some q \<Longrightarrow> process_step bound may By_Server p q"
| main: "(\<And>k. main_at p = Main_Op k \<Longrightarrow> may k res) \<Longrightarrow> mainLoop_step res p = Some q \<Longrightarrow> process_step bound may By_Main p q"
| owner: "owner_step p = Some q \<Longrightarrow> process_step bound may By_Owner p q"
| client: "request_start same p = Some q \<Longrightarrow> process_step bound may By_Client p q"
| handler: "may 4 res \<or> res = Throws \<and> getPeerImpl p \<noteq> Inr () \<Longrightarrow> request_end res b p = Some q \<Longrightarrow> process_step bound may By_Handler p q"
| task: "may 5 res \<Longrightarrow> replication_end res p = Some q \<Longrightarrow> process_step bound may By_Task p q"

inductive process_reachable :: "bool \<Rightarrow> (nat \<Rightarrow> outcome \<Rightarrow> bool) \<Rightarrow> Dht_process \<Rightarrow> bool" for bound may where
  init: "process_reachable bound may Dht_init"
| step: "process_reachable bound may p \<Longrightarrow> process_step bound may a p q \<Longrightarrow> process_reachable bound may q"

inductive_cases process_stepE: "process_step bound may a p q"

subsection \<open>Vocabulary of the specifications\<close>

text \<open>How the positions of the threads and the flags belong together.\<close>

definition process_ok :: "bool \<Rightarrow> Dht_process \<Rightarrow> bool" where
  "process_ok bound p \<longleftrightarrow>
     (server_at p \<in> {Server_Ready, Server_Poll, Server_Reset, Server_Unwind} \<longrightarrow> m_peerImpl p) \<and>
     (server_at p \<in> {Server_Start, Server_Join} \<longrightarrow> \<not> m_peerImpl p) \<and>
     (main_at p = Main_None \<longleftrightarrow> server_at p \<in> {Server_Start, Server_Ready}) \<and>
     (m_mainLoopExited p \<longleftrightarrow> main_at p = Main_Done) \<and>
     (server_at p \<in> {Server_Reset, Server_Join} \<longrightarrow> main_at p = Main_Done) \<and>
     (server_at p = Server_Done \<longrightarrow> main_at p \<in> {Main_Done, Main_Failed}) \<and>
     (m_dhtCancelled p \<longleftrightarrow> owner_at p \<notin> {Owner_New, Owner_Alive}) \<and>
     (main_at p \<in> {Main_Exit, Main_Done} \<longrightarrow> m_dhtCancelled p) \<and>
     (owner_at p \<in> {Owner_New, Owner_Stopped, Owner_Waited, Owner_Destroyed} \<longrightarrow>
        requests p = 0 \<and> blocked_requests p = 0 \<and> \<not> service_blocked p) \<and>
     (owner_at p \<in> {Owner_Waited, Owner_Destroyed} \<longrightarrow> server_at p = Server_Done) \<and>
     (task_blocked p \<longrightarrow> m_replicationFuture p) \<and> (owner_at p = Owner_Destroyed \<longrightarrow> \<not> m_replicationFuture p) \<and>
     (bound \<longrightarrow> server_at p \<noteq> Server_Unwind) \<and> (server_at p = Server_Done \<and> bound \<longrightarrow> main_at p = Main_Done)"

text \<open>What is left to do once the flag is set.\<close>

fun server_left :: "server_pc \<Rightarrow> nat" where
  "server_left Server_Start = 5"
| "server_left Server_Ready = 4"
| "server_left Server_Poll = 3"
| "server_left Server_Reset = 2"
| "server_left Server_Join = 1"
| "server_left Server_Unwind = 1"
| "server_left Server_Done = 0"

fun main_left :: "main_pc \<Rightarrow> nat" where
  "main_left Main_None = 4"
| "main_left Main_Sleep = 3"
| "main_left (Main_Op k) = 3"
| "main_left Main_Wait = 3"
| "main_left (Main_Check k) = 2"
| "main_left Main_Exit = 1"
| "main_left Main_Done = 0"
| "main_left Main_Failed = 0"
| "main_left Main_Blocked = 0"

fun owner_left :: "owner_pc \<Rightarrow> nat" where
  "owner_left Owner_New = 6"
| "owner_left Owner_Alive = 5"
| "owner_left Owner_Cancelled = 4"
| "owner_left Owner_Stopping = 3"
| "owner_left Owner_Stopped = 2"
| "owner_left Owner_Waited = 1"
| "owner_left Owner_Destroyed = 0"

definition work_left :: "Dht_process \<Rightarrow> nat" where
  "work_left p = server_left (server_at p) + main_left (main_at p) + owner_left (owner_at p) + 2 * requests p +
     (if m_replicationFuture p \<and> \<not> task_blocked p then 1 else 0)"

text \<open>
  What the destructor waits for in vain: a service thread, a handler, a replication task or an operation of the main loop
  that does not return, and the server, which goes on polling after the main loop has ended with an exception.
\<close>

definition hung :: "bool \<Rightarrow> Dht_process \<Rightarrow> bool" where
  "hung bound p \<longleftrightarrow>
     service_blocked p \<or> 0 < blocked_requests p \<or> task_blocked p \<or> main_at p = Main_Blocked \<or>
     bound \<and> main_at p = Main_Failed"

abbreviation process_steps :: "bool \<Rightarrow> (nat \<Rightarrow> outcome \<Rightarrow> bool) \<Rightarrow> Dht_process \<Rightarrow> Dht_process \<Rightarrow> bool" where
  "process_steps bound may \<equiv> (\<lambda>p q. \<exists>a. process_step bound may a p q)\<^sup>*\<^sup>*"

text \<open>A peer whose server and main loop have started.\<close>

definition started :: Dht_process where
  "started = Dht_init\<lparr>m_peerImpl := True, server_at := Server_Poll, main_at := Main_Sleep\<rparr>"

section \<open>Invariant\<close>

lemmas process_defs = runServer_step_def mainLoop_step_def owner_step_def request_start_def request_end_def replication_end_def

lemma process_ok_init: "process_ok bound Dht_init"
  by (simp add: process_ok_def Dht_init_def)

lemma runServer_ok: "process_ok bound p \<Longrightarrow> runServer_step bound p = Some q \<Longrightarrow> process_ok bound q"
  by (cases "server_at p"; clarsimp simp: process_ok_def runServer_step_def split: if_split_asm)

lemma mainLoop_ok: "process_ok bound p \<Longrightarrow> mainLoop_step res p = Some q \<Longrightarrow> process_ok bound q"
  by (cases "main_at p"; clarsimp simp: process_ok_def mainLoop_step_def split: if_split_asm outcome.split)

lemma owner_ok: "process_ok bound p \<Longrightarrow> owner_step p = Some q \<Longrightarrow> process_ok bound q"
  by (cases "owner_at p"; clarsimp simp: process_ok_def owner_step_def split: if_split_asm)

lemma request_ok:
  "process_ok bound p \<Longrightarrow> request_start same p = Some q \<Longrightarrow> process_ok bound q"
  "process_ok bound p \<Longrightarrow> request_end res b p = Some q \<Longrightarrow> process_ok bound q"
  "process_ok bound p \<Longrightarrow> replication_end res p = Some q \<Longrightarrow> process_ok bound q"
  by (cases "owner_at p"; clarsimp simp: process_ok_def request_start_def request_end_def replication_end_def
      split: if_split_asm outcome.split_asm)+

lemma process_ok_step: "process_step bound may a p q \<Longrightarrow> process_ok bound p \<Longrightarrow> process_ok bound q"
  by (erule process_step.cases) (auto intro: runServer_ok mainLoop_ok owner_ok request_ok)

lemma reachable_ok: "process_reachable bound may p \<Longrightarrow> process_ok bound p"
  by (induction rule: process_reachable.induct) (auto intro: process_ok_init process_ok_step)

lemma op_has_peer: "process_ok bound p \<Longrightarrow> main_at p = Main_Op k \<Longrightarrow> m_peerImpl p"
  by (cases "server_at p") (auto simp: process_ok_def)

section \<open>The destructor\<close>

lemma work_decreases:
  assumes "process_step bound may a p q" and "process_ok bound p" and "m_dhtCancelled p" and "a \<noteq> By_Client" and "q \<noteq> p"
  shows "work_left q < work_left p"
  using assms(1)
proof cases
  case server
  then show ?thesis using assms(2,5)
    by (cases "server_at p"; clarsimp simp: runServer_step_def work_left_def process_ok_def split: if_split_asm)
next
  case (main res)
  then show ?thesis using assms(3) op_has_peer [OF assms(2)]
    by (cases "main_at p"; clarsimp simp: mainLoop_step_def work_left_def getPeerImpl_def split: if_split_asm outcome.split)
next
  case owner
  then show ?thesis
    by (cases "owner_at p"; clarsimp simp: owner_step_def work_left_def split: if_split_asm)
next
  case (handler res b)
  then show ?thesis
    by (cases "requests p"; clarsimp simp: request_end_def work_left_def split: if_split_asm outcome.split_asm)
next
  case (task res)
  then show ?thesis by (clarsimp simp: replication_end_def work_left_def split: if_split_asm)
qed (use assms(4) in auto)

text \<open>What hangs does so for good, and the destructor does not end.\<close>

lemma hung_stays:
  assumes "process_step bound may a p q" and "hung bound p" and "process_ok bound p"
  shows "hung bound q"
  using assms(1)
proof cases
  case server
  then show ?thesis using assms(2,3)
    by (cases "server_at p"; clarsimp simp: runServer_step_def hung_def process_ok_def split: if_split_asm)
next
  case (main res)
  then show ?thesis using assms(2) by (cases "main_at p"; clarsimp simp: mainLoop_step_def hung_def split: if_split_asm)
next
  case owner
  then show ?thesis using assms(2) by (cases "owner_at p"; clarsimp simp: owner_step_def hung_def split: if_split_asm)
next
  case (client same)
  then show ?thesis using assms(2) by (clarsimp simp: request_start_def hung_def split: if_split_asm)
next
  case (handler res b)
  then show ?thesis using assms(2) by (clarsimp simp: request_end_def hung_def split: if_split_asm outcome.split_asm)
next
  case (task res)
  then show ?thesis using assms(2) by (clarsimp simp: replication_end_def hung_def split: if_split_asm)
qed

lemma hung_not_destroyed: "process_ok bound p \<Longrightarrow> hung bound p \<Longrightarrow> owner_at p \<noteq> Owner_Destroyed"
  by (rule notI; cases "main_at p"; clarsimp simp: process_ok_def hung_def)

lemma hung_for_ever:
  assumes "process_steps bound may p q" and "process_ok bound p" and "hung bound p"
  shows "owner_at q \<noteq> Owner_Destroyed"
proof -
  from assms(1) have "process_ok bound q \<and> hung bound q"
  proof induction
    case (step q r)
    then show ?case using process_ok_step hung_stays by blast
  qed (use assms(2,3) in simp)
  then show ?thesis using hung_not_destroyed by blast
qed

text \<open>Otherwise there is a step to take, by which nothing comes to hang.\<close>

lemma server_goes_on:
  assumes "process_ok bound p" and "server_at p \<noteq> Server_Done" and "main_at p \<in> {Main_None, Main_Done} \<or> \<not> bound \<and> main_at p = Main_Failed"
  shows "\<exists>q. runServer_step bound p = Some q \<and> server_at q \<noteq> server_at p \<and> (hung bound q \<longrightarrow> hung bound p)"
  using assms by (cases "server_at p"; clarsimp simp: runServer_step_def process_ok_def hung_def)

lemma main_goes_on:
  assumes "process_ok bound p" and "main_at p \<notin> {Main_None, Main_Done, Main_Failed, Main_Blocked}"
  shows "\<exists>q. mainLoop_step Returns p = Some q \<and> main_at q \<noteq> main_at p \<and> (hung bound q \<longrightarrow> hung bound p)"
  using assms(2) op_has_peer [OF assms(1)] by (cases "main_at p"; clarsimp simp: mainLoop_step_def hung_def getPeerImpl_def)

lemma cancelled_stays: "process_step bound may a p q \<Longrightarrow> m_dhtCancelled p \<Longrightarrow> m_dhtCancelled q"
  by (erule process_step.cases)
    (auto simp: process_defs split: if_split_asm server_pc.split_asm main_pc.split_asm owner_pc.split_asm outcome.split_asm)

lemma destructor_goes_on:
  assumes "process_reachable bound may p" and "owner_at p \<noteq> Owner_Destroyed" and "\<not> hung bound p" and "\<And>k. may k Returns"
  shows "\<exists>a q. process_step bound may a p q \<and> a \<noteq> By_Client \<and> q \<noteq> p \<and> \<not> hung bound q"
proof -
  have ok: "process_ok bound p" using reachable_ok [OF assms(1)] .
  consider (owner) q where "owner_step p = Some q" "owner_at q \<noteq> owner_at p" "\<not> hung bound q"
    | (handler) q where "request_end Returns False p = Some q" "requests q \<noteq> requests p" "\<not> hung bound q"
    | (task) q where "replication_end Returns p = Some q" "m_replicationFuture q \<noteq> m_replicationFuture p" "\<not> hung bound q"
    | (wait) "owner_at p = Owner_Stopped" "server_at p \<noteq> Server_Done"
    using assms(2,3) by (cases "owner_at p"; cases "m_replicationFuture p"; cases "requests p"; cases "server_at p = Server_Done")
      (auto simp: owner_step_def request_end_def replication_end_def hung_def)
  then show ?thesis
  proof cases
    case wait
    show ?thesis
    proof (cases "main_at p \<in> {Main_None, Main_Done} \<or> \<not> bound \<and> main_at p = Main_Failed")
      case True
      then show ?thesis using server_goes_on [OF ok wait(2) True] process_step.server assms(3) by fastforce
    next
      case False
      then have "main_at p \<notin> {Main_None, Main_Done, Main_Failed, Main_Blocked}" using assms(3) by (auto simp: hung_def)
      from main_goes_on [OF ok this] show ?thesis using process_step.main [of p may Returns] assms(3,4) by fastforce
    qed
  qed (use process_step.owner process_step.handler [of may Returns] process_step.task [of may Returns] assms(4) in \<open>metis actor.distinct\<close>)+
qed

section \<open>Some reachable states\<close>

lemma reachable_by:
  "process_reachable bound may p \<Longrightarrow> runServer_step bound p = Some q \<Longrightarrow> process_reachable bound may q"
  "process_reachable bound may p \<Longrightarrow> mainLoop_step Returns p = Some q \<Longrightarrow> (\<And>k. main_at p = Main_Op k \<Longrightarrow> may k Returns) \<Longrightarrow>
     process_reachable bound may q"
  "process_reachable bound may p \<Longrightarrow> owner_step p = Some q \<Longrightarrow> process_reachable bound may q"
  "process_reachable bound may p \<Longrightarrow> request_start False p = Some q \<Longrightarrow> process_reachable bound may q"
  by (blast intro: process_reachable.step process_step.intros)+

lemma server_started: "process_reachable bound may started"
proof -
  have "process_reachable bound may (Dht_init\<lparr>m_peerImpl := True, server_at := Server_Ready\<rparr>)"
    by (rule reachable_by(1) [OF process_reachable.init]) (simp add: runServer_step_def Dht_init_def)
  then show ?thesis
    by (rule reachable_by(1)) (simp add: runServer_step_def started_def)
qed

lemma request_before_server:
  "process_reachable bound may (Dht_init\<lparr>owner_at := Owner_Alive, requests := 1\<rparr>)"
proof -
  have "process_reachable bound may (Dht_init\<lparr>owner_at := Owner_Alive\<rparr>)"
    by (rule reachable_by(3) [OF process_reachable.init]) (simp add: owner_step_def Dht_init_def)
  then show ?thesis
    by (rule reachable_by(4)) (simp add: request_start_def Dht_init_def)
qed

text \<open>The server is gone while the destructor has not yet stopped the client interface.\<close>

lemma request_after_server:
  "process_reachable True may (Dht_init\<lparr>m_dhtCancelled := True, m_mainLoopExited := True, server_at := Server_Done,
     main_at := Main_Done, owner_at := Owner_Cancelled, requests := 1\<rparr>)"
proof -
  let ?r = "process_reachable True may"
  have "?r (started\<lparr>owner_at := Owner_Alive\<rparr>)"
    by (rule reachable_by(3) [OF server_started]) (simp add: owner_step_def started_def Dht_init_def)
  then have "?r (started\<lparr>owner_at := Owner_Cancelled, m_dhtCancelled := True\<rparr>)"
    by (rule reachable_by(3)) (simp add: owner_step_def)
  then have "?r (started\<lparr>owner_at := Owner_Cancelled, m_dhtCancelled := True, requests := 1\<rparr>)"
    by (rule reachable_by(4)) (simp add: request_start_def started_def Dht_init_def)
  then have "?r (started\<lparr>owner_at := Owner_Cancelled, m_dhtCancelled := True, requests := 1, main_at := Main_Check 0\<rparr>)"
    by (rule reachable_by(2)) (simp_all add: mainLoop_step_def started_def)
  then have "?r (started\<lparr>owner_at := Owner_Cancelled, m_dhtCancelled := True, requests := 1, main_at := Main_Exit\<rparr>)"
    by (rule reachable_by(2)) (simp_all add: mainLoop_step_def)
  then have "?r (started\<lparr>owner_at := Owner_Cancelled, m_dhtCancelled := True, requests := 1, main_at := Main_Done, m_mainLoopExited := True\<rparr>)"
    by (rule reachable_by(2)) (simp_all add: mainLoop_step_def)
  then have "?r (started\<lparr>owner_at := Owner_Cancelled, m_dhtCancelled := True, requests := 1, main_at := Main_Done, m_mainLoopExited := True,
      server_at := Server_Reset\<rparr>)"
    by (rule reachable_by(1)) (simp add: runServer_step_def started_def)
  then have "?r (started\<lparr>owner_at := Owner_Cancelled, m_dhtCancelled := True, requests := 1, main_at := Main_Done, m_mainLoopExited := True,
      server_at := Server_Join, m_peerImpl := False\<rparr>)"
    by (rule reachable_by(1)) (simp add: runServer_step_def)
  then show ?thesis
    by (rule reachable_by(1)) (simp add: runServer_step_def started_def Dht_init_def)
qed

section \<open>Properties\<close>

text \<open>
  The maintenance of a peer always finds the peer's implementation: whenever the main loop is in an
  operation, in any order of the threads' steps, \<open>getPeerImpl\<close> returns.
\<close>

theorem main_loop_has_peer:
  assumes "process_reachable bound may p" and "main_at p = Main_Op k"
  shows "getPeerImpl p = Inr ()"
  using op_has_peer [OF reachable_ok [OF assms(1)] assms(2)] by (simp add: getPeerImpl_def)

theorem main_loop_has_peer_witness:
  "getPeerImpl (Dht_init\<lparr>m_peerImpl := True, server_at := Server_Poll, main_at := Main_Op 0\<rparr>) = Inr ()"
proof -
  have "process_reachable True (\<lambda>_ _. True) (Dht_init\<lparr>m_peerImpl := True, server_at := Server_Poll, main_at := Main_Sleep\<rparr>)"
    using server_started [of True "\<lambda>_ _. True"] by (simp add: started_def)
  then have "process_reachable True (\<lambda>_ _. True) (Dht_init\<lparr>m_peerImpl := True, server_at := Server_Poll, main_at := Main_Check 0\<rparr>)"
    by (rule reachable_by(2)) (simp_all add: mainLoop_step_def)
  then have "process_reachable True (\<lambda>_ _. True) (Dht_init\<lparr>m_peerImpl := True, server_at := Server_Poll, main_at := Main_Op 0\<rparr>)"
    by (rule reachable_by(2)) (simp_all add: mainLoop_step_def Dht_init_def)
  from main_loop_has_peer [OF this] show ?thesis by simp
qed

text \<open>
  C21: When destroying a peer returns. Operations of the main loop, request handlers and replication tasks may each
  return, throw or not return. Once the destructor has set its flag, every step but the arrival of a request leaves
  less to do; and the destructor can end exactly if nothing hangs that it waits for: no request handler, no replication
  task and no operation of the main loop that does not return; no service thread blocked by a request on a connection
  on which a handler has thrown; and no main loop that has ended with an exception, unless the port of
  the peer could not be bound.
\<close>

theorem destructor_returns:
  assumes "process_reachable bound may p" and "m_dhtCancelled p" and "\<And>k. may k Returns"
  shows "(\<forall>a q. process_step bound may a p q \<and> a \<noteq> By_Client \<and> q \<noteq> p \<longrightarrow> work_left q < work_left p) \<and>
    ((\<exists>q. process_steps bound may p q \<and> owner_at q = Owner_Destroyed) \<longleftrightarrow> \<not> hung bound p)"
proof (intro conjI allI impI iffI)
  show "\<exists>q. process_steps bound may p q \<and> owner_at q = Owner_Destroyed" if "\<not> hung bound p"
    using assms(1,2) that
  proof (induction "work_left p" arbitrary: p rule: less_induct)
    case less
    show ?case
    proof (cases "owner_at p = Owner_Destroyed")
      case False
      then obtain a q where q: "process_step bound may a p q" "a \<noteq> By_Client" "q \<noteq> p" "\<not> hung bound q"
        using destructor_goes_on [OF less.prems(1) _ less.prems(3) assms(3)] by blast
      have ok: "process_ok bound p" "process_reachable bound may q"
        using reachable_ok [OF less.prems(1)] process_reachable.step [OF less.prems(1) q(1)] by auto
      have "m_dhtCancelled q" using cancelled_stays [OF q(1) less.prems(2)] .
      from less.hyps [OF work_decreases [OF q(1) ok(1) less.prems(2) q(2,3)] ok(2) this q(4)]
      obtain r where r: "process_steps bound may q r" "owner_at r = Owner_Destroyed" by blast
      have "process_steps bound may p r"
        by (rule converse_rtranclp_into_rtranclp [OF _ r(1)]) (use q(1) in blast)
      with r(2) show ?thesis by blast
    qed auto
  qed
qed (use work_decreases [OF _ reachable_ok [OF assms(1)] assms(2)] hung_for_ever [OF _ reachable_ok [OF assms(1)]] in blast)+

theorem destructor_returns_witness:
  "(\<exists>q. process_steps True (\<lambda>k res. True) (Dht_init\<lparr>owner_at := Owner_Cancelled, m_dhtCancelled := True\<rparr>) q \<and>
      owner_at q = Owner_Destroyed) \<and>
   \<not> (\<exists>q. process_steps True (\<lambda>k res. True) (started\<lparr>owner_at := Owner_Cancelled, m_dhtCancelled := True, main_at := Main_Failed\<rparr>) q \<and>
      owner_at q = Owner_Destroyed)"
proof -
  let ?r = "process_reachable True (\<lambda>k res. True)"
  have "?r (Dht_init\<lparr>owner_at := Owner_Alive\<rparr>)"
    by (rule reachable_by(3) [OF process_reachable.init]) (simp add: owner_step_def Dht_init_def)
  then have a: "?r (Dht_init\<lparr>owner_at := Owner_Cancelled, m_dhtCancelled := True\<rparr>)"
    by (rule reachable_by(3)) (simp add: owner_step_def)
  have "?r (started\<lparr>main_at := Main_Check 0\<rparr>)"
    by (rule reachable_by(2) [OF server_started]) (simp_all add: mainLoop_step_def started_def)
  then have "?r (started\<lparr>main_at := Main_Op 0\<rparr>)"
    by (rule reachable_by(2)) (simp_all add: mainLoop_step_def started_def Dht_init_def)
  then have "?r (started\<lparr>main_at := Main_Failed\<rparr>)"
    by (rule process_reachable.step) (rule process_step.main [where res = Throws], simp_all add: mainLoop_step_def)
  then have "?r (started\<lparr>main_at := Main_Failed, owner_at := Owner_Alive\<rparr>)"
    by (rule reachable_by(3)) (simp add: owner_step_def started_def Dht_init_def)
  then have b: "?r (started\<lparr>owner_at := Owner_Cancelled, m_dhtCancelled := True, main_at := Main_Failed\<rparr>)"
    by (rule reachable_by(3)) (simp add: owner_step_def started_def)
  show ?thesis
    using destructor_returns [OF a] destructor_returns [OF b] by (simp add: hung_def Dht_init_def started_def)
qed

text \<open>
  Requests can be handled without a peer: after \<open>setApi\<close> and before the server's thread has run, and
  again between the end of the main loop and the end of the client interface, a request handler is under
  way while \<open>getPeerImpl\<close> throws.
\<close>

theorem request_without_peer:
  "(\<exists>p. process_reachable True may p \<and> owner_at p = Owner_Alive \<and> 0 < requests p \<and>
      getPeerImpl p = Inl (Runtime_Error ''bad_optional_access'')) \<and>
   (\<exists>p. process_reachable True may p \<and> owner_at p = Owner_Cancelled \<and> 0 < requests p \<and>
      getPeerImpl p = Inl (Runtime_Error ''bad_optional_access''))"
  by (intro conjI exI conjI; (rule request_before_server request_after_server)?) (simp_all add: getPeerImpl_def Dht_init_def)

text \<open>
  An exception in the main loop hangs the destructor: the flag that ends the server's polling loop is
  only set at the regular exit, so that no order of steps gets past waiting for the server.
\<close>

theorem main_loop_exception_hangs:
  assumes "process_reachable True may p" and "main_at p = Main_Failed" and "process_steps True may p q"
  shows "owner_at q \<noteq> Owner_Destroyed"
  using hung_for_ever [OF assms(3) reachable_ok [OF assms(1)]] assms(2) by (simp add: hung_def)

end
