(* ===== verification/Std_Regex.thy ===== *)
theory Std_Regex
  imports Util
begin

text \<open>
  \<open>std::regex\<close> as the configuration and the shell use it: ECMAScript expressions over characters,
  matched by backtracking. \<open>ways\<close> lists the ways in which an expression matches a prefix of a string,
  in the order in which backtracking tries them (an alternative left to right, a repetition as often as
  possible first), each with the text of the groups it went through. A full match is the first way that
  uses up the string; a search takes the first way at the leftmost position that has one. The lemmas
  relate the matcher to the language of an expression and compute the greedy repetition of a class of
  characters. \<open>parse_number\<close>, with the conversion of a numeral by an input stream, ends the theory.
\<close>

section \<open>Definitions\<close>

subsection \<open>Expressions and their matches\<close>

datatype regex =
    RClass "char \<Rightarrow> bool"
  | REmpty
  | RSeq regex regex
  | RAlt regex regex
  | RStar regex
  | RGroup nat regex

type_synonym captures = "(nat \<times> string) list"

function (sequential) ways :: "regex \<Rightarrow> string \<Rightarrow> (string \<times> string \<times> captures) list" where
  "ways (RClass P) s = (case s of [] \<Rightarrow> [] | c # t \<Rightarrow> if P c then [([c], t, [])] else [])"
| "ways REmpty s = [([], s, [])]"
| "ways (RSeq a b) s =
     concat (map (\<lambda>(u, r, ca). map (\<lambda>(v, t, cb). (u @ v, t, ca @ cb)) (ways b r)) (ways a s))"
| "ways (RAlt a b) s = ways a s @ ways b s"
| "ways (RStar a) s =
     concat (map (\<lambda>(u, r, ca). if length r < length s
         then map (\<lambda>(v, t, cb). (u @ v, t, ca @ cb)) (ways (RStar a) r) else []) (ways a s)) @ [([], s, [])]"
| "ways (RGroup n a) s = map (\<lambda>(u, t, ca). (u, t, (n, u) # ca)) (ways a s)"
  by pat_completeness auto
termination
  by (relation "measures [\<lambda>(r, s). size r, \<lambda>(r, s). length s]") auto

declare ways.simps [simp del]

text \<open>\<open>r?\<close>, \<open>r+\<close>, \<open>r{1,n+1}\<close>, \<open>r{n}\<close> and a literal.\<close>

definition ropt :: "regex \<Rightarrow> regex" where
  "ropt r = RAlt r REmpty"

definition rplus :: "regex \<Rightarrow> regex" where
  "rplus r = RSeq r (RStar r)"

fun rupto :: "nat \<Rightarrow> regex \<Rightarrow> regex" where
  "rupto 0 r = r"
| "rupto (Suc n) r = RSeq r (ropt (rupto n r))"

fun rtimes :: "nat \<Rightarrow> regex \<Rightarrow> regex" where
  "rtimes 0 r = REmpty"
| "rtimes (Suc n) r = RSeq r (rtimes n r)"

definition rchr :: "char \<Rightarrow> regex" where
  "rchr c = RClass (\<lambda>x. x = c)"

definition is_digit :: "char \<Rightarrow> bool" where
  "is_digit c = (let n = of_char c :: nat in 48 \<le> n \<and> n \<le> 57)"

definition is_xdigit :: "char \<Rightarrow> bool" where
  "is_xdigit c = (let n = of_char c :: nat in 48 \<le> n \<and> n \<le> 57 \<or> 97 \<le> n \<and> n \<le> 102 \<or> 65 \<le> n \<and> n \<le> 70)"

fun has_group :: "regex \<Rightarrow> bool" where
  "has_group (RSeq a b) = (has_group a \<or> has_group b)"
| "has_group (RAlt a b) = (has_group a \<or> has_group b)"
| "has_group (RStar a) = has_group a"
| "has_group (RGroup n a) = True"
| "has_group r = False"

text \<open>The strings an expression denotes.\<close>

inductive lang :: "regex \<Rightarrow> string \<Rightarrow> bool" where
  "P c \<Longrightarrow> lang (RClass P) [c]"
| "lang REmpty []"
| "lang a u \<Longrightarrow> lang b v \<Longrightarrow> lang (RSeq a b) (u @ v)"
| "lang a u \<Longrightarrow> lang (RAlt a b) u"
| "lang b u \<Longrightarrow> lang (RAlt a b) u"
| "lang (RStar a) []"
| "lang a u \<Longrightarrow> u \<noteq> [] \<Longrightarrow> lang (RStar a) v \<Longrightarrow> lang (RStar a) (u @ v)"
| "lang a u \<Longrightarrow> lang (RGroup n a) u"

subsection \<open>Matching and searching\<close>

definition regex_match :: "regex \<Rightarrow> string \<Rightarrow> captures option" where
  "regex_match r s = map_option (snd \<circ> snd) (find (\<lambda>(u, t, ca). t = []) (ways r s))"

text \<open>The text before the leftmost match, the match, and the text after it.\<close>

fun regex_find :: "regex \<Rightarrow> string \<Rightarrow> (string \<times> string \<times> string) option" where
  "regex_find r s =
     (case ways r s of
        (u, t, ca) # _ \<Rightarrow> Some ([], u, t)
      | [] \<Rightarrow> (case s of [] \<Rightarrow> None | c # cs \<Rightarrow> map_option (\<lambda>(p, u, t). (c # p, u, t)) (regex_find r cs)))"

declare regex_find.simps [simp del]

text \<open>
  The successive matches of an iterator, and the string with each match removed. The expressions of
  the sources match no empty string; an empty match ends the search here.
\<close>

function regex_all :: "regex \<Rightarrow> string \<Rightarrow> string list" where
  "regex_all r s =
     (case regex_find r s of
        None \<Rightarrow> []
      | Some (p, u, t) \<Rightarrow> if length t < length s then u # regex_all r t else [])"
  by pat_completeness auto
termination
  by (relation "measure (\<lambda>(r, s). length s)") auto

function regex_remove :: "regex \<Rightarrow> string \<Rightarrow> string" where
  "regex_remove r s =
     (case regex_find r s of
        None \<Rightarrow> s
      | Some (p, u, t) \<Rightarrow> if length t < length s then p @ regex_remove r t else s)"
  by pat_completeness auto
termination
  by (relation "measure (\<lambda>(r, s). length s)") auto

declare regex_all.simps [simp del] regex_remove.simps [simp del]

subsection \<open>Numerals\<close>

text \<open>The text of a group, empty when the group took no part in the match.\<close>

definition capture :: "captures \<Rightarrow> nat \<Rightarrow> string" where
  "capture ca n = (case map_of (rev ca) n of Some u \<Rightarrow> u | None \<Rightarrow> [])"

text \<open>\<open>std::stoul\<close> of a string of digits; \<open>unsigned long\<close> has 64 bits.\<close>

definition stoul :: "string \<Rightarrow> u64 result" where
  "stoul ds = (if 2 ^ 64 \<le> dec_val 0 ds then Inl (Out_Of_Range ''stoul'') else Inr (of_nat (dec_val 0 ds)))"

text \<open>
  \<open>util::from_string\<close> at an unsigned type: the stream reads a sign and digits and stops at the first
  other character. Without digits it stores 0, a magnitude above the largest value is stored as that
  value, and a negative number is negated in the type. The state of the stream is not asked for.
\<close>

definition from_string :: "string \<Rightarrow> 'a::len word" where
  "from_string s =
     (let neg = (take 1 s = ''-'');
          ds = takeWhile is_digit (if take 1 s \<in> {''-'', ''+''} then drop 1 s else s);
          n = dec_val 0 ds
      in if ds = [] then 0
         else if 2 ^ LENGTH('a) \<le> n then - 1
         else if neg then - of_nat n else of_nat n)"

definition number_re :: regex where
  "number_re =
     RGroup 1 (RSeq (ropt (RAlt (rchr (CHR ''+'')) (rchr (CHR ''-''))))
                    (RAlt (RSeq (rchr (CHR ''.'')) (rplus (RClass is_digit)))
                          (RSeq (rplus (RClass is_digit)) (RSeq (ropt (rchr (CHR ''.''))) (RStar (RClass is_digit))))))"

definition parse_number :: "string \<Rightarrow> 'a::len word option" where
  "parse_number s =
     (let matched = (case regex_match number_re s of Some ca \<Rightarrow> capture ca 1 | None \<Rightarrow> [])
      in if matched \<noteq> [] then Some (from_string matched) else None)"

section \<open>The matcher and the language\<close>

lemmas ways_simps = ways.simps(1-4,6)

lemma ways_star:
  "(w, t, ca) \<in> set (ways (RStar a) s) \<longleftrightarrow> w = [] \<and> t = s \<and> ca = [] \<or>
     (\<exists>u r cu v cv. (u, r, cu) \<in> set (ways a s) \<and> length r < length s \<and>
        (v, t, cv) \<in> set (ways (RStar a) r) \<and> w = u @ v \<and> ca = cu @ cv)"
proof -
  let ?more = "\<lambda>(u, r, cu). if length r < length s
    then map (\<lambda>(v, t, cv). (u @ v, t, cu @ cv)) (ways (RStar a) r) else []"
  have "(w, t, ca) \<in> set (?more x) \<longleftrightarrow> (\<exists>u r cu v cv. x = (u, r, cu) \<and> length r < length s \<and>
      (v, t, cv) \<in> set (ways (RStar a) r) \<and> w = u @ v \<and> ca = cu @ cv)" for x
    by (cases x) force
  then have "(\<exists>x \<in> set (ways a s). (w, t, ca) \<in> set (?more x)) \<longleftrightarrow>
      (\<exists>u r cu v cv. (u, r, cu) \<in> set (ways a s) \<and> length r < length s \<and>
        (v, t, cv) \<in> set (ways (RStar a) r) \<and> w = u @ v \<and> ca = cu @ cv)"
    by (simp only:) blast
  then show ?thesis unfolding ways.simps(5) [of a s] by auto
qed

lemma ways_split: "(u, t, ca) \<in> set (ways r s) \<Longrightarrow> u @ t = s"
proof (induction r s arbitrary: u t ca rule: ways.induct)
  case (5 a s)
  then show ?case unfolding ways_star [of u t ca a s] by fastforce
qed (fastforce simp: ways_simps split: list.splits if_splits)+

lemma ways_lang: "(u, t, ca) \<in> set (ways r s) \<Longrightarrow> lang r u"
proof (induction r s arbitrary: u t ca rule: ways.induct)
  case (5 a s)
  from 5(3) consider "u = []" | x r cx v cv where "(x, r, cx) \<in> set (ways a s)" "length r < length s"
      "(v, t, cv) \<in> set (ways (RStar a) r)" "u = x @ v"
    unfolding ways_star [of u t ca a s] by blast
  then show ?case
  proof cases
    case 2
    have "x \<noteq> []" using ways_split [OF 2(1)] 2(2) by auto
    with 5 2 show ?thesis by (auto intro: lang.intros)
  qed (auto intro: lang.intros)
qed (fastforce simp: ways_simps intro: lang.intros split: list.splits if_splits)+

lemma lang_ways: "lang r u \<Longrightarrow> \<exists>ca. (u, t, ca) \<in> set (ways r (u @ t))"
proof (induction arbitrary: t rule: lang.induct)
  case (3 a u b v)
  obtain ca where "(u, v @ t, ca) \<in> set (ways a (u @ v @ t))" using 3(3) by blast
  moreover obtain cb where "(v, t, cb) \<in> set (ways b (v @ t))" using 3(4) by blast
  ultimately show ?case by (force simp: ways_simps)
next
  case (6 a)
  show ?case unfolding ways_star [of _ _ _ a "[] @ t"] by auto
next
  case (7 a u v)
  obtain ca where "(u, v @ t, ca) \<in> set (ways a (u @ v @ t))" using 7(4) by blast
  moreover obtain cb where "(v, t, cb) \<in> set (ways (RStar a) (v @ t))" using 7(5) by blast
  moreover have "length (v @ t) < length (u @ v @ t)" using 7(2) by simp
  ultimately show ?case unfolding append_assoc ways_star [of _ _ _ a "u @ v @ t"] by blast
next
  case (8 a u n)
  obtain ca where "(u, t, ca) \<in> set (ways a (u @ t))" using 8 by blast
  then have "(u, t, (n, u) # ca) \<in> set (ways (RGroup n a) (u @ t))" by (force simp: ways_simps)
  then show ?case by blast
qed (fastforce simp: ways_simps)+

lemma regex_match_Some: "regex_match r s = Some ca \<Longrightarrow> (s, [], ca) \<in> set (ways r s)"
  unfolding regex_match_def using ways_split by (fastforce simp: find_Some_iff in_set_conv_nth)

lemma regex_match_iff: "regex_match r s \<noteq> None \<longleftrightarrow> lang r s"
proof
  assume "regex_match r s \<noteq> None"
  then show "lang r s" using regex_match_Some ways_lang by blast
next
  assume "lang r s"
  then obtain ca where "(s, [], ca) \<in> set (ways r s)" using lang_ways [of r s "[]"] by auto
  then show "regex_match r s \<noteq> None" by (auto simp: regex_match_def find_None_iff)
qed

subsection \<open>Classes of characters\<close>

lemma ways_class_star:
  "\<exists>ws. ways (RStar (RClass P)) s = (takeWhile P s, dropWhile P s, []) # ws"
proof (induction s)
  case (Cons c s)
  then show ?case by (cases "P c") (auto simp: ways.simps(5) [of _ "c # s"] ways_simps)
qed (simp add: ways.simps(5) ways_simps)

lemma ways_class_plus:
  "P c \<Longrightarrow> \<exists>ws. ways (rplus (RClass P)) (c # s) = (c # takeWhile P s, dropWhile P s, []) # ws"
  using ways_class_star [of P s] by (auto simp: rplus_def ways_simps)

lemma ways_class_plus_none: "(\<And>c t. s = c # t \<Longrightarrow> \<not> P c) \<Longrightarrow> ways (rplus (RClass P)) s = []"
  by (cases s) (auto simp: rplus_def ways_simps)

lemma lang_class_star: "lang (RStar (RClass P)) u \<longleftrightarrow> list_all P u"
proof
  show "lang (RStar (RClass P)) u \<Longrightarrow> list_all P u"
    by (induction "RStar (RClass P)" u rule: lang.induct) (auto elim: lang.cases)
  show "list_all P u \<Longrightarrow> lang (RStar (RClass P)) u"
    by (induction u) (auto intro: lang.intros(6) lang.intros(7) [where u = "[_]", simplified] lang.intros(1))
qed

inductive_simps lang_simps:
  "lang (RClass P) u" "lang REmpty u" "lang (RSeq a b) u" "lang (RAlt a b) u" "lang (RGroup n a) u"

lemma lang_seq_class: "lang (RSeq (RClass P) b) u \<longleftrightarrow> (\<exists>c v. u = c # v \<and> P c \<and> lang b v)"
  unfolding lang_simps by (metis append_Cons append_Nil)

lemma lang_class_plus: "lang (rplus (RClass P)) u \<longleftrightarrow> u \<noteq> [] \<and> list_all P u"
  by (cases u) (auto simp: rplus_def lang_seq_class lang_class_star)

lemma lang_opt: "lang (ropt r) u \<longleftrightarrow> u = [] \<or> lang r u"
  by (auto simp: ropt_def lang_simps)

lemma lang_chr: "lang (rchr c) u \<longleftrightarrow> u = [c]"
  by (auto simp: rchr_def lang_simps)

lemma lang_class_upto: "lang (rupto n (RClass P)) u \<longleftrightarrow> 1 \<le> length u \<and> length u \<le> n + 1 \<and> list_all P u"
proof (induction n arbitrary: u)
  case 0
  then show ?case by (cases u) (auto simp: lang_simps)
next
  case (Suc n)
  show ?case by (cases u) (auto simp: lang_seq_class lang_opt Suc.IH Suc_le_eq)
qed

lemma lang_dot_seq: "lang (RSeq (RSeq (rchr c) a) b) u \<longleftrightarrow> (\<exists>v w. u = c # v @ w \<and> lang a v \<and> lang b w)"
proof
  show "\<exists>v w. u = c # v @ w \<and> lang a v \<and> lang b w" if "lang (RSeq (RSeq (rchr c) a) b) u"
    using that unfolding lang_simps(3) lang_chr by fastforce
  show "lang (RSeq (RSeq (rchr c) a) b) u" if "\<exists>v w. u = c # v @ w \<and> lang a v \<and> lang b w"
  proof -
    from that obtain v w where u: "u = ([c] @ v) @ w" "lang a v" "lang b w" by auto
    show ?thesis unfolding u(1) by (intro lang.intros(3) u(2,3)) (simp add: lang_chr)
  qed
qed

section \<open>Numerals\<close>

lemma ways_no_groups: "(u, t, ca) \<in> set (ways r s) \<Longrightarrow> \<not> has_group r \<Longrightarrow> ca = []"
proof (induction r s arbitrary: u t ca rule: ways.induct)
  case (5 a s)
  then show ?case unfolding ways_star [of u t ca a s] by fastforce
qed (fastforce simp: ways_simps split: list.splits if_splits)+

text \<open>The matches of an expression without groups are the prefixes in its language.\<close>

lemma ways_plain: "\<not> has_group r \<Longrightarrow> (u, t, ca) \<in> set (ways r s) \<longleftrightarrow> ca = [] \<and> lang r u \<and> s = u @ t"
  using ways_no_groups ways_lang ways_split lang_ways by metis

lemma ways_seq_iff:
  "(w, t, ca) \<in> set (ways (RSeq a b) s) \<longleftrightarrow>
     (\<exists>u r cu v cv. (u, r, cu) \<in> set (ways a s) \<and> (v, t, cv) \<in> set (ways b r) \<and> w = u @ v \<and> ca = cu @ cv)"
  unfolding ways_simps by force

lemma ways_group_iff: "(u, t, ca) \<in> set (ways (RGroup n a) s) \<longleftrightarrow> (\<exists>cb. ca = (n, u) # cb \<and> (u, t, cb) \<in> set (ways a s))"
  unfolding ways_simps by force

lemma is_digit_sign [simp]:
  "\<not> is_digit (CHR ''+'')" "\<not> is_digit (CHR ''-'')" "\<not> is_digit (CHR ''.'')" "\<not> is_digit (CHR '':'')"
  by (simp_all add: is_digit_def)

lemma number_no_groups: "(u, t, ca) \<in> set (ways number_re s) \<Longrightarrow> ca = [(1, u)]"
  unfolding number_re_def ways_simps
  by (auto dest!: ways_no_groups simp: ropt_def rchr_def rplus_def)

lemma lang_number: "lang number_re s \<longleftrightarrow>
  (\<exists>sg x. s = sg @ x \<and> (sg = [] \<or> sg = ''+'' \<or> sg = ''-'') \<and>
    ((\<exists>f. x = ''.'' @ f \<and> f \<noteq> [] \<and> list_all is_digit f) \<or>
     (\<exists>d y. x = d @ y \<and> d \<noteq> [] \<and> list_all is_digit d \<and>
       (\<exists>p f. y = p @ f \<and> (p = [] \<or> p = ''.'') \<and> list_all is_digit f))))"
  unfolding number_re_def lang_simps lang_opt lang_chr lang_class_plus lang_class_star by simp

lemma parse_number_eq: "parse_number s = (if lang number_re s then Some (from_string s) else None)"
proof (cases "regex_match number_re s")
  case None
  then show ?thesis using regex_match_iff [of number_re s] by (simp add: parse_number_def)
next
  case (Some ca)
  have l: "lang number_re s" using regex_match_iff [of number_re s] Some by simp
  then have "s \<noteq> []" by (auto simp: lang_number)
  moreover have "ca = [(1, s)]" using number_no_groups [OF regex_match_Some [OF Some]] .
  ultimately show ?thesis using Some l by (simp add: parse_number_def capture_def)
qed

lemma takeWhile_digits:
  "list_all is_digit ds \<Longrightarrow> (\<And>c t. f = c # t \<Longrightarrow> \<not> is_digit c) \<Longrightarrow> takeWhile is_digit (ds @ f) = ds"
  by (cases f) (auto simp: list_all_iff takeWhile_append2)

lemma from_string_digits:
  assumes "ds \<noteq> []" and "list_all is_digit ds" and "\<And>c t. f = c # t \<Longrightarrow> \<not> is_digit c"
  shows "from_string (ds @ f) = (if 2 ^ LENGTH('a) \<le> dec_val 0 ds then - 1 else of_nat (dec_val 0 ds) :: 'a::len word)"
    "from_string (CHR ''+'' # ds @ f) = (if 2 ^ LENGTH('a) \<le> dec_val 0 ds then - 1 else of_nat (dec_val 0 ds) :: 'a::len word)"
    "from_string (CHR ''-'' # ds @ f) = (if 2 ^ LENGTH('a) \<le> dec_val 0 ds then - 1 else - of_nat (dec_val 0 ds) :: 'a::len word)"
proof -
  have "take 1 (ds @ f) \<notin> {''-'', ''+''}" using assms(1,2) by (cases ds) auto
  then show "from_string (ds @ f) = (if 2 ^ LENGTH('a) \<le> dec_val 0 ds then - 1 else of_nat (dec_val 0 ds) :: 'a::len word)"
    using assms(1) takeWhile_digits [OF assms(2,3)] by (simp add: from_string_def Let_def)
qed (use assms(1) takeWhile_digits [OF assms(2,3)] in \<open>simp_all add: from_string_def Let_def\<close>)

lemma from_string_fraction: "from_string (CHR ''.'' # f) = 0"
  by (simp add: from_string_def Let_def)

section \<open>Searching\<close>

lemma regex_find_skip:
  "ways r (c # s) = [] \<Longrightarrow> regex_find r (c # s) = map_option (\<lambda>(p, u, t). (c # p, u, t)) (regex_find r s)"
  by (simp add: regex_find.simps [of r "c # s"])

lemma regex_find_hit: "ways r s = (u, t, ca) # ws \<Longrightarrow> regex_find r s = Some ([], u, t)"
  by (simp add: regex_find.simps)

lemma regex_find_shorter:
  "regex_find r s = Some (p, u, t) \<Longrightarrow> s = p @ u @ t \<and> (\<exists>ca. (u, t, ca) \<in> set (ways r (u @ t)))"
proof (induction s arbitrary: p)
  case Nil
  then obtain w ws where w: "ways r [] = w # ws" "w = (u, t, snd (snd w))" "p = []"
    by (cases "ways r []") (auto simp: regex_find.simps [of r "[]"])
  then have "(u, t, snd (snd w)) \<in> set (ways r [])" by simp
  moreover from this have "u @ t = []" by (rule ways_split)
  ultimately show ?case using w(3) by auto
next
  case (Cons c s)
  show ?case
  proof (cases "ways r (c # s)")
    case Nil
    then show ?thesis using Cons regex_find_skip [OF Nil] by auto
  next
    case (Cons w ws)
    obtain x y ca where w: "w = (x, y, ca)" by (cases w)
    have "(x, y, ca) \<in> set (ways r (c # s))" "x = u" "y = t" "p = []"
      using Cons.prems Cons regex_find_hit [OF Cons [unfolded w]] by (simp_all add: w)
    moreover from this have "x @ y = c # s" using ways_split by blast
    ultimately show ?thesis by auto
  qed
qed

lemma regex_all_skip:
  assumes "ways r (c # s) = []" and "\<not> lang r []"
  shows "regex_all r (c # s) = regex_all r s"
proof (cases "regex_find r s")
  case None
  then show ?thesis by (simp add: regex_all.simps [of r s] regex_all.simps [of r "c # s"] regex_find_skip [OF assms(1)])
next
  case (Some w)
  obtain p u t where w: "w = (p, u, t)" by (cases w)
  have "u \<noteq> []" "s = p @ u @ t"
    using regex_find_shorter [OF Some [unfolded w]] ways_lang assms(2) by blast+
  then have len: "length t < length s" "length t < length (c # s)" by auto
  have "regex_find r (c # s) = Some (c # p, u, t)" using Some w by (simp add: regex_find_skip [OF assms(1)])
  then have "regex_all r (c # s) = u # regex_all r t" using len(2) by (subst regex_all.simps) simp
  moreover have "regex_all r s = u # regex_all r t" using Some w len(1) by (subst regex_all.simps) simp
  ultimately show ?thesis by simp
qed

lemma regex_all_hit: "ways r s = (u, t, ca) # ws \<Longrightarrow> u \<noteq> [] \<Longrightarrow> regex_all r s = u # regex_all r t"
  using ways_split [of u t ca r s] by (subst regex_all.simps) (auto simp: regex_find_hit)

lemma regex_all_Nil: "ways r [] = [] \<Longrightarrow> regex_all r [] = []"
  by (simp add: regex_all.simps regex_find.simps)

text \<open>Where only one prefix can match, it is the first way.\<close>

lemma ways_unique:
  assumes "\<not> has_group r" and "lang r u" and "\<And>v w. lang r v \<Longrightarrow> v @ w = u @ t \<Longrightarrow> v = u"
  shows "\<exists>ws. ways r (u @ t) = (u, t, []) # ws"
proof -
  have "(u, t, []) \<in> set (ways r (u @ t))" using ways_plain [OF assms(1)] assms(2) by blast
  then obtain x ws where w: "ways r (u @ t) = x # ws" by (cases "ways r (u @ t)") auto
  obtain v y ca where x: "x = (v, y, ca)" by (cases x)
  have "(v, y, ca) \<in> set (ways r (u @ t))" by (simp add: w x)
  then have "ca = []" "lang r v" "v @ y = u @ t" using ways_plain [OF assms(1)] by auto
  with assms(3) w x show ?thesis by auto
qed

lemma ways_none: "\<not> has_group r \<Longrightarrow> (\<And>u t. s = u @ t \<Longrightarrow> \<not> lang r u) \<Longrightarrow> ways r s = []"
  using ways_plain [of r] by (cases "ways r s") (auto, metis list.set_intros(1) prod_cases3)

lemma parse_digits:
  assumes "ds \<noteq> []" and "list_all is_digit ds" and "dec_val 0 ds < 2 ^ LENGTH('a)"
  shows "parse_number ds = Some (of_nat (dec_val 0 ds) :: 'a::len word)"
proof -
  have "lang number_re ds" unfolding lang_number using assms(1,2) by (metis append_Nil append_Nil2 list.pred_inject(1))
  then show ?thesis using from_string_digits(1) [OF assms(1,2), of "[]", where 'a = 'a] assms(3) by (simp add: parse_number_eq)
qed

section \<open>Properties\<close>

text \<open>
  What a number typed into the shell is read as, at any unsigned width: digits are their value,
  cut off at the largest value of the type instead of refused; a minus sign negates modulo the width;
  a fraction is dropped; and a text with any other character is no number.
\<close>

theorem parse_number_values:
  assumes "ds \<noteq> []" and "list_all is_digit ds" and "f = [] \<or> (\<exists>g. f = CHR ''.'' # g \<and> list_all is_digit g)"
  shows "parse_number (ds @ f) = Some (of_nat (min (dec_val 0 ds) (2 ^ LENGTH('a) - 1)) :: 'a::len word) \<and>
    parse_number (CHR ''+'' # ds @ f) = Some (of_nat (min (dec_val 0 ds) (2 ^ LENGTH('a) - 1)) :: 'a word) \<and>
    parse_number (CHR ''-'' # ds @ f) =
      Some (if dec_val 0 ds < 2 ^ LENGTH('a) then - of_nat (dec_val 0 ds) else - 1 :: 'a word) \<and>
    parse_number (CHR ''.'' # ds) = Some (0 :: 'a word) \<and>
    (\<forall>s c. c \<in> set s \<and> \<not> is_digit c \<and> c \<notin> set ''+-.'' \<longrightarrow> parse_number s = (None :: 'a word option))"
proof -
  have f: "\<not> is_digit c" if "f = c # t" for c t using assms(3) that by auto
  have frac: "\<exists>p g. f = p @ g \<and> (p = [] \<or> p = ''.'') \<and> list_all is_digit g"
    using assms(3) by (metis append_Cons append_Nil list.pred_inject(1))
  have max: "(of_nat (min n (2 ^ LENGTH('a) - 1)) :: 'a word) = (if 2 ^ LENGTH('a) \<le> n then - 1 else of_nat n)" for n
  proof (cases "2 ^ LENGTH('a) \<le> n")
    case True
    then have "min n (2 ^ LENGTH('a) - 1) = 2 ^ LENGTH('a) - 1" by simp
    with True show ?thesis by simp
  next
    case False
    then have "min n (2 ^ LENGTH('a) - 1) = n" by simp
    with False show ?thesis by simp
  qed
  have "lang number_re (sg @ ds @ f)" if "sg = [] \<or> sg = ''+'' \<or> sg = ''-''" for sg
    unfolding lang_number using that assms(1,2) frac by blast
  from this [of "[]"] this [of "''+''"] this [of "''-''"]
  have l: "lang number_re (ds @ f)" "lang number_re (CHR ''+'' # ds @ f)" "lang number_re (CHR ''-'' # ds @ f)" by simp_all
  have "lang number_re ([] @ ''.'' @ ds)" unfolding lang_number using assms(1,2) by blast
  then have p: "lang number_re (CHR ''.'' # ds)" by simp
  have "set s \<subseteq> {c. is_digit c \<or> c \<in> set ''+-.''}" if "lang number_re s" for s
    using that unfolding lang_number by (auto simp: list_all_iff)
  then show ?thesis
    using l p from_string_digits [OF assms(1,2) f, where 'a = 'a]
    by (auto simp: parse_number_eq max from_string_fraction)
qed

theorem parse_number_values_witness:
  "parse_number ''70000'' = Some (65535 :: u16) \<and> parse_number (''-'' @ ''5'' @ ''.9'') = Some (65531 :: u16)"
  using parse_number_values [of "''70000''" "[]", where 'a = 16] parse_number_values [of "''5''" "''.9''", where 'a = 16]
  by (simp add: is_digit_def)

end
