(* ===== verification/Config.thy ===== *)
theory Config
  imports Std_Regex Node_Information
begin

text \<open>
  \<open>src/src/config\<close> and the start of \<open>src/src/dht-4.cpp\<close>: the settings of the program, from the
  configuration file and the command line. The reader of INI files (inipp) and the parser of the command
  line (cxxopts) are libraries: what they deliver are the records \<open>ini\<close> and \<open>Options\<close>, each field the
  value that was given, or nothing. The lemmas say exactly which addresses \<open>splitIP\<close> accepts and what it
  makes of them.
\<close>

section \<open>Definitions\<close>

subsection \<open>Addresses\<close>

definition ipv4_re :: regex where
  "ipv4_re =
     (let octet = rupto 2 (RClass is_digit)
      in RSeq (RGroup 1 (RSeq octet (rtimes 3 (RSeq (rchr (CHR ''.'')) octet))))
              (RSeq (rchr (CHR '':'')) (RGroup 2 (rplus (RClass is_digit)))))"

definition ipv6_re :: regex where
  "ipv6_re =
     RSeq (rchr (CHR ''[''))
       (RSeq (RGroup 1 (RSeq (RStar (RClass is_xdigit)) (RStar (RSeq (rchr (CHR '':'')) (RStar (RClass is_xdigit))))))
         (RSeq (rchr (CHR '']'')) (RSeq (rchr (CHR '':'')) (RGroup 2 (rplus (RClass is_digit))))))"

text \<open>The result, and the two reference parameters afterwards.\<close>

definition splitIP :: "string \<Rightarrow> string \<Rightarrow> u16 \<Rightarrow> bool \<times> string \<times> u16" where
  "splitIP val address port =
     (if val = [] then (False, address, port)
      else case (case regex_match ipv4_re val of Some ca \<Rightarrow> Some ca | None \<Rightarrow> regex_match ipv6_re val) of
             None \<Rightarrow> (False, address, port)
           | Some ca \<Rightarrow>
               (case stoul (capture ca 2) of
                  Inl e \<Rightarrow> (False, address, port)
                | Inr n \<Rightarrow> (True, capture ca 1, ucast n)))"

subsection \<open>The configuration file\<close>

record Configuration =
  private_key_path :: string
  private_key_password :: "string option"
  certificate_path :: string
  use_tls :: bool
  p2p_address :: string
  p2p_port :: u16
  api_address :: string
  api_port :: u16
  bootstrapNode_address :: string
  bootstrapNode_port :: u16
  node_amount :: u64
  startup_script :: "string option"

record ConfigStatics =
  PoW_Difficulty :: byte
  defaultReplicationLimit :: byte

definition Configuration_default :: Configuration where
  "Configuration_default =
     \<lparr>private_key_path = ''./hostkey.pem'', private_key_password = None, certificate_path = ''./hostcert.crt'',
      use_tls = False, p2p_address = ''127.0.0.1'', p2p_port = 6002, api_address = ''127.0.0.1'', api_port = 7002,
      bootstrapNode_address = ''127.0.0.1'', bootstrapNode_port = 6002, node_amount = 1, startup_script = None\<rparr>"

definition ConfigStatics_default :: ConfigStatics where
  "ConfigStatics_default = \<lparr>PoW_Difficulty = DEFAULT_DIFFICULTY, defaultReplicationLimit = DEFAULT_REPLICATION_LIMIT\<rparr>"

text \<open>The entries of the file, by section and key, read at the type that is asked for.\<close>

record ini =
  get_string :: "string \<Rightarrow> string \<Rightarrow> string option"
  get_bool :: "string \<Rightarrow> string \<Rightarrow> bool option"
  get_u64 :: "string \<Rightarrow> string \<Rightarrow> u64 option"

definition parseConfigFile :: "ini \<Rightarrow> Configuration" where
  "parseConfigFile i =
     (let c = Configuration_default;
          c = (case get_string i ''DEFAULT'' ''hostkey'' of Some s \<Rightarrow> c\<lparr>private_key_path := s\<rparr> | None \<Rightarrow> c);
          c = (case get_string i ''dht'' ''certificate'' of Some s \<Rightarrow> c\<lparr>certificate_path := s\<rparr> | None \<Rightarrow> c);
          c = (case get_bool i ''dht'' ''use_tls'' of Some b \<Rightarrow> c\<lparr>use_tls := b\<rparr> | None \<Rightarrow> c);
          c = (case get_string i ''dht'' ''p2p_address'' of
                 Some s \<Rightarrow> (let (b, a, p) = splitIP s (p2p_address c) (p2p_port c) in c\<lparr>p2p_address := a, p2p_port := p\<rparr>)
               | None \<Rightarrow> c);
          c = (case get_string i ''dht'' ''api_address'' of
                 Some s \<Rightarrow> (let (b, a, p) = splitIP s (api_address c) (api_port c) in c\<lparr>api_address := a, api_port := p\<rparr>)
               | None \<Rightarrow> c);
          c = (case get_string i ''dht'' ''bootstrapNode_address'' of
                 Some s \<Rightarrow> (let (b, a, p) = splitIP s (bootstrapNode_address c) (bootstrapNode_port c)
                            in c\<lparr>bootstrapNode_address := a, bootstrapNode_port := p\<rparr>)
               | None \<Rightarrow> c);
          c = (case get_u64 i ''dht'' ''node_amount'' of Some n \<Rightarrow> c\<lparr>node_amount := n\<rparr> | None \<Rightarrow> c);
          c = (case get_string i ''dht'' ''startup_script'' of Some s \<Rightarrow> c\<lparr>startup_script := Some s\<rparr> | None \<Rightarrow> c)
      in c)"

subsection \<open>The command line\<close>

record Options =
  opt_config :: "string option"
  opt_hostkey :: "string option"
  opt_certificate :: "string option"
  opt_password :: "string option"
  opt_startupScript :: "string option"
  opt_node_amount :: "u64 option"
  opt_POWdifficulty :: "byte option"
  opt_replicationLimit :: "byte option"

text \<open>The settings that \<open>main\<close> starts the shell with, where the usage was not asked for.\<close>

definition main_settings :: "(string \<Rightarrow> ini) \<Rightarrow> Options \<Rightarrow> Configuration \<times> ConfigStatics" where
  "main_settings files opts =
     (let conf = (case opt_config opts of Some path \<Rightarrow> parseConfigFile (files path) | None \<Rightarrow> Configuration_default);
          conf = (case opt_hostkey opts of Some p \<Rightarrow> conf\<lparr>private_key_path := p\<rparr> | None \<Rightarrow> conf);
          conf = (case opt_certificate opts of Some p \<Rightarrow> conf\<lparr>certificate_path := p\<rparr> | None \<Rightarrow> conf);
          conf = (case opt_password opts of Some p \<Rightarrow> conf\<lparr>private_key_password := Some p\<rparr> | None \<Rightarrow> conf);
          conf = conf\<lparr>startup_script :=
            (case startup_script conf of Some s \<Rightarrow> Some s | None \<Rightarrow> opt_startupScript opts)\<rparr>;
          conf = (case opt_node_amount opts of Some n \<Rightarrow> conf\<lparr>node_amount := n\<rparr> | None \<Rightarrow> conf);
          st = ConfigStatics_default;
          st = (case opt_POWdifficulty opts of Some d \<Rightarrow> st\<lparr>PoW_Difficulty := d\<rparr> | None \<Rightarrow> st);
          st = (case opt_replicationLimit opts of Some r \<Rightarrow> st\<lparr>defaultReplicationLimit := r\<rparr> | None \<Rightarrow> st)
      in (conf, st))"

subsection \<open>Vocabulary of the specifications\<close>

text \<open>
  The host and the port in the text of an address: four groups of one to three digits, or hexadecimal
  digits and colons in brackets, before a colon and digits.
\<close>

definition dotted :: "string \<Rightarrow> bool" where
  "dotted x \<longleftrightarrow> (\<exists>a b c d. x = a @ ''.'' @ b @ ''.'' @ c @ ''.'' @ d \<and>
     (\<forall>p \<in> {a, b, c, d}. p \<noteq> [] \<and> length p \<le> 3 \<and> list_all is_digit p))"

definition host_port :: "string \<Rightarrow> string \<Rightarrow> string \<Rightarrow> bool" where
  "host_port val host ds \<longleftrightarrow> ds \<noteq> [] \<and> list_all is_digit ds \<and>
     (val = host @ '':'' @ ds \<and> dotted host \<or>
      val = ''['' @ host @ '']:'' @ ds \<and> list_all (\<lambda>c. is_xdigit c \<or> c = CHR '':'') host)"

section \<open>Addresses\<close>

lemma lang_octet: "lang (rupto 2 (RClass is_digit)) p \<longleftrightarrow> p \<noteq> [] \<and> length p \<le> 3 \<and> list_all is_digit p"
  by (cases p) (auto simp: lang_class_upto)

lemma lang_dotted:
  "lang (RSeq (rupto 2 (RClass is_digit)) (rtimes 3 (RSeq (rchr (CHR ''.'')) (rupto 2 (RClass is_digit))))) x \<longleftrightarrow> dotted x"
proof -
  define octet where "octet p = lang (rupto 2 (RClass is_digit)) p" for p
  have "lang (RSeq (rupto 2 (RClass is_digit)) (rtimes 3 (RSeq (rchr (CHR ''.'')) (rupto 2 (RClass is_digit))))) x \<longleftrightarrow>
      (\<exists>a b c d. x = a @ CHR ''.'' # b @ CHR ''.'' # c @ CHR ''.'' # d @ [] \<and> octet a \<and> octet b \<and> octet c \<and> octet d)"
    unfolding numeral_3_eq_3 rtimes.simps lang_simps(3) [of "rupto 2 (RClass is_digit)"] lang_dot_seq lang_simps(2)
      octet_def [symmetric] by blast
  then show ?thesis unfolding dotted_def octet_def lang_octet by simp
qed

lemma lang_hex_colons:
  "lang (RSeq (RStar (RClass is_xdigit)) (RStar (RSeq (rchr (CHR '':'')) (RStar (RClass is_xdigit))))) x \<longleftrightarrow>
     list_all (\<lambda>c. is_xdigit c \<or> c = CHR '':'') x" (is "?l \<longleftrightarrow> ?r")
proof
  have group: "list_all (\<lambda>c. is_xdigit c \<or> c = CHR '':'') u"
    if "lang (RStar (RSeq (rchr (CHR '':'')) (RStar (RClass is_xdigit)))) u" for u
    using that
    by (induction "RStar (RSeq (rchr (CHR '':'')) (RStar (RClass is_xdigit)))" u rule: lang.induct)
      (auto simp: lang_simps lang_chr lang_class_star list_all_iff)
  show ?r if ?l
    using that group by (fastforce simp: lang_simps(3) lang_class_star list_all_iff)
  show ?l if ?r
    using that
  proof (induction x)
    case Nil
    show ?case using lang.intros(3) [OF lang.intros(6) lang.intros(6)] by simp
  next
    case (Cons c x)
    then obtain u v where x: "x = u @ v" "list_all is_xdigit u"
      "lang (RStar (RSeq (rchr (CHR '':'')) (RStar (RClass is_xdigit)))) v"
      by (auto simp: lang_simps(3) lang_class_star)
    show ?case
    proof (cases "c = CHR '':''")
      case True
      have "lang (RSeq (rchr (CHR '':'')) (RStar (RClass is_xdigit))) ([c] @ u)"
        using True x(2) by (intro lang.intros(3)) (simp_all add: lang_chr lang_class_star)
      from lang.intros(7) [OF this _ x(3)]
      have "lang (RStar (RSeq (rchr (CHR '':'')) (RStar (RClass is_xdigit)))) (c # x)" by (simp add: x(1))
      then show ?thesis using lang.intros(3) [OF lang.intros(6)] by fastforce
    next
      case False
      then have "lang (RStar (RClass is_xdigit)) (c # u)" using Cons.prems x(2) by (simp add: lang_class_star)
      from lang.intros(3) [OF this x(3)] show ?thesis by (simp add: x(1))
    qed
  qed
qed

text \<open>The two groups of a match are the host and the port.\<close>

lemma no_groups: "\<not> has_group (rchr c)" "\<not> has_group (rplus (RClass P))"
  "\<not> has_group (RSeq (rupto 2 (RClass is_digit)) (rtimes 3 (RSeq (rchr (CHR ''.'')) (rupto 2 (RClass is_digit)))))"
  "\<not> has_group (RSeq (RStar (RClass P)) (RStar (RSeq (rchr c) (RStar (RClass P)))))"
  by (simp_all add: rchr_def rplus_def ropt_def numeral_eq_Suc)

lemma ipv4_match:
  "(val, [], ca) \<in> set (ways ipv4_re val) \<longleftrightarrow>
     (\<exists>x ds. ca = [(1, x), (2, ds)] \<and> val = x @ '':'' @ ds \<and> dotted x \<and> ds \<noteq> [] \<and> list_all is_digit ds)"
  unfolding ipv4_re_def Let_def ways_seq_iff [of _ _ _ "RGroup 1 _"] ways_seq_iff [of _ _ _ "rchr _"] ways_group_iff
    ways_plain [OF no_groups(1)] ways_plain [OF no_groups(2)] ways_plain [OF no_groups(3)] lang_dotted lang_chr lang_class_plus
  by auto

lemma ipv6_match:
  "(val, [], ca) \<in> set (ways ipv6_re val) \<longleftrightarrow>
     (\<exists>x ds. ca = [(1, x), (2, ds)] \<and> val = ''['' @ x @ '']:'' @ ds \<and>
        list_all (\<lambda>c. is_xdigit c \<or> c = CHR '':'') x \<and> ds \<noteq> [] \<and> list_all is_digit ds)"
  unfolding ipv6_re_def ways_seq_iff [of _ _ _ "RGroup 1 _"] ways_seq_iff [of _ _ _ "rchr _"] ways_group_iff
    ways_plain [OF no_groups(1)] ways_plain [OF no_groups(2)] ways_plain [OF no_groups(4)] lang_hex_colons lang_chr lang_class_plus
  by auto

section \<open>What splitIP accepts\<close>

lemma colon_not_digits: "list_all is_digit ds \<Longrightarrow> CHR '':'' \<notin> set ds"
  by (auto simp: list_all_iff)

lemma dotted_first: "dotted x \<Longrightarrow> \<exists>c y. x = c # y \<and> is_digit c"
  unfolding dotted_def by (fastforce simp: neq_Nil_conv)

lemma host_port_unique:
  assumes "host_port v x ds" and "host_port v x' ds'"
  shows "x' = x \<and> ds' = ds"
proof -
  have form: "\<exists>y. v = y @ CHR '':'' # ds \<and> (y = x \<and> dotted x \<or> y = ''['' @ x @ '']'')"
    if "host_port v x ds" for x ds
    using that unfolding host_port_def by (elim conjE disjE) (rule exI [of _ x] exI [of _ "''['' @ x @ '']''"], simp)+
  obtain y y' where y: "v = y @ CHR '':'' # ds" "y = x \<and> dotted x \<or> y = ''['' @ x @ '']''"
    and y': "v = y' @ CHR '':'' # ds'" "y' = x' \<and> dotted x' \<or> y' = ''['' @ x' @ '']''"
    using form [OF assms(1)] form [OF assms(2)] by blast
  have "y' = y \<and> ds' = ds"
    using split_last_separator [of y' "CHR '':''" ds' y ds] colon_not_digits assms y(1) y'(1)
    by (auto simp: host_port_def)
  then show ?thesis using y(2) y'(2) dotted_first [of x] dotted_first [of x'] by (auto simp: is_digit_def)
qed

lemma split_match:
  "(case regex_match ipv4_re v of Some ca \<Rightarrow> Some ca | None \<Rightarrow> regex_match ipv6_re v) = Some ca \<Longrightarrow>
     \<exists>x ds. host_port v x ds \<and> capture ca 1 = x \<and> capture ca 2 = ds"
  by (auto split: option.splits dest!: regex_match_Some simp: ipv4_match ipv6_match host_port_def capture_def)

lemma split_no_match:
  "(case regex_match ipv4_re v of Some ca \<Rightarrow> Some ca | None \<Rightarrow> regex_match ipv6_re v) = None \<Longrightarrow> \<not> host_port v x ds"
proof -
  assume n: "(case regex_match ipv4_re v of Some ca \<Rightarrow> Some ca | None \<Rightarrow> regex_match ipv6_re v) = None"
  have "regex_match r v \<noteq> None" if "(v, [], ca) \<in> set (ways r v)" for r ca
    using ways_lang [OF that] regex_match_iff by blast
  from this [of "[(1, x), (2, ds)]" ipv4_re] this [of "[(1, x), (2, ds)]" ipv6_re] n show ?thesis
    unfolding ipv4_match ipv6_match by (auto simp: host_port_def split: option.splits)
qed

section \<open>Properties\<close>

text \<open>
  C29: \<open>splitIP\<close> accepts exactly the texts of a host and a port: four groups of one to three digits, or
  hexadecimal digits and colons in brackets, then a colon and digits. The host is taken as it stands; a
  port above 65535 is cut to 16 bits, and only one that exceeds 64 bits is refused. Whenever it refuses, the address
  and the port keep their old values.
\<close>

theorem splitIP_correct:
  assumes "r = splitIP v a p"
  shows "(\<forall>x ds. host_port v x ds \<and> dec_val 0 ds < 2 ^ 64 \<longrightarrow> r = (True, x, of_nat (dec_val 0 ds mod 2 ^ 16))) \<and>
    ((\<nexists>x ds. host_port v x ds \<and> dec_val 0 ds < 2 ^ 64) \<longrightarrow> r = (False, a, p))"
proof (cases "case regex_match ipv4_re v of Some ca \<Rightarrow> Some ca | None \<Rightarrow> regex_match ipv6_re v")
  case None
  then show ?thesis using split_no_match [OF None] by (simp add: assms splitIP_def)
next
  case (Some ca)
  obtain x ds where h: "host_port v x ds" "capture ca 1 = x" "capture ca 2 = ds" using split_match [OF Some] by blast
  have v: "v \<noteq> []" using h(1) by (auto simp: host_port_def)
  have cut: "(ucast (of_nat n :: u64) :: u16) = of_nat (n mod 2 ^ 16)" if "n < 2 ^ 64" for n
    using that by (simp add: word_unat_eq_iff unsigned_ucast_eq unsigned_of_nat take_bit_eq_mod)
  have iff: "host_port v x' ds' \<longleftrightarrow> x' = x \<and> ds' = ds" for x' ds' using host_port_unique [OF h(1)] h(1) by blast
  show ?thesis
    using Some h(2,3) v cut [of "dec_val 0 ds"]
    by (cases "dec_val 0 ds < 2 ^ 64") (simp_all add: assms splitIP_def stoul_def not_less iff del: One_nat_def)
qed

theorem splitIP_correct_witness:
  "splitIP ''127.0.0.1:71538'' ''old'' 1 = (True, ''127.0.0.1'', 6002)"
proof -
  have "host_port ''127.0.0.1:71538'' ''127.0.0.1'' ''71538''"
    unfolding host_port_def dotted_def
    by (simp add: is_digit_def, rule exI [of _ "''127''"], simp, rule exI [of _ "''0''"], simp,
        rule exI [of _ "''0''"], simp add: is_digit_def)
  with splitIP_correct [OF refl, of "''127.0.0.1:71538''" "''old''" 1] show ?thesis by fastforce
qed

end
