(* ===== verification/Rpc.thy ===== *)
theory Rpc
  imports Process Config
begin

text \<open>
  The transport between peers (\<open>src/src/rpc\<close>): the context of a thread, the server object with its tasks
  and exported capabilities, the client object with its setup, the choice of TLS from the configuration,
  and what becomes of a peer's server when a connection fails. The promises, event loops, files and TLS
  streams of KJ and Cap'n Proto are not part of the sources: the outcomes of the operations the sources
  start (an address parsed, a connection accepted, a handshake done or failed) arrive as events, and how a
  handshake ends is a parameter. A task that fails is passed to \<open>taskFailed\<close>, and what that throws leaves
  \<open>poll\<close>.
\<close>

section \<open>Definitions\<close>

subsection \<open>The context of a thread\<close>

text \<open>
  \<open>threadSecureContext\<close> is the number of references to the context of the thread, if it has one;
  \<open>other_loop\<close>: an event loop that something else has set up on this thread, of which there can be only one.
\<close>

record thread_state =
  threadSecureContext :: "nat option"
  other_loop :: bool

definition getThreadLocal :: "thread_state \<Rightarrow> thread_state result" where
  "getThreadLocal t =
     (case threadSecureContext t of
        Some n \<Rightarrow> Inr (t\<lparr>threadSecureContext := Some (n + 1)\<rparr>)
      | None \<Rightarrow>
          if other_loop t then Inl (Rpc_Exception ''This thread already has an EventLoop.'')
          else Inr (t\<lparr>threadSecureContext := Some 1\<rparr>))"

text \<open>Dropping a reference; the last one destroys the context, which resets the pointer.\<close>

definition releaseContext :: "thread_state \<Rightarrow> thread_state" where
  "releaseContext t =
     (case threadSecureContext t of
        Some n \<Rightarrow> t\<lparr>threadSecureContext := (if n \<le> 1 then None else Some (n - 1))\<rparr>
      | None \<Rightarrow> t)"

subsection \<open>Streams\<close>

record TlsOptions =
  ignoreCertificates :: bool
  defaultKeypair :: "(bytes \<times> bytes) option"

definition TlsOptions_init :: TlsOptions where
  "TlsOptions_init = \<lparr>ignoreCertificates = False, defaultKeypair = None\<rparr>"

text \<open>What a stream factory does with a connection: pass it on, or wrap it.\<close>

datatype stream_factory = Plain | Tls TlsOptions

datatype stream = Raw nat | Wrapped nat

subsection \<open>The server\<close>

text \<open>
  The tasks of the server: the address is being parsed, the next connection awaited, a connection being
  wrapped, a stream served until it is disconnected. An event completes a task, or tells that it failed.
  Listening is part of the first task and may throw there.
\<close>

datatype task = Parsing | Accepting | Wrapping nat | Serving stream

datatype event =
  Address_Parsed "nat result" | Accepted nat | Handshake_Done nat | Disconnected stream | Task_Failed task cpp_error

text \<open>
  The export map has pointers to the names as its keys: \<open>name_heap\<close> has the buffers that are alive, and an
  exported capability owns the buffer of its name.
\<close>

record 'c ExportedCap =
  name_at :: nat
  cap :: 'c

record 'c ServerImpl =
  streamFactory :: stream_factory
  mainInterface :: 'c
  name_heap :: "nat \<rightharpoonup> string"
  next_name :: nat
  exportMap :: "(nat \<times> 'c ExportedCap) list"
  portPromise :: "nat option"
  tasks :: "task list"

definition SecureRpcServer_init :: "'c \<Rightarrow> stream_factory \<Rightarrow> 'c ServerImpl" where
  "SecureRpcServer_init main factory =
     \<lparr>streamFactory = factory, mainInterface = main, name_heap = Map.empty, next_name = 0, exportMap = [],
      portPromise = None, tasks = [Parsing]\<rparr>"

definition acceptLoop :: "'c ServerImpl \<Rightarrow> 'c ServerImpl" where
  "acceptLoop impl = impl\<lparr>tasks := Accepting # tasks impl\<rparr>"

definition taskFailed :: "cpp_error \<Rightarrow> 'c ServerImpl result" where
  "taskFailed e = Inl e"

definition serve :: "stream \<Rightarrow> 'c ServerImpl \<Rightarrow> 'c ServerImpl" where
  "serve str impl = impl\<lparr>tasks := Serving str # tasks impl\<rparr>"

definition accepted :: "nat \<Rightarrow> 'c ServerImpl \<Rightarrow> 'c ServerImpl" where
  "accepted n impl =
     (let impl' = acceptLoop impl
      in case streamFactory impl' of
           Plain \<Rightarrow> serve (Raw n) impl'
         | Tls opts \<Rightarrow> impl'\<lparr>tasks := Wrapping n # tasks impl'\<rparr>)"

text \<open>What a task that is under way goes on with; other events do not happen.\<close>

definition task_removed :: "task \<Rightarrow> 'c ServerImpl \<Rightarrow> 'c ServerImpl" where
  "task_removed t impl = impl\<lparr>tasks := remove1 t (tasks impl)\<rparr>"

definition under_way :: "task \<Rightarrow> 'c ServerImpl \<Rightarrow> ('c ServerImpl \<Rightarrow> 'c ServerImpl result) \<Rightarrow> 'c ServerImpl result" where
  "under_way t impl f = (if t \<in> set (tasks impl) then f (task_removed t impl) else Inr impl)"

fun task_done :: "event \<Rightarrow> 'c ServerImpl \<Rightarrow> 'c ServerImpl result" where
  "task_done (Address_Parsed r) impl =
     under_way Parsing impl (\<lambda>impl'. case r of
         Inl e \<Rightarrow> taskFailed e
       | Inr port \<Rightarrow> Inr (acceptLoop (impl'\<lparr>portPromise := Some port\<rparr>)))"
| "task_done (Accepted n) impl = under_way Accepting impl (\<lambda>impl'. Inr (accepted n impl'))"
| "task_done (Handshake_Done n) impl = under_way (Wrapping n) impl (\<lambda>impl'. Inr (serve (Wrapped n) impl'))"
| "task_done (Disconnected str) impl = under_way (Serving str) impl Inr"
| "task_done (Task_Failed t e) impl = under_way t impl (\<lambda>impl'. taskFailed e)"

fun poll :: "event list \<Rightarrow> 'c ServerImpl \<Rightarrow> 'c ServerImpl result" where
  "poll [] impl = Inr impl"
| "poll (ev # evs) impl = (case task_done ev impl of Inl e \<Rightarrow> Inl e | Inr impl' \<Rightarrow> poll evs impl')"

text \<open>\<open>getPort\<close>: the promise is resolved once the server listens.\<close>

definition getPort_server :: "'c ServerImpl \<Rightarrow> nat option" where
  "getPort_server impl = portPromise impl"

subsection \<open>Exported capabilities\<close>

text \<open>
  A search compares the name with the names the keys point to, and has no meaning when one of them is gone.
\<close>

definition find_export :: "string \<Rightarrow> 'c ServerImpl \<Rightarrow> (nat \<times> 'c ExportedCap) option result" where
  "find_export name impl =
     (if list_all (\<lambda>(k, e). name_heap impl k \<noteq> None) (exportMap impl)
      then Inr (find (\<lambda>(k, e). name_heap impl k = Some name) (exportMap impl))
      else Inl (Undefined_Behaviour ''dangling key''))"

text \<open>
  \<open>exportMap[entry.name] = kj::mv(entry)\<close>: a new name becomes a key that points to the buffer of the entry
  it is stored with. A known name keeps its key, while the assignment frees the buffer of the old entry.
\<close>

definition exportCap :: "string \<Rightarrow> 'c \<Rightarrow> 'c ServerImpl \<Rightarrow> 'c ServerImpl result" where
  "exportCap name c impl =
     (let a = next_name impl;
          entry = \<lparr>name_at = a, cap = c\<rparr>;
          impl' = impl\<lparr>name_heap := (name_heap impl)(a \<mapsto> name), next_name := a + 1\<rparr>
      in case find_export name impl of
           Inl e \<Rightarrow> Inl e
         | Inr None \<Rightarrow> Inr (impl'\<lparr>exportMap := (a, entry) # exportMap impl\<rparr>)
         | Inr (Some (k, old)) \<Rightarrow>
             Inr (impl'\<lparr>name_heap := (name_heap impl')(name_at old := None),
                  exportMap := map (\<lambda>(k', e). (k', if k' = k then entry else e)) (exportMap impl)\<rparr>))"

text \<open>\<open>None\<close> is the empty reference that a client sends for the main interface.\<close>

definition restore :: "string option \<Rightarrow> 'c ServerImpl \<Rightarrow> 'c result" where
  "restore objectId impl =
     (case objectId of
        None \<Rightarrow> Inr (mainInterface impl)
      | Some name \<Rightarrow>
          (case find_export name impl of
             Inl e \<Rightarrow> Inl e
           | Inr None \<Rightarrow> Inl (Rpc_Exception ''Server exports no such capability.'')
           | Inr (Some (k, e)) \<Rightarrow> Inr (cap e)))"

fun export_all :: "(string \<times> 'c) list \<Rightarrow> 'c ServerImpl \<Rightarrow> 'c ServerImpl result" where
  "export_all [] impl = Inr impl"
| "export_all ((name, c) # xs) impl = (case exportCap name c impl of Inl e \<Rightarrow> Inl e | Inr impl' \<Rightarrow> export_all xs impl')"

subsection \<open>The client\<close>

text \<open>
  The setup of a client: the address is being parsed, the connection made, the connection wrapped; done, or
  failed. The context of the connection is there when the setup is done.
\<close>

datatype client_setup = Setup_Parse | Setup_Connect | Setup_Wrap nat | Setup_Done | Setup_Failed cpp_error

datatype client_completion = Parsed | Connected nat | Secured

record ClientImpl =
  client_factory :: stream_factory
  setupPromise :: client_setup
  clientContext :: "stream option"

definition SecureRpcClient_init :: "stream_factory \<Rightarrow> ClientImpl" where
  "SecureRpcClient_init factory = \<lparr>client_factory = factory, setupPromise = Setup_Parse, clientContext = None\<rparr>"

definition setup_stream :: "stream \<Rightarrow> ClientImpl \<Rightarrow> ClientImpl" where
  "setup_stream str impl = impl\<lparr>setupPromise := Setup_Done, clientContext := Some str\<rparr>"

definition client_done :: "client_completion result \<Rightarrow> ClientImpl \<Rightarrow> ClientImpl" where
  "client_done c impl =
     (case (setupPromise impl, c) of
        (Setup_Done, _) \<Rightarrow> impl
      | (Setup_Failed e, _) \<Rightarrow> impl
      | (_, Inl e) \<Rightarrow> impl\<lparr>setupPromise := Setup_Failed e\<rparr>
      | (Setup_Parse, Inr Parsed) \<Rightarrow> impl\<lparr>setupPromise := Setup_Connect\<rparr>
      | (Setup_Connect, Inr (Connected n)) \<Rightarrow>
          (case client_factory impl of
             Plain \<Rightarrow> setup_stream (Raw n) impl
           | Tls opts \<Rightarrow> impl\<lparr>setupPromise := Setup_Wrap n\<rparr>)
      | (Setup_Wrap n, Inr Secured) \<Rightarrow> setup_stream (Wrapped n) impl
      | _ \<Rightarrow> impl)"

definition client_run :: "client_completion result list \<Rightarrow> ClientImpl \<Rightarrow> ClientImpl" where
  "client_run evs impl = fold client_done evs impl"

text \<open>
  \<open>getMain\<close>: the main interface over the stream of the context, or a promise of it that waits for the
  setup. \<open>main_stream\<close> is what such a capability has become: the stream its calls go over, or the exception
  they fail with, or \<open>None\<close> as long as they wait.
\<close>

datatype client_cap = Bootstrap stream | After_Setup

definition getMain :: "ClientImpl \<Rightarrow> client_cap" where
  "getMain impl = (case clientContext impl of Some str \<Rightarrow> Bootstrap str | None \<Rightarrow> After_Setup)"

definition main_stream :: "client_cap \<Rightarrow> ClientImpl \<Rightarrow> stream result option" where
  "main_stream c impl =
     (case c of
        Bootstrap str \<Rightarrow> Some (Inr str)
      | After_Setup \<Rightarrow>
          (case setupPromise impl of
             Setup_Failed e \<Rightarrow> Some (Inl e)
           | Setup_Done \<Rightarrow>
               (case clientContext impl of
                  Some str \<Rightarrow> Some (Inr str)
                | None \<Rightarrow> Some (Inl (Rpc_Exception ''expected impl->clientContext != nullptr'')))
           | _ \<Rightarrow> None))"

subsection \<open>TLS from the configuration\<close>

text \<open>
  Reading a file, what OpenSSL makes of a key and of a certificate, and the context made from options, which fails
  when OpenSSL refuses them, as for a key that does not belong to its certificate.
\<close>

record tls_files =
  readAllText :: "string \<Rightarrow> string result"
  TlsPrivateKey :: "string \<Rightarrow> string option \<Rightarrow> bytes result"
  TlsCertificate :: "string \<Rightarrow> bytes result"
  TlsContext :: "TlsOptions \<Rightarrow> unit result"

definition load_keypair :: "tls_files \<Rightarrow> Configuration \<Rightarrow> (bytes \<times> bytes) result" where
  "load_keypair fs conf =
     (case readAllText fs (private_key_path conf) of
        Inl e \<Rightarrow> Inl e
      | Inr key \<Rightarrow>
          (case readAllText fs (certificate_path conf) of
             Inl e \<Rightarrow> Inl e
           | Inr cert \<Rightarrow>
               (case TlsPrivateKey fs key (private_key_password conf) of
                  Inl e \<Rightarrow> Inl e
                | Inr k \<Rightarrow>
                    (case TlsCertificate fs cert of Inl e \<Rightarrow> Inl e | Inr c \<Rightarrow> Inr (k, c)))))"

text \<open>The client loads its key pair and does not use it.\<close>

definition getClient :: "tls_files \<Rightarrow> Configuration \<Rightarrow> ClientImpl result" where
  "getClient fs conf =
     (if \<not> use_tls conf then Inr (SecureRpcClient_init Plain)
      else case load_keypair fs conf of
             Inl e \<Rightarrow> Inl e
           | Inr kp \<Rightarrow>
               (let options = TlsOptions_init\<lparr>ignoreCertificates := True\<rparr>
                in case TlsContext fs options of
                     Inl e \<Rightarrow> Inl e
                   | Inr tlsContext \<Rightarrow> Inr (SecureRpcClient_init (Tls options))))"

definition getServer :: "tls_files \<Rightarrow> Configuration \<Rightarrow> 'c \<Rightarrow> 'c ServerImpl result" where
  "getServer fs conf main =
     (if \<not> use_tls conf then Inr (SecureRpcServer_init main Plain)
      else case load_keypair fs conf of
             Inl e \<Rightarrow> Inl e
           | Inr kp \<Rightarrow>
               (let options = TlsOptions_init\<lparr>defaultKeypair := Some kp\<rparr>
                in case TlsContext fs options of
                     Inl e \<Rightarrow> Inl e
                   | Inr tlsContext \<Rightarrow> Inr (SecureRpcServer_init main (Tls options))))"

text \<open>The client with which \<open>Dht::getSuccessor\<close> calls its own peer: an \<open>EzRpcClient\<close>, which knows no TLS.\<close>

definition own_client_factory :: stream_factory where
  "own_client_factory = Plain"

subsection \<open>A connection\<close>

text \<open>
  How the handshakes end on both sides, from the options of one side and what the other one does.
\<close>

record tls_library =
  wrapServer :: "TlsOptions \<Rightarrow> stream_factory \<Rightarrow> unit result"
  wrapClient :: "TlsOptions \<Rightarrow> stream_factory \<Rightarrow> unit result"

definition server_sees :: "tls_library \<Rightarrow> stream_factory \<Rightarrow> stream_factory \<Rightarrow> nat \<Rightarrow> event list" where
  "server_sees tls sf cf n =
     Accepted n #
       (case sf of
          Plain \<Rightarrow> []
        | Tls opts \<Rightarrow>
            [case wrapServer tls opts cf of Inl e \<Rightarrow> Task_Failed (Wrapping n) e | Inr u \<Rightarrow> Handshake_Done n])"

definition client_sees :: "tls_library \<Rightarrow> stream_factory \<Rightarrow> stream_factory \<Rightarrow> nat \<Rightarrow> client_completion result list" where
  "client_sees tls sf cf n =
     [Inr Parsed, Inr (Connected n)] @
       (case cf of Plain \<Rightarrow> [] | Tls opts \<Rightarrow> [map_sum id (\<lambda>_. Secured) (wrapClient tls opts sf)])"

text \<open>
  What TLS promises: a side that uses it does not get along with one that does not, and a client that ignores
  certificates gets along with a server that has a key pair.
\<close>

definition tls_documented :: "tls_library \<Rightarrow> bool" where
  "tls_documented tls \<longleftrightarrow>
     (\<forall>opts. (\<exists>e. wrapServer tls opts Plain = Inl e) \<and> (\<exists>e. wrapClient tls opts Plain = Inl e)) \<and>
     (\<forall>so co. defaultKeypair so \<noteq> None \<and> ignoreCertificates co \<longrightarrow>
        wrapServer tls so (Tls co) = Inr () \<and> wrapClient tls co (Tls so) = Inr ())"

subsection \<open>A peer that looks up its own fingers\<close>

text \<open>
  The threads of \<open>Process\<close>, with the call that \<open>fixFingers\<close> makes to the peer's own server: nothing under way,
  sent, or answered (by an exception, or not). The main loop waits for the answer, before the operation ends as \<open>res\<close> says. \<open>fails\<close>: polling the
  server with this connection throws, which closes the connection.
\<close>

datatype own_call = No_Call | Call_Sent | Call_Answered

record own_process =
  proc :: Dht_process
  call :: own_call

definition own_init :: own_process where
  "own_init = \<lparr>proc = Dht_init, call = No_Call\<rparr>"

definition own_server_step :: "bool \<Rightarrow> own_process \<Rightarrow> own_process option" where
  "own_server_step fails p =
     (if server_at (proc p) = Server_Poll \<and> \<not> m_mainLoopExited (proc p) \<and> call p = Call_Sent
      then Some (p\<lparr>proc := (if fails then (proc p)\<lparr>server_at := Server_Unwind\<rparr> else proc p), call := Call_Answered\<rparr>)
      else map_option (\<lambda>q. p\<lparr>proc := q\<rparr>) (runServer_step True (proc p)))"

definition own_main_step :: "outcome \<Rightarrow> own_process \<Rightarrow> own_process option" where
  "own_main_step res p =
     (if main_at (proc p) = Main_Op 2
      then (case call p of
              No_Call \<Rightarrow> Some (p\<lparr>call := Call_Sent\<rparr>)
            | Call_Sent \<Rightarrow> None
            | Call_Answered \<Rightarrow> map_option (\<lambda>q. p\<lparr>proc := q, call := No_Call\<rparr>) (mainLoop_step res (proc p)))
      else map_option (\<lambda>q. p\<lparr>proc := q\<rparr>) (mainLoop_step res (proc p)))"

inductive own_step :: "bool \<Rightarrow> own_process \<Rightarrow> own_process \<Rightarrow> bool" for fails where
  server: "own_server_step fails p = Some q \<Longrightarrow> own_step fails p q"
| main: "own_main_step res p = Some q \<Longrightarrow> own_step fails p q"
| owner: "owner_step (proc p) = Some q \<Longrightarrow> own_step fails p (p\<lparr>proc := q\<rparr>)"
| client: "request_start same (proc p) = Some q \<Longrightarrow> own_step fails p (p\<lparr>proc := q\<rparr>)"
| handler: "request_end res b (proc p) = Some q \<Longrightarrow> own_step fails p (p\<lparr>proc := q\<rparr>)"
| replicated: "replication_end res (proc p) = Some q \<Longrightarrow> own_step fails p (p\<lparr>proc := q\<rparr>)"

inductive_cases own_stepE: "own_step fails p q"

subsection \<open>Vocabulary of the specifications\<close>

text \<open>As many references to the context as there are clients and servers on the thread.\<close>

definition context_refs :: "nat \<Rightarrow> thread_state \<Rightarrow> bool" where
  "context_refs n t \<longleftrightarrow> threadSecureContext t = (if n = 0 then None else Some n)"

text \<open>One task that parses the address or accepts connections, and only streams of the factory's kind.\<close>

fun task_ok :: "stream_factory \<Rightarrow> task \<Rightarrow> bool" where
  "task_ok sf (Serving (Raw n)) = (sf = Plain)"
| "task_ok sf (Serving (Wrapped n)) = (sf \<noteq> Plain)"
| "task_ok sf (Wrapping n) = (sf \<noteq> Plain)"
| "task_ok sf t = True"

definition server_ok :: "'c ServerImpl \<Rightarrow> bool" where
  "server_ok impl \<longleftrightarrow>
     filter (\<lambda>t. t = Parsing \<or> t = Accepting) (tasks impl) = [if portPromise impl = None then Parsing else Accepting] \<and>
     list_all (task_ok (streamFactory impl)) (tasks impl)"

text \<open>The names under which capabilities are exported, and that every key is alive and belongs to its entry.\<close>

definition exported :: "'c ServerImpl \<Rightarrow> (string \<times> 'c) list" where
  "exported impl = map (\<lambda>(k, e). (the (name_heap impl k), cap e)) (exportMap impl)"

definition exports_ok :: "'c ServerImpl \<Rightarrow> bool" where
  "exports_ok impl \<longleftrightarrow>
     list_all (\<lambda>(k, e). name_at e = k \<and> k < next_name impl \<and> name_heap impl k \<noteq> None) (exportMap impl)"

text \<open>Events that complete a task.\<close>

fun completes :: "event \<Rightarrow> bool" where
  "completes (Address_Parsed (Inl e)) = False"
| "completes (Task_Failed t e) = False"
| "completes ev = True"

text \<open>The main loop waits for a server that waits for the main loop.\<close>

definition own_deadlock :: "own_process \<Rightarrow> bool" where
  "own_deadlock p \<longleftrightarrow>
     server_at (proc p) = Server_Unwind \<and> main_at (proc p) = Main_Op 2 \<and> call p = Call_Sent \<and>
     owner_at (proc p) \<notin> {Owner_Waited, Owner_Destroyed}"

text \<open>A run of the server's thread (\<open>True\<close>) and the main loop's (\<open>False\<close>).\<close>

fun own_run :: "bool \<Rightarrow> bool list \<Rightarrow> own_process \<Rightarrow> own_process option" where
  "own_run fails [] p = Some p"
| "own_run fails (b # bs) p = Option.bind (if b then own_server_step fails p else own_main_step Returns p) (own_run fails bs)"

text \<open>A TLS library that keeps what is documented, and no more.\<close>

definition sample_tls :: tls_library where
  "sample_tls =
     \<lparr>wrapServer = \<lambda>so cf. case cf of Plain \<Rightarrow> Inl (Rpc_Exception ''SSL'')
          | Tls co \<Rightarrow> if defaultKeypair so \<noteq> None \<and> ignoreCertificates co then Inr () else Inl (Rpc_Exception ''SSL''),
      wrapClient = \<lambda>co sf. case sf of Plain \<Rightarrow> Inl (Rpc_Exception ''SSL'')
          | Tls so \<Rightarrow> if defaultKeypair so \<noteq> None \<and> ignoreCertificates co then Inr () else Inl (Rpc_Exception ''SSL'')\<rparr>"

definition sample_files :: tls_files where
  "sample_files = \<lparr>readAllText = Inr, TlsPrivateKey = \<lambda>k p. Inr [], TlsCertificate = \<lambda>c. Inr [],
     TlsContext = \<lambda>options. Inr ()\<rparr>"

definition sample_server :: "string ServerImpl" where
  "sample_server = SecureRpcServer_init ''peer'' (Tls (TlsOptions_init\<lparr>defaultKeypair := Some ([], [])\<rparr>))"

definition sample_client :: ClientImpl where
  "sample_client = SecureRpcClient_init (Tls (TlsOptions_init\<lparr>ignoreCertificates := True\<rparr>))"

section \<open>The context of a thread\<close>

lemma context_counts:
  "context_refs n t \<Longrightarrow> n \<noteq> 0 \<or> \<not> other_loop t \<Longrightarrow>
     \<exists>t'. getThreadLocal t = Inr t' \<and> context_refs (n + 1) t' \<and> other_loop t' = other_loop t"
  "context_refs (n + 1) t \<Longrightarrow> context_refs n (releaseContext t) \<and> other_loop (releaseContext t) = other_loop t"
  by (auto simp: context_refs_def getThreadLocal_def releaseContext_def split: if_splits)

section \<open>The server\<close>

text \<open>An event leaves the server as it was, or starts one of the four continuations of the source.\<close>

lemma task_doneE:
  assumes "task_done ev impl = Inr impl'"
  obtains "impl' = impl"
    | (listening) port where "Parsing \<in> set (tasks impl)" "impl' = acceptLoop (task_removed Parsing impl\<lparr>portPromise := Some port\<rparr>)"
    | (accepting) n where "Accepting \<in> set (tasks impl)" "impl' = accepted n (task_removed Accepting impl)"
    | (wrapping) n where "Wrapping n \<in> set (tasks impl)" "impl' = serve (Wrapped n) (task_removed (Wrapping n) impl)"
    | (serving) str where "Serving str \<in> set (tasks impl)" "impl' = task_removed (Serving str) impl"
proof -
  have "impl' = impl \<or>
      (\<exists>port. Parsing \<in> set (tasks impl) \<and> impl' = acceptLoop (task_removed Parsing impl\<lparr>portPromise := Some port\<rparr>)) \<or>
      (\<exists>n. Accepting \<in> set (tasks impl) \<and> impl' = accepted n (task_removed Accepting impl)) \<or>
      (\<exists>n. Wrapping n \<in> set (tasks impl) \<and> impl' = serve (Wrapped n) (task_removed (Wrapping n) impl)) \<or>
      (\<exists>str. Serving str \<in> set (tasks impl) \<and> impl' = task_removed (Serving str) impl)"
    using assms by (cases ev) (simp_all add: under_way_def taskFailed_def split: if_split_asm sum.split_asm, blast+)
  then show thesis using that by blast
qed

lemma filter_remove1_other: "\<not> P x \<Longrightarrow> filter P (remove1 x xs) = filter P xs"
  by (induction xs) auto

lemma filter_remove1_only: "filter P xs = [x] \<Longrightarrow> filter P (remove1 x xs) = []"
  by (simp add: filter_remove1)

lemma server_ok_tasks:
  assumes "server_ok impl"
  shows "Parsing \<in> set (tasks impl) \<longleftrightarrow> portPromise impl = None" "Accepting \<in> set (tasks impl) \<longleftrightarrow> portPromise impl \<noteq> None"
proof -
  have f: "t \<in> set (filter (\<lambda>t. t = Parsing \<or> t = Accepting) (tasks impl)) \<longleftrightarrow>
      t = (if portPromise impl = None then Parsing else Accepting)" for t
    using assms by (simp add: server_ok_def)
  show "Parsing \<in> set (tasks impl) \<longleftrightarrow> portPromise impl = None" using f [of Parsing] by (simp split: if_splits)
  show "Accepting \<in> set (tasks impl) \<longleftrightarrow> portPromise impl \<noteq> None" using f [of Accepting] by (simp split: if_splits)
qed

lemma server_ok_remove:
  assumes "server_ok impl" and "t \<in> set (tasks impl)"
  shows "list_all (task_ok (streamFactory impl)) (remove1 t (tasks impl))" "task_ok (streamFactory impl) t"
    "filter (\<lambda>t. t = Parsing \<or> t = Accepting) (remove1 t (tasks impl)) =
       (if t = Parsing \<or> t = Accepting then [] else [if portPromise impl = None then Parsing else Accepting])"
proof -
  show "list_all (task_ok (streamFactory impl)) (remove1 t (tasks impl))"
    using assms set_remove1_subset [of t "tasks impl"] by (auto simp: server_ok_def list_all_iff)
  show "task_ok (streamFactory impl) t" using assms by (auto simp: server_ok_def list_all_iff)
  have f: "filter (\<lambda>t. t = Parsing \<or> t = Accepting) (tasks impl) = [if portPromise impl = None then Parsing else Accepting]"
    using assms(1) by (simp add: server_ok_def)
  show "filter (\<lambda>t. t = Parsing \<or> t = Accepting) (remove1 t (tasks impl)) =
      (if t = Parsing \<or> t = Accepting then [] else [if portPromise impl = None then Parsing else Accepting])"
  proof (cases "t = Parsing \<or> t = Accepting")
    case True
    then have "t = (if portPromise impl = None then Parsing else Accepting)"
      using server_ok_tasks [OF assms(1)] assms(2) by auto
    then show ?thesis using filter_remove1_only [of "\<lambda>t. t = Parsing \<or> t = Accepting" "tasks impl" t] f True by simp
  next
    case False
    then show ?thesis using filter_remove1_other [of "\<lambda>t. t = Parsing \<or> t = Accepting" t "tasks impl"] f by simp
  qed
qed

lemma task_done_ok:
  assumes "server_ok impl" and "task_done ev impl = Inr impl'"
  shows "server_ok impl' \<and> streamFactory impl' = streamFactory impl \<and> mainInterface impl' = mainInterface impl \<and>
    (portPromise impl \<noteq> None \<longrightarrow> portPromise impl' = portPromise impl)"
  using assms(2)
proof (cases rule: task_doneE)
  case (listening port)
  with server_ok_tasks [OF assms(1)] server_ok_remove [OF assms(1) listening(1)] show ?thesis
    by (simp add: server_ok_def acceptLoop_def task_removed_def)
next
  case (accepting n)
  with server_ok_tasks [OF assms(1)] server_ok_remove [OF assms(1) accepting(1)] show ?thesis
    by (cases "streamFactory impl") (simp_all add: server_ok_def accepted_def acceptLoop_def serve_def task_removed_def)
next
  case (wrapping n)
  with server_ok_remove [OF assms(1) wrapping(1)] show ?thesis by (simp add: server_ok_def serve_def task_removed_def)
next
  case (serving str)
  with server_ok_remove [OF assms(1) serving(1)] show ?thesis by (simp add: server_ok_def task_removed_def)
qed (use assms(1) in simp)

lemma poll_ok:
  "server_ok impl \<Longrightarrow> poll evs impl = Inr impl' \<Longrightarrow>
     server_ok impl' \<and> streamFactory impl' = streamFactory impl \<and> mainInterface impl' = mainInterface impl \<and>
     (portPromise impl \<noteq> None \<longrightarrow> portPromise impl' = portPromise impl)"
proof (induction evs impl rule: poll.induct)
  case (2 ev evs impl)
  from 2(3) obtain impl1 where "task_done ev impl = Inr impl1" "poll evs impl1 = Inr impl'" by (auto split: sum.splits)
  with 2(1) [of impl1] task_done_ok [OF 2(2)] show ?case by auto
qed simp

lemma poll_append: "poll (xs @ ys) impl = (case poll xs impl of Inl e \<Rightarrow> Inl e | Inr impl' \<Rightarrow> poll ys impl')"
  by (induction xs impl rule: poll.induct) (simp_all split: sum.split)

lemma server_init_ok: "server_ok (SecureRpcServer_init m sf)"
  by (simp add: server_ok_def SecureRpcServer_init_def)

lemma poll_returns: "list_all completes evs \<Longrightarrow> \<exists>impl'. poll evs impl = Inr impl'"
proof (induction evs impl rule: poll.induct)
  case (2 ev evs impl)
  then have "\<exists>impl'. task_done ev impl = Inr impl'" by (cases ev rule: completes.cases) (simp_all add: under_way_def)
  with 2 show ?case by auto
qed simp

section \<open>Exported capabilities\<close>

lemma find_export_ok:
  assumes "exports_ok impl"
  shows "find_export name impl = Inr (find (\<lambda>(k, e). name_heap impl k = Some name) (exportMap impl))"
  using assms by (auto simp: find_export_def exports_ok_def list_all_iff)

lemma find_exported:
  assumes "exports_ok impl"
  shows "map_option (cap \<circ> snd) (find (\<lambda>(k, e). name_heap impl k = Some name) (exportMap impl)) = map_of (exported impl) name"
proof -
  have "map_option (cap \<circ> snd) (find (\<lambda>(k, e). H k = Some name) es) = map_of (map (\<lambda>(k, e). (the (H k), cap e)) es) name"
    if "list_all (\<lambda>(k, e). H k \<noteq> None) es" for H :: "nat \<rightharpoonup> string" and es :: "(nat \<times> 'a ExportedCap) list"
    using that by (induction es) auto
  moreover have "list_all (\<lambda>(k, e). name_heap impl k \<noteq> None) (exportMap impl)"
    using assms by (auto simp: exports_ok_def list_all_iff)
  ultimately show ?thesis by (simp add: exported_def)
qed

lemma exportCap_new:
  assumes "exports_ok impl" and "map_of (exported impl) name = None"
  shows "\<exists>impl'. exportCap name c impl = Inr impl' \<and> exports_ok impl' \<and> exported impl' = (name, c) # exported impl \<and>
    mainInterface impl' = mainInterface impl"
proof -
  have "find_export name impl = Inr None"
    using find_export_ok [OF assms(1)] find_exported [OF assms(1), of name] assms(2) by simp
  moreover have "k < next_name impl" if "(k, e) \<in> set (exportMap impl)" for k e
    using assms(1) that by (auto simp: exports_ok_def list_all_iff)
  ultimately show ?thesis
    using assms(1) by (fastforce simp: exportCap_def exports_ok_def exported_def list_all_iff Let_def intro!: map_cong)
qed

lemma exportCap_again:
  assumes "exports_ok impl" and "map_of (exported impl) name = Some old"
  shows "\<exists>impl'. exportCap name c impl = Inr impl' \<and> (\<forall>any. is_ub (restore (Some any) impl'))"
proof -
  obtain k e where f: "find (\<lambda>(k, e). name_heap impl k = Some name) (exportMap impl) = Some (k, e)"
    using find_exported [OF assms(1), of name] assms(2) by (cases "find (\<lambda>(k, e). name_heap impl k = Some name) (exportMap impl)") auto
  then have mem1: "(k, e) \<in> set (exportMap impl)" unfolding find_Some_iff by (metis nth_mem)
  then have mem: "(k, e) \<in> set (exportMap impl)" "name_at e = k" using assms(1) by (auto simp: exports_ok_def list_all_iff)
  let ?e = "\<lparr>name_at = next_name impl, cap = c\<rparr>"
  let ?impl = "impl\<lparr>name_heap := (name_heap impl)(next_name impl \<mapsto> name, k := None), next_name := next_name impl + 1,
      exportMap := map (\<lambda>(k', e). (k', if k' = k then ?e else e)) (exportMap impl)\<rparr>"
  have "(k, ?e) \<in> set (exportMap ?impl)" using mem(1) by force
  moreover have "name_heap ?impl k = None" by simp
  ultimately have "\<not> list_all (\<lambda>(k, e). name_heap ?impl k \<noteq> None) (exportMap ?impl)" unfolding list_all_iff by fast
  then have "is_ub (restore (Some any) ?impl)" for any by (simp add: restore_def find_export_def del: ServerImpl.simps)
  moreover have "exportCap name c impl = Inr ?impl" using f mem(2) find_export_ok [OF assms(1)] by (simp add: exportCap_def Let_def)
  ultimately show ?thesis by blast
qed

lemma export_all_new:
  assumes "exports_ok impl" and "distinct (map fst xs)" and "\<And>name. name \<in> fst ` set xs \<Longrightarrow> map_of (exported impl) name = None"
  shows "\<exists>impl'. export_all xs impl = Inr impl' \<and> exports_ok impl' \<and> mainInterface impl' = mainInterface impl \<and>
    (\<forall>name. map_of (exported impl') name = (case map_of xs name of Some c \<Rightarrow> Some c | None \<Rightarrow> map_of (exported impl) name))"
  using assms
proof (induction xs impl rule: export_all.induct)
  case (2 name c xs impl)
  obtain impl1 where impl1: "exportCap name c impl = Inr impl1" "exports_ok impl1" "exported impl1 = (name, c) # exported impl"
    "mainInterface impl1 = mainInterface impl"
    using exportCap_new [OF 2(2), of name c] 2(4) by auto
  have dist: "distinct (map fst xs)" "name \<notin> fst ` set xs" using 2(3) by auto
  have "map_of (exported impl1) m = None" if "m \<in> fst ` set xs" for m
  proof -
    have "m \<noteq> name" using that dist(2) by metis
    then show ?thesis using 2(4) [of m] that by (simp add: impl1(3))
  qed
  with dist(1) obtain impl' where "export_all xs impl1 = Inr impl'" "exports_ok impl'" "mainInterface impl' = mainInterface impl1"
    "\<forall>m. map_of (exported impl') m = (case map_of xs m of Some c \<Rightarrow> Some c | None \<Rightarrow> map_of (exported impl1) m)"
    using 2(1) [OF impl1(1,2)] by auto
  moreover have "map_of xs name = None" using dist(2) by (simp add: map_of_eq_None_iff)
  ultimately show ?case using impl1 by (intro exI [of _ impl']) (auto split: option.split)
qed simp

section \<open>The client\<close>

lemma client_done_context:
  assumes "clientContext impl \<noteq> None \<longleftrightarrow> setupPromise impl = Setup_Done"
  shows "clientContext (client_done c impl) \<noteq> None \<longleftrightarrow> setupPromise (client_done c impl) = Setup_Done"
    "setupPromise impl = Setup_Done \<Longrightarrow> client_done c impl = impl"
  using assms by (auto simp: client_done_def setup_stream_def split: client_setup.splits sum.splits client_completion.splits stream_factory.splits)

lemma client_run_context:
  assumes "clientContext impl \<noteq> None \<longleftrightarrow> setupPromise impl = Setup_Done"
  shows "clientContext (client_run evs impl) \<noteq> None \<longleftrightarrow> setupPromise (client_run evs impl) = Setup_Done"
    "setupPromise impl = Setup_Done \<Longrightarrow> client_run evs impl = impl"
  using assms
proof (induction evs arbitrary: impl)
  case (Cons c evs)
  {
    case 1
    with Cons.IH(1) client_done_context(1) show ?case by (simp add: client_run_def)
  next
    case 2
    with Cons.IH(2) client_done_context(2) show ?case by (simp add: client_run_def)
  }
qed (simp_all add: client_run_def)

lemma client_run_append: "client_run (xs @ ys) impl = client_run ys (client_run xs impl)"
  by (simp add: client_run_def)

section \<open>A connection\<close>

lemma getServer_factory:
  assumes "getServer fs conf main = Inr srv"
  shows "srv = SecureRpcServer_init main (streamFactory srv)" "use_tls conf \<longleftrightarrow> streamFactory srv \<noteq> Plain"
    "streamFactory srv = Tls so \<Longrightarrow> defaultKeypair so \<noteq> None"
  using assms by (auto simp: getServer_def SecureRpcServer_init_def Let_def split: if_splits sum.splits)

lemma getClient_factory:
  assumes "getClient fs conf = Inr cl"
  shows "getMain cl = After_Setup" "setupPromise cl = Setup_Parse" "use_tls conf \<longleftrightarrow> client_factory cl \<noteq> Plain"
    "client_factory cl = Tls co \<Longrightarrow> ignoreCertificates co"
  using assms by (auto simp: getClient_def SecureRpcClient_init_def getMain_def Let_def split: if_splits sum.splits)

text \<open>A server that listens and has completed its tasks so far serves the next connection.\<close>

lemma listening_server:
  assumes "list_all completes evs"
  shows "\<exists>impl. poll (Address_Parsed (Inr port) # evs) (SecureRpcServer_init main sf) = Inr impl \<and> server_ok impl \<and>
    streamFactory impl = sf \<and> mainInterface impl = main \<and> Accepting \<in> set (tasks impl) \<and> portPromise impl = Some port"
proof -
  let ?srv = "SecureRpcServer_init main sf"
  let ?srv1 = "acceptLoop (task_removed Parsing ?srv\<lparr>portPromise := Some port\<rparr>)"
  have first: "task_done (Address_Parsed (Inr port)) ?srv = Inr ?srv1"
    by (simp add: under_way_def SecureRpcServer_init_def)
  have srv1: "server_ok ?srv1" "streamFactory ?srv1 = sf" "mainInterface ?srv1 = main" "portPromise ?srv1 = Some port"
    using task_done_ok [OF server_init_ok first]
    by (simp_all add: SecureRpcServer_init_def task_removed_def acceptLoop_def)
  obtain impl where impl: "poll evs ?srv1 = Inr impl" using poll_returns [OF assms] by blast
  with first have "poll (Address_Parsed (Inr port) # evs) ?srv = Inr impl" by simp
  moreover have ok: "server_ok impl" "streamFactory impl = sf" "mainInterface impl = main" "portPromise impl = Some port"
    using poll_ok [OF srv1(1) impl] srv1 by simp_all
  moreover have "Accepting \<in> set (tasks impl)" using server_ok_tasks(2) [OF ok(1)] ok(4) by simp
  ultimately show ?thesis by blast
qed

lemma plain_client_fails:
  assumes "tls_documented tls" and "Accepting \<in> set (tasks impl)" and "streamFactory impl = Tls so"
  shows "\<exists>e. poll (server_sees tls (Tls so) Plain n @ rest) impl = Inl e"
proof -
  obtain e where "wrapServer tls so Plain = Inl e" using assms(1) unfolding tls_documented_def by blast
  then show ?thesis
    using assms(2,3) by (simp add: server_sees_def under_way_def accepted_def acceptLoop_def task_removed_def taskFailed_def)
qed

section \<open>A peer that looks up its own fingers\<close>

lemma deadlock_stays: "own_step fails p q \<Longrightarrow> own_deadlock p \<Longrightarrow> own_deadlock q"
  by (erule own_stepE)
    (auto simp: own_deadlock_def own_server_step_def own_main_step_def process_defs split: if_splits owner_pc.splits outcome.splits)

lemma deadlock_forever: "(own_step fails)\<^sup>*\<^sup>* p q \<Longrightarrow> own_deadlock p \<Longrightarrow> own_deadlock q"
  by (induction rule: rtranclp_induct) (auto intro: deadlock_stays)

lemma own_run_steps: "own_run fails bs p = Some q \<Longrightarrow> (own_step fails)\<^sup>*\<^sup>* p q"
proof (induction fails bs p rule: own_run.induct)
  case (2 fails b bs p)
  then obtain r where r: "(if b then own_server_step fails p else own_main_step Returns p) = Some r" "own_run fails bs r = Some q"
    by (auto simp: bind_eq_Some_conv split: if_splits)
  then have "own_step fails p r" by (auto intro: own_step.intros split: if_splits)
  with 2 r show ?case by (meson converse_rtranclp_into_rtranclp)
qed simp

lemma deadlock_reachable: "\<exists>p. (own_step True)\<^sup>*\<^sup>* own_init p \<and> own_deadlock p"
proof -
  let ?bs = "replicate 2 True @ replicate 7 False @ [True] @ replicate 11 False"
  have "\<exists>p. own_run True ?bs own_init = Some p \<and> own_deadlock p"
    by (simp add: own_init_def Dht_init_def own_server_step_def own_main_step_def process_defs getPeerImpl_def own_deadlock_def
        numeral_eq_Suc)
  then show ?thesis using own_run_steps by blast
qed

section \<open>A sample server and client\<close>

lemma sample_tls_documented: "tls_documented sample_tls"
  by (simp add: tls_documented_def sample_tls_def)

lemma sample_getServer: "getServer sample_files (Configuration_default\<lparr>use_tls := True\<rparr>) ''peer'' = Inr sample_server"
  by (simp add: getServer_def load_keypair_def sample_files_def sample_server_def)

lemma sample_getClient: "getClient sample_files (Configuration_default\<lparr>use_tls := True\<rparr>) = Inr sample_client"
  by (simp add: getClient_def load_keypair_def sample_files_def sample_client_def)

section \<open>Properties\<close>

text \<open>
  C22: Peers with the same settings reach each other, with and without TLS. A server made from a configuration
  that listens, and whose tasks have all been completed so far, whatever they were, accepts the connection of
  a client made from the same configuration: both end up with the same stream, wrapped on both sides with TLS
  and on none without, the server answers on it with its main interface, and accepts the next connection.
\<close>

theorem peers_connect:
  assumes "tls_documented tls" and "getServer fs conf main = Inr srv" and "getClient fs conf = Inr cl" and "list_all completes evs"
  shows "\<exists>impl str. poll (Address_Parsed (Inr port) # evs @ server_sees tls (streamFactory srv) (client_factory cl) n) srv = Inr impl \<and>
    Serving str \<in> set (tasks impl) \<and> Accepting \<in> set (tasks impl) \<and> str = (if use_tls conf then Wrapped n else Raw n) \<and>
    main_stream (getMain cl) (client_run (client_sees tls (streamFactory srv) (client_factory cl) n) cl) = Some (Inr str) \<and>
    restore None impl = Inr main"
proof -
  note sf = getServer_factory [OF assms(2)] and cf = getClient_factory [OF assms(3)]
  obtain impl where impl: "poll (Address_Parsed (Inr port) # evs) (SecureRpcServer_init main (streamFactory srv)) = Inr impl"
    "server_ok impl" "streamFactory impl = streamFactory srv" "mainInterface impl = main" "Accepting \<in> set (tasks impl)"
    using listening_server [OF assms(4), of port main "streamFactory srv"] by (elim exE conjE)
  have "\<exists>impl'. poll (server_sees tls (streamFactory srv) (client_factory cl) n) impl = Inr impl' \<and> mainInterface impl' = main \<and>
      Serving (if use_tls conf then Wrapped n else Raw n) \<in> set (tasks impl') \<and> Accepting \<in> set (tasks impl') \<and>
    main_stream (getMain cl) (client_run (client_sees tls (streamFactory srv) (client_factory cl) n) cl) =
      Some (Inr (if use_tls conf then Wrapped n else Raw n))"
  proof (cases "streamFactory srv")
    case Plain
    then have "\<not> use_tls conf" "client_factory cl = Plain" using sf(2) cf(3) by auto
    then show ?thesis
      using Plain impl(3-5) cf(1,2)
      by (simp add: server_sees_def client_sees_def client_run_def client_done_def setup_stream_def main_stream_def under_way_def
          accepted_def acceptLoop_def task_removed_def serve_def)
  next
    case (Tls so)
    then have use: "use_tls conf" using sf(2) by simp
    then obtain co where co: "client_factory cl = Tls co" using cf(3) by (cases "client_factory cl") auto
    have "wrapServer tls so (stream_factory.Tls co) = Inr ()" "wrapClient tls co (stream_factory.Tls so) = Inr ()"
      using assms(1) sf(3) [OF Tls] cf(4) [OF co] unfolding tls_documented_def by blast+
    with use co show ?thesis
      using Tls impl(3-5) cf(1,2)
      by (simp add: server_sees_def client_sees_def client_run_def client_done_def setup_stream_def main_stream_def under_way_def
          accepted_def acceptLoop_def task_removed_def serve_def)
  qed
  moreover have "poll (Address_Parsed (Inr port) # evs) srv = Inr impl" using impl(1) sf(1) by simp
  ultimately show ?thesis
    using poll_append [of "Address_Parsed (Inr port) # evs" _ srv] by (auto simp: restore_def simp del: poll.simps)
qed

theorem peers_connect_witness:
  "\<exists>impl str. poll (Address_Parsed (Inr 6002) # server_sees sample_tls (streamFactory sample_server) (client_factory sample_client) 0)
      sample_server = Inr impl \<and> Serving str \<in> set (tasks impl) \<and> restore None impl = Inr ''peer''"
  using peers_connect [OF sample_tls_documented sample_getServer sample_getClient, of "[]" 6002 0] by auto

text \<open>
  C23: One connection that fails stops a peer. A server with TLS that listens throws out of \<open>poll\<close> when a client
  connects that does not use TLS, whatever it has served before and whatever happens after. The peer's own
  lookups come from such a client: with TLS, the first lookup of \<open>fixFingers\<close> ends the polling, the next one
  waits for an answer that nobody will give, while the server's thread waits for the main loop, and from then on
  the peer serves no one and its destructor does not return.
\<close>

theorem tls_peer_deadlocks:
  assumes "tls_documented tls" and "getServer fs conf main = Inr srv" and "use_tls conf" and "list_all completes evs"
  shows "\<exists>impl. poll (Address_Parsed (Inr port) # evs) srv = Inr impl \<and>
    (\<forall>n rest. isl (poll (server_sees tls (streamFactory impl) Plain n @ rest) impl)) \<and>
    (\<exists>p. (own_step (isl (poll (server_sees tls (streamFactory impl) own_client_factory n) impl)))\<^sup>*\<^sup>* own_init p \<and>
       (\<forall>q. (own_step (isl (poll (server_sees tls (streamFactory impl) own_client_factory n) impl)))\<^sup>*\<^sup>* p q \<longrightarrow>
          server_at (proc q) = Server_Unwind \<and> owner_at (proc q) \<notin> {Owner_Waited, Owner_Destroyed}))"
proof -
  note sf = getServer_factory [OF assms(2)]
  obtain so where so: "streamFactory srv = Tls so" using sf(2) assms(3) by (cases "streamFactory srv") auto
  obtain impl where impl: "poll (Address_Parsed (Inr port) # evs) srv = Inr impl"
    "streamFactory impl = Tls so" "Accepting \<in> set (tasks impl)"
    using listening_server [OF assms(4), of port main "streamFactory srv"] sf(1) so by auto
  have fails: "isl (poll (server_sees tls (streamFactory impl) Plain n @ rest) impl)" for n rest
    using plain_client_fails [OF assms(1) impl(3,2), of n rest] unfolding impl(2) by auto
  then have "isl (poll (server_sees tls (streamFactory impl) own_client_factory n) impl)"
    using fails [of n "[]"] by (simp add: own_client_factory_def)
  moreover obtain p where "(own_step True)\<^sup>*\<^sup>* own_init p" "own_deadlock p" using deadlock_reachable by blast
  moreover have "server_at (proc q) = Server_Unwind \<and> owner_at (proc q) \<notin> {Owner_Waited, Owner_Destroyed}"
    if "(own_step True)\<^sup>*\<^sup>* p q" for q
    using deadlock_forever [OF that \<open>own_deadlock p\<close>] by (simp add: own_deadlock_def)
  ultimately show ?thesis using impl(1) fails by (intro exI [of _ impl]) (simp del: poll.simps, blast)
qed

theorem tls_peer_deadlocks_witness:
  "\<exists>impl. poll [Address_Parsed (Inr 6002)] sample_server = Inr impl \<and>
     isl (poll (server_sees sample_tls (streamFactory impl) Plain 0) impl)"
proof -
  have "use_tls (Configuration_default\<lparr>use_tls := True\<rparr>)" "list_all completes []" by simp_all
  from tls_peer_deadlocks [OF sample_tls_documented sample_getServer this, of 6002 0] show ?thesis
    by (metis append_Nil2)
qed

text \<open>
  A client's main interface does not depend on when it is asked for. However the setup of a client goes on,
  the capability that \<open>getMain\<close> returned at some moment ends up with the same stream or the same exception as
  one it returns later, and the assertion that the connection is there when the setup is done never fails.
\<close>

theorem client_main_any_time:
  assumes "cl = SecureRpcClient_init factory"
  shows "main_stream (getMain (client_run evs cl)) (client_run (evs @ later) cl) =
      main_stream (getMain (client_run (evs @ later) cl)) (client_run (evs @ later) cl) \<and>
    (main_stream (getMain cl) (client_run evs cl) =
      (case setupPromise (client_run evs cl) of
         Setup_Done \<Rightarrow> map_option Inr (clientContext (client_run evs cl))
       | Setup_Failed e \<Rightarrow> Some (Inl e) | _ \<Rightarrow> None)) \<and>
    (setupPromise (client_run evs cl) = Setup_Done \<longrightarrow> clientContext (client_run evs cl) \<noteq> None)"
proof -
  have cl: "clientContext cl \<noteq> None \<longleftrightarrow> setupPromise cl = Setup_Done" "getMain cl = After_Setup"
    by (simp_all add: assms SecureRpcClient_init_def getMain_def)
  note run = client_run_context(1) [OF cl(1)]
  have "main_stream (getMain (client_run evs cl)) (client_run (evs @ later) cl) =
      main_stream (getMain (client_run (evs @ later) cl)) (client_run (evs @ later) cl)"
  proof (cases "setupPromise (client_run evs cl) = Setup_Done")
    case True
    then show ?thesis using client_run_context(2) [OF run [of evs]] by (simp add: client_run_append)
  next
    case False
    then have early: "getMain (client_run evs cl) = After_Setup" using run [of evs] by (simp add: getMain_def)
    show ?thesis using run [of "evs @ later"] unfolding early
      by (cases "clientContext (client_run (evs @ later) cl)") (auto simp: getMain_def main_stream_def)
  qed
  then show ?thesis
    using run [of evs] by (auto simp: cl(2) main_stream_def split: client_setup.split option.split)
qed

theorem client_main_any_time_witness:
  "main_stream (getMain (SecureRpcClient_init Plain)) (client_run [Inr Parsed, Inr (Connected 7)] (SecureRpcClient_init Plain)) =
     Some (Inr (Raw 7))"
  using client_main_any_time [where factory = Plain, OF refl, of "[Inr Parsed, Inr (Connected 7)]" "[]"]
  by (simp add: client_run_def client_done_def SecureRpcClient_init_def setup_stream_def)

text \<open>
  Exported capabilities. After exporting capabilities under different names, \<open>restore\<close> returns the main
  interface for an empty reference, the capability exported under a name for that name, and fails for every
  other name. Exporting a name for a second time leaves a key that points to freed memory, so that every later
  \<open>restore\<close> of any name is undefined behaviour.
\<close>

theorem exports_restored:
  assumes "distinct (map fst xs)"
  shows "\<exists>impl. export_all xs (SecureRpcServer_init main factory) = Inr impl \<and> restore None impl = Inr main \<and>
    (\<forall>name. restore (Some name) impl =
       (case map_of xs name of
          Some c \<Rightarrow> Inr c
        | None \<Rightarrow> Inl (Rpc_Exception ''Server exports no such capability.''))) \<and>
    (\<forall>name c. name \<in> fst ` set xs \<longrightarrow>
       (\<exists>impl'. exportCap name c impl = Inr impl' \<and> (\<forall>any. is_ub (restore (Some any) impl'))))"
proof -
  let ?srv = "SecureRpcServer_init main factory"
  have init: "exports_ok ?srv" "exported ?srv = []" "mainInterface ?srv = main"
    by (simp_all add: exports_ok_def exported_def SecureRpcServer_init_def)
  obtain impl where impl: "export_all xs ?srv = Inr impl" "exports_ok impl" "mainInterface impl = mainInterface ?srv"
    "\<forall>name. map_of (exported impl) name = (case map_of xs name of Some c \<Rightarrow> Some c | None \<Rightarrow> map_of (exported ?srv) name)"
    using export_all_new [OF init(1) assms] init(2) by auto
  then have names: "map_of (exported impl) name = map_of xs name" for name by (simp add: init(2) split: option.splits)
  have "restore (Some name) impl = (case map_of xs name of Some c \<Rightarrow> Inr c
      | None \<Rightarrow> Inl (Rpc_Exception ''Server exports no such capability.''))" for name
    using find_exported [OF impl(2), of name, unfolded names, symmetric] find_export_ok [OF impl(2)]
    by (auto simp: restore_def split: option.splits)
  moreover have "\<exists>impl'. exportCap name c impl = Inr impl' \<and> (\<forall>any. is_ub (restore (Some any) impl'))"
    if "name \<in> fst ` set xs" for name c
  proof -
    have "map_of xs name \<noteq> None" using that by (simp add: map_of_eq_None_iff)
    then show ?thesis using exportCap_again [OF impl(2), of name] names by auto
  qed
  ultimately show ?thesis using impl(1,3) init(3) by (intro exI [of _ impl]) (simp add: restore_def)
qed

theorem exports_restored_witness:
  "\<exists>impl. export_all [(''x'', 1 :: nat), (''y'', 2)] (SecureRpcServer_init 0 Plain) = Inr impl \<and>
     restore (Some ''y'') impl = Inr 2"
  using exports_restored [of "[(''x'', 1 :: nat), (''y'', 2)]" 0 Plain] by auto

end
