(* ===== verification/Cleaner.thy ===== *)
theory Cleaner
  imports Node_Information
begin

text \<open>
  The thread of a \<open>NodeInformation\<close> object that removes expired items (\<open>src/src/dht/NodeInformation.cpp\<close>,
  constructor and destructor): it cleans, waits on a condition variable for up to 30 seconds, and ends once
  the destructor has set a flag. The destructor sets the flag and notifies without holding the mutex of the
  condition variable.
\<close>

section \<open>Definitions\<close>

text \<open>
  Where the thread is: at the test of its loop, before cleaning, in \<open>wait_for\<close> with the mutex before the
  predicate is evaluated, with the mutex after it was false, blocked with the mutex released, and at its end.
\<close>

datatype cleaner_pc = Cleaner_Test | Cleaner_Clean | Cleaner_Check | Cleaner_Block | Cleaner_Waiting | Cleaner_Done

text \<open>Where the destructor is: not called, after the flag was set, after the notification, at its end.\<close>

datatype destructor_pc = Alive | Flagged | Notified | Destroyed

record cleaner_process =
  m_destroyed :: bool
  cleaner_at :: cleaner_pc
  destructor_at :: destructor_pc
  info :: NodeInformation

definition cleaner_init :: "NodeInformation \<Rightarrow> cleaner_process" where
  "cleaner_init ni = \<lparr>m_destroyed = False, cleaner_at = Cleaner_Test, destructor_at = Alive, info = ni\<rparr>"

definition cleaner_step :: "(nat \<Rightarrow> int) \<Rightarrow> cleaner_process \<Rightarrow> cleaner_process option" where
  "cleaner_step now p =
     (case cleaner_at p of
        Cleaner_Test \<Rightarrow> Some (p\<lparr>cleaner_at := (if m_destroyed p then Cleaner_Done else Cleaner_Clean)\<rparr>)
      | Cleaner_Clean \<Rightarrow> Some (p\<lparr>info := dataCleaner_pass now (info p), cleaner_at := Cleaner_Check\<rparr>)
      | Cleaner_Check \<Rightarrow> Some (p\<lparr>cleaner_at := (if m_destroyed p then Cleaner_Test else Cleaner_Block)\<rparr>)
      | Cleaner_Block \<Rightarrow> Some (p\<lparr>cleaner_at := Cleaner_Waiting\<rparr>)
      | Cleaner_Waiting \<Rightarrow> None
      | Cleaner_Done \<Rightarrow> None)"

text \<open>The end of a wait: after the 30 seconds, or woken, when the predicate is evaluated again.\<close>

definition cleaner_timeout :: "cleaner_process \<Rightarrow> cleaner_process option" where
  "cleaner_timeout p = (if cleaner_at p = Cleaner_Waiting then Some (p\<lparr>cleaner_at := Cleaner_Test\<rparr>) else None)"

definition cleaner_woken :: "cleaner_process \<Rightarrow> cleaner_process" where
  "cleaner_woken p = (if cleaner_at p = Cleaner_Waiting then p\<lparr>cleaner_at := Cleaner_Check\<rparr> else p)"

definition destructor_step :: "cleaner_process \<Rightarrow> cleaner_process option" where
  "destructor_step p =
     (case destructor_at p of
        Alive \<Rightarrow> Some (p\<lparr>m_destroyed := True, destructor_at := Flagged\<rparr>)
      | Flagged \<Rightarrow> Some (cleaner_woken p\<lparr>destructor_at := Notified\<rparr>)
      | Notified \<Rightarrow> if cleaner_at p = Cleaner_Done then Some (p\<lparr>destructor_at := Destroyed\<rparr>) else None
      | Destroyed \<Rightarrow> None)"

text \<open>
  Who takes a step. A wake-up without a notification is one the condition variable is free to make; the
  methods of the object change its state while it is alive.
\<close>

datatype cleaner_actor = By_Cleaner | By_Timer | By_Spurious | By_Destructor | By_Method

inductive cleaner_proc_step :: "cleaner_actor \<Rightarrow> cleaner_process \<Rightarrow> cleaner_process \<Rightarrow> bool" where
  cleaner: "cleaner_step now p = Some q \<Longrightarrow> cleaner_proc_step By_Cleaner p q"
| timer: "cleaner_timeout p = Some q \<Longrightarrow> cleaner_proc_step By_Timer p q"
| spurious: "cleaner_at p = Cleaner_Waiting \<Longrightarrow> cleaner_proc_step By_Spurious p (cleaner_woken p)"
| destructor: "destructor_step p = Some q \<Longrightarrow> cleaner_proc_step By_Destructor p q"
| update: "destructor_at p = Alive \<Longrightarrow> ni_ok ni \<Longrightarrow> cleaner_proc_step By_Method p (p\<lparr>info := ni\<rparr>)"

inductive_cases cleaner_proc_stepE: "cleaner_proc_step a p q"

abbreviation cleaner_steps :: "cleaner_process \<Rightarrow> cleaner_process \<Rightarrow> bool" where
  "cleaner_steps \<equiv> (\<lambda>p q. \<exists>a. cleaner_proc_step a p q)\<^sup>*\<^sup>*"

text \<open>Steps of some actors only.\<close>

abbreviation cleaner_run :: "cleaner_actor set \<Rightarrow> cleaner_process \<Rightarrow> cleaner_process \<Rightarrow> bool" where
  "cleaner_run A \<equiv> (\<lambda>p q. \<exists>a\<in>A. cleaner_proc_step a p q)\<^sup>*\<^sup>*"

text \<open>The flag is set exactly from the first statement of the destructor on.\<close>

definition cleaner_ok :: "cleaner_process \<Rightarrow> bool" where
  "cleaner_ok p \<longleftrightarrow>
     (m_destroyed p \<longleftrightarrow> destructor_at p \<noteq> Alive) \<and> (cleaner_at p = Cleaner_Done \<longrightarrow> m_destroyed p) \<and>
     (destructor_at p = Destroyed \<longrightarrow> cleaner_at p = Cleaner_Done) \<and> ni_ok (info p)"

fun cleaner_left :: "cleaner_pc \<Rightarrow> nat" where
  "cleaner_left Cleaner_Done = 0"
| "cleaner_left Cleaner_Test = 1"
| "cleaner_left Cleaner_Check = 2"
| "cleaner_left Cleaner_Clean = 3"
| "cleaner_left Cleaner_Waiting = 3"
| "cleaner_left Cleaner_Block = 4"

fun destructor_left :: "destructor_pc \<Rightarrow> nat" where
  "destructor_left Alive = 3"
| "destructor_left Flagged = 2"
| "destructor_left Notified = 1"
| "destructor_left Destroyed = 0"

definition cleaner_work :: "cleaner_process \<Rightarrow> nat" where
  "cleaner_work p = cleaner_left (cleaner_at p) + destructor_left (destructor_at p)"

section \<open>The invariant and the measure\<close>

lemmas cleaner_defs = cleaner_step_def cleaner_timeout_def cleaner_woken_def destructor_step_def

lemma cleaner_steps_add:
  "cleaner_proc_step a p q \<Longrightarrow> cleaner_steps q r \<Longrightarrow> cleaner_steps p r"
  "cleaner_steps p q \<Longrightarrow> cleaner_proc_step a q r \<Longrightarrow> cleaner_steps p r"
  by (rule converse_rtranclp_into_rtranclp; blast) (rule rtranclp.rtrancl_into_rtrancl; blast)

lemma cleaner_ok_step: "cleaner_proc_step a p q \<Longrightarrow> cleaner_ok p \<Longrightarrow> cleaner_ok q"
  by (erule cleaner_proc_stepE)
    (auto simp: cleaner_ok_def cleaner_defs ni_ok_update split: cleaner_pc.splits destructor_pc.splits if_splits)

lemma cleaner_ok_steps: "cleaner_steps p q \<Longrightarrow> cleaner_ok p \<Longrightarrow> cleaner_ok q"
  by (induction rule: rtranclp_induct) (auto intro: cleaner_ok_step)

lemma cleaner_work_step:
  "cleaner_proc_step a p q \<Longrightarrow> cleaner_ok p \<Longrightarrow> m_destroyed p \<Longrightarrow> cleaner_work q < cleaner_work p \<and> m_destroyed q"
  by (erule cleaner_proc_stepE)
    (auto simp: cleaner_ok_def cleaner_work_def cleaner_defs split: cleaner_pc.splits destructor_pc.splits if_splits)

text \<open>Steps of some actors lead to the end if one of them can always go on.\<close>

lemma cleaner_run_ends:
  assumes "I p" and inv: "\<And>p. I p \<Longrightarrow> cleaner_ok p \<and> m_destroyed p"
    and go: "\<And>p. I p \<Longrightarrow> destructor_at p \<noteq> Destroyed \<Longrightarrow> \<exists>a\<in>A. \<exists>q. cleaner_proc_step a p q \<and> I q"
  shows "\<exists>q. cleaner_run A p q \<and> destructor_at q = Destroyed"
  using assms(1)
proof (induction "cleaner_work p" arbitrary: p rule: less_induct)
  case less
  show ?case
  proof (cases "destructor_at p = Destroyed")
    case False
    then obtain a q where q: "a \<in> A" "cleaner_proc_step a p q" "I q" using go [OF less.prems] by blast
    then obtain r where r: "cleaner_run A q r" "destructor_at r = Destroyed"
      using less.hyps [of q] cleaner_work_step [OF q(2)] inv [OF less.prems] by blast
    then have "cleaner_run A p r" using q(1,2) by (intro converse_rtranclp_into_rtranclp [of _ p q]) blast+
    with r(2) show ?thesis by blast
  qed auto
qed

lemma cleaner_goes_on:
  assumes "cleaner_at p \<notin> {Cleaner_Waiting, Cleaner_Done}"
  obtains q where "cleaner_proc_step By_Cleaner p q" "destructor_at q = destructor_at p"
    "m_destroyed p \<Longrightarrow> cleaner_at p \<noteq> Cleaner_Block \<Longrightarrow> cleaner_at q \<notin> {Cleaner_Block, Cleaner_Waiting}"
proof -
  obtain q where "cleaner_step (\<lambda>_. 0) p = Some q" "destructor_at q = destructor_at p"
    "m_destroyed p \<Longrightarrow> cleaner_at p \<noteq> Cleaner_Block \<Longrightarrow> cleaner_at q \<notin> {Cleaner_Block, Cleaner_Waiting}"
    using assms by (cases "cleaner_at p") (simp_all add: cleaner_step_def)
  then show thesis using that cleaner_proc_step.cleaner by blast
qed

lemma notification_goes_on:
  assumes "cleaner_ok p" and "m_destroyed p" and "destructor_at p = Flagged \<or> destructor_at p = Notified \<and> cleaner_at p = Cleaner_Done"
  obtains q where "cleaner_proc_step By_Destructor p q" "destructor_at q = Notified \<or> destructor_at q = Destroyed"
    "cleaner_at p \<noteq> Cleaner_Block \<Longrightarrow> cleaner_at q \<notin> {Cleaner_Block, Cleaner_Waiting}"
proof -
  obtain q where "destructor_step p = Some q" "destructor_at q = Notified \<or> destructor_at q = Destroyed"
    "cleaner_at p \<noteq> Cleaner_Block \<Longrightarrow> cleaner_at q \<notin> {Cleaner_Block, Cleaner_Waiting}"
    using assms(3) by (auto simp: destructor_step_def cleaner_woken_def)
  then show thesis using that cleaner_proc_step.destructor by blast
qed

lemma ends_with_timer:
  assumes "cleaner_ok p" and "m_destroyed p"
  shows "\<exists>q. cleaner_run {By_Cleaner, By_Timer, By_Destructor} p q \<and> destructor_at q = Destroyed"
proof (rule cleaner_run_ends [of "\<lambda>p. cleaner_ok p \<and> m_destroyed p"])
  fix p assume p: "cleaner_ok p \<and> m_destroyed p" "destructor_at p \<noteq> Destroyed"
  have "\<exists>a\<in>{By_Cleaner, By_Timer, By_Destructor}. \<exists>q. cleaner_proc_step a p q"
  proof (cases "cleaner_at p \<in> {Cleaner_Waiting, Cleaner_Done}")
    case True
    then consider q where "cleaner_timeout p = Some q" | q where "destructor_step p = Some q"
      using p by (cases "destructor_at p") (auto simp: cleaner_timeout_def destructor_step_def cleaner_ok_def)
    then show ?thesis by cases (blast intro: cleaner_proc_step.intros)+
  qed (use cleaner_goes_on in blast)
  then show "\<exists>a\<in>{By_Cleaner, By_Timer, By_Destructor}. \<exists>q. cleaner_proc_step a p q \<and> cleaner_ok q \<and> m_destroyed q"
    using p(1) cleaner_ok_step cleaner_work_step by blast
qed (use assms in auto)

lemma ends_without_timer:
  assumes "cleaner_ok p" and "m_destroyed p" and "destructor_at p = Flagged \<or> cleaner_at p \<notin> {Cleaner_Block, Cleaner_Waiting}"
  shows "\<exists>q. cleaner_run {By_Cleaner, By_Destructor} p q \<and> destructor_at q = Destroyed"
proof (rule cleaner_run_ends [of "\<lambda>p. (cleaner_ok p \<and> m_destroyed p) \<and> (destructor_at p = Flagged \<or> cleaner_at p \<notin> {Cleaner_Block, Cleaner_Waiting})"])
  let ?I = "\<lambda>p. destructor_at p = Flagged \<or> cleaner_at p \<notin> {Cleaner_Block, Cleaner_Waiting}"
  fix p assume p: "(cleaner_ok p \<and> m_destroyed p) \<and> ?I p" "destructor_at p \<noteq> Destroyed"
  then have at: "destructor_at p = Flagged \<or> destructor_at p = Notified"
    by (cases "destructor_at p") (auto simp: cleaner_ok_def)
  have "\<exists>a\<in>{By_Cleaner, By_Destructor}. \<exists>q. cleaner_proc_step a p q \<and> ?I q"
  proof (cases "cleaner_at p = Cleaner_Block \<or> destructor_at p = Notified \<and> cleaner_at p \<noteq> Cleaner_Done")
    case True
    then have "cleaner_at p \<notin> {Cleaner_Waiting, Cleaner_Done}" using p at by auto
    from cleaner_goes_on [OF this] show ?thesis using True p(1) by (metis destructor_pc.distinct(7) insertCI)
  next
    case False
    then show ?thesis using notification_goes_on [of p] p(1) at by (metis insertCI)
  qed
  then show "\<exists>a\<in>{By_Cleaner, By_Destructor}. \<exists>q. cleaner_proc_step a p q \<and> (cleaner_ok q \<and> m_destroyed q) \<and> ?I q"
    using p(1) cleaner_ok_step cleaner_work_step by blast
qed (use assms in auto)

section \<open>Properties\<close>

text \<open>
  C25: Destroying the state of a peer returns, and the state stays well formed until then. In every order of the
  steps of the cleaning thread, its timer, wake-ups without reason, the destructor and the methods of the
  object: once the flag is set, every step leaves less to do, and the thread, its timer and the destructor by themselves,
  without a wake-up that has no reason, get to the end of the destructor. As long as the notification is still to come,
  or when the thread is not about to wait, they get there without the timer.
\<close>

theorem cleaner_stops:
  assumes "ni_ok ni" and "cleaner_steps (cleaner_init ni) p"
  shows "ni_ok (info p) \<and>
    (m_destroyed p \<longrightarrow>
       (\<forall>a q. cleaner_proc_step a p q \<longrightarrow> cleaner_work q < cleaner_work p) \<and>
       (\<exists>q. cleaner_run {By_Cleaner, By_Timer, By_Destructor} p q \<and> destructor_at q = Destroyed) \<and>
       (destructor_at p = Flagged \<or> cleaner_at p \<notin> {Cleaner_Block, Cleaner_Waiting} \<longrightarrow>
          (\<exists>q. cleaner_run {By_Cleaner, By_Destructor} p q \<and> destructor_at q = Destroyed)))"
proof -
  have "cleaner_ok (cleaner_init ni)" using assms(1) by (simp add: cleaner_ok_def cleaner_init_def)
  then have ok: "cleaner_ok p" by (rule cleaner_ok_steps [OF assms(2)])
  then have "ni_ok (info p)" by (simp add: cleaner_ok_def)
  with ok show ?thesis using cleaner_work_step [OF _ ok] ends_with_timer [OF ok] ends_without_timer [OF ok] by simp
qed

theorem cleaner_stops_witness:
  "\<exists>q. cleaner_run {By_Cleaner, By_Destructor}
      ((cleaner_init (NodeInformation_init id ''a'' 1))\<lparr>m_destroyed := True, destructor_at := Flagged\<rparr>) q \<and>
     destructor_at q = Destroyed"
proof -
  let ?p = "cleaner_init (NodeInformation_init id ''a'' 1)"
  have "cleaner_proc_step By_Destructor ?p (?p\<lparr>m_destroyed := True, destructor_at := Flagged\<rparr>)"
    by (rule cleaner_proc_step.destructor) (simp add: destructor_step_def cleaner_init_def)
  then have "cleaner_steps ?p (?p\<lparr>m_destroyed := True, destructor_at := Flagged\<rparr>)" by (intro r_into_rtranclp exI)
  from cleaner_stops [OF _ this] show ?thesis by (simp add: NodeInformation_init_def ni_ok_def)
qed

text \<open>
  The notification can be lost. The destructor does not take the mutex of the condition variable: when it
  runs between the evaluation of the predicate and the wait, the cleaning thread waits although the flag is
  set and the notification is over, and nothing but the timer of 30 seconds or a wake-up without reason goes on.
\<close>

theorem cleaner_notification_lost:
  "\<exists>p. cleaner_steps (cleaner_init ni) p \<and> m_destroyed p \<and> destructor_at p = Notified \<and>
     (\<forall>a q. cleaner_proc_step a p q \<longrightarrow> a = By_Timer \<or> a = By_Spurious)"
proof -
  let ?p = "\<lambda>c. cleaner_init ni\<lparr>info := dataCleaner_pass (\<lambda>_. 0) ni, cleaner_at := c\<rparr>"
  let ?d = "\<lambda>c at. ?p c\<lparr>m_destroyed := True, destructor_at := at\<rparr>"
  have s1: "cleaner_proc_step By_Cleaner (cleaner_init ni) (cleaner_init ni\<lparr>cleaner_at := Cleaner_Clean\<rparr>)"
    by (rule cleaner_proc_step.cleaner) (simp add: cleaner_step_def cleaner_init_def)
  have s2: "cleaner_proc_step By_Cleaner (cleaner_init ni\<lparr>cleaner_at := Cleaner_Clean\<rparr>) (?p Cleaner_Check)"
    by (rule cleaner_proc_step.cleaner [where now = "\<lambda>_. 0"]) (simp add: cleaner_step_def cleaner_init_def)
  have s3: "cleaner_proc_step By_Cleaner (?p Cleaner_Check) (?p Cleaner_Block)"
    by (rule cleaner_proc_step.cleaner) (simp add: cleaner_step_def cleaner_init_def)
  have s4: "cleaner_proc_step By_Destructor (?p Cleaner_Block) (?d Cleaner_Block Flagged)"
    by (rule cleaner_proc_step.destructor) (simp add: destructor_step_def cleaner_init_def)
  have s5: "cleaner_proc_step By_Destructor (?d Cleaner_Block Flagged) (?d Cleaner_Block Notified)"
    by (rule cleaner_proc_step.destructor) (simp add: destructor_step_def cleaner_woken_def cleaner_init_def)
  have s6: "cleaner_proc_step By_Cleaner (?d Cleaner_Block Notified) (?d Cleaner_Waiting Notified)"
    by (rule cleaner_proc_step.cleaner) (simp add: cleaner_step_def cleaner_init_def)
  note chain = cleaner_steps_add(2)
  have "cleaner_steps (cleaner_init ni) (?d Cleaner_Waiting Notified)"
    by (rule chain [OF chain [OF chain [OF chain [OF chain [OF chain [OF rtranclp.rtrancl_refl s1] s2] s3] s4] s5] s6])
  moreover have "a = By_Timer \<or> a = By_Spurious" if "cleaner_proc_step a (?d Cleaner_Waiting Notified) q" for a q
    using that by (cases rule: cleaner_proc_step.cases) (simp_all add: cleaner_step_def destructor_step_def)
  ultimately show ?thesis by (intro exI [of _ "?d Cleaner_Waiting Notified"]) (auto simp: cleaner_init_def)
qed

end
