(* ===== verification/Dumps.thy ===== *)
theory Dumps
  imports Util
begin

text \<open>
  The dumps of \<open>src/src/util\<close> that write to a stream or reread a printed hash (\<open>util.cpp\<close>,
  \<open>HexDump64ToHexDump32\<close>). The stream keeps its format flags: they are restored at the end.
\<close>

section \<open>Definitions\<close>

definition hexdump_line :: "bytes \<Rightarrow> nat \<Rightarrow> nat \<Rightarrow> string" where
  "hexdump_line bs stride i =
     setw0 6 (hex_of_nat i) @ '': '' @
     concat (map (\<lambda>j. if i + j < length bs then setw0 2 (hex_of_nat (unat (bs ! (i + j)))) @ '' '' else ''   '') [0..<stride]) @
     '' '' @ concat (map (\<lambda>j. if i + j < length bs then [isprint_char (bs ! (i + j))] else []) [0..<stride]) @ [CHR 0x0A]"

function hexdump_lines :: "bytes \<Rightarrow> nat \<Rightarrow> nat \<Rightarrow> string" where
  "hexdump_lines bs stride i =
     (if i < length bs \<and> 0 < stride then hexdump_line bs stride i @ hexdump_lines bs stride (i + stride) else [])"
  by pat_completeness auto
termination
  by (relation "measure (\<lambda>(bs, stride, i). length bs - i)") auto

declare hexdump_lines.simps [simp del]

text \<open>\<open>None\<close>: a stride of 0 leaves the counter of the loop where it is.\<close>

definition hexdump_os :: "bytes \<Rightarrow> nat \<Rightarrow> string option" where
  "hexdump_os bs stride = (if stride = 0 \<and> bs \<noteq> [] then None else Some (hexdump_lines bs stride 0))"

text \<open>
  The first loop of \<open>HexDump64ToHexDump32\<close> runs to the length less one, which is a huge number for an empty
  container; the second reads 32 numbers from a text, two characters apart, without looking at its length.
\<close>

function hex_pairs :: "string \<Rightarrow> nat \<Rightarrow> string" where
  "hex_pairs bs i = (if i < length bs - 1 then [bs ! i, bs ! (i + 1)] @ hex_pairs bs (i + 2) else [])"
  by pat_completeness auto
termination
  by (relation "measure (\<lambda>(bs, i). length bs - i)") auto

declare hex_pairs.simps [simp del]

fun scan_pairs :: "string \<Rightarrow> nat \<Rightarrow> nat \<Rightarrow> unit result" where
  "scan_pairs sample 0 pos = Inr ()"
| "scan_pairs sample (Suc count) pos =
     (if length sample < pos then Inl (Undefined_Behaviour ''read past the end of a string'')
      else scan_pairs sample count (pos + 2))"

definition HexDump64ToHexDump32 :: "string \<Rightarrow> string result" where
  "HexDump64ToHexDump32 bs =
     (if bs = [] then Inl (Undefined_Behaviour ''index out of range'')
      else let sample = hex_pairs bs 0
           in case scan_pairs sample 32 0 of Inl e \<Rightarrow> Inl e | Inr u \<Rightarrow> Inr sample)"

section \<open>What the dumps print\<close>

lemma hexdump_lines_eq:
  "0 < stride \<Longrightarrow> hexdump_lines bs stride i =
     concat (map (\<lambda>n. hexdump_line bs stride (i + n * stride)) [0..<(length bs - i + stride - 1) div stride])"
proof (induction bs stride i rule: hexdump_lines.induct)
  case (1 bs stride i)
  show ?case
  proof (cases "i < length bs")
    case True
    have sum: "length bs - i + stride - 1 = (length bs - i - 1) + stride" using True 1(2) by simp
    have "(length bs - i + stride - 1) div stride = Suc ((length bs - i - 1) div stride)"
      unfolding sum using div_add_self2 [of stride "length bs - i - 1"] 1(2) by simp
    moreover have "(length bs - (i + stride) + stride - 1) div stride = (length bs - i - 1) div stride"
    proof (cases "i + stride \<le> length bs")
      case le: True
      then have "length bs - (i + stride) + stride - 1 = length bs - i - 1" by simp
      then show ?thesis by simp
    next
      case False
      then have "length bs - i - 1 < stride" "length bs - (i + stride) + stride - 1 < stride" using True 1(2) by auto
      then show ?thesis by simp
    qed
    moreover have "map (\<lambda>n. hexdump_line bs stride (i + n * stride)) [0..<Suc m] =
        hexdump_line bs stride i # map (\<lambda>n. hexdump_line bs stride (i + stride + n * stride)) [0..<m]" for m
      by (simp add: upt_conv_Cons map_Suc_upt [symmetric] algebra_simps del: upt_Suc)
    ultimately show ?thesis using 1 True by (subst hexdump_lines.simps) simp
  next
    case False
    then show ?thesis using 1(2) by (subst hexdump_lines.simps) simp
  qed
qed

lemma hex_pairs_eq: "hex_pairs bs i = take (2 * ((length bs - i) div 2)) (drop i bs)"
proof (induction bs i rule: hex_pairs.induct)
  case (1 bs i)
  show ?case
  proof (cases "i < length bs - 1")
    case True
    have half: "(length bs - i) div 2 = Suc ((length bs - (i + 2)) div 2)" using True by (simp add: div_if)
    have "drop i bs = bs ! i # bs ! (i + 1) # drop (i + 2) bs"
      using True by (simp add: Cons_nth_drop_Suc)
    then show ?thesis using 1 True half by (subst hex_pairs.simps) simp
  next
    case False
    then have "(length bs - i) div 2 = 0" by simp
    then show ?thesis using False by (subst hex_pairs.simps) simp
  qed
qed

lemma scan_pairs_eq:
  "scan_pairs sample count pos =
     (if count = 0 \<or> pos + 2 * (count - 1) \<le> length sample then Inr ()
      else Inl (Undefined_Behaviour ''read past the end of a string''))"
  by (induction sample count pos rule: scan_pairs.induct) auto

section \<open>Properties\<close>

text \<open>
  \<open>HexDump64ToHexDump32\<close> returns its argument, less the last character of an odd one; below 62
  characters it is undefined behaviour.
\<close>

theorem hexdump32_iff:
  "(62 \<le> length bs \<longrightarrow> HexDump64ToHexDump32 bs = Inr (take (2 * (length bs div 2)) bs)) \<and>
   (is_ub (HexDump64ToHexDump32 bs) \<longleftrightarrow> length bs < 62)"
proof (cases "bs = []")
  case False
  have "length (hex_pairs bs 0) = 2 * (length bs div 2)" by (simp add: hex_pairs_eq)
  moreover have "62 \<le> 2 * (length bs div 2) \<longleftrightarrow> 62 \<le> length bs" by auto
  ultimately show ?thesis using False by (auto simp: HexDump64ToHexDump32_def scan_pairs_eq hex_pairs_eq)
qed (simp add: HexDump64ToHexDump32_def)

text \<open>The dump to a stream ends unless the stride is 0, with one line for every \<open>stride\<close> bytes begun.\<close>

theorem hexdump_os_lines:
  assumes "0 < stride"
  shows "hexdump_os bs stride =
    Some (concat (map (\<lambda>n. hexdump_line bs stride (n * stride)) [0..<(length bs + stride - 1) div stride]))"
  using assms by (simp add: hexdump_os_def hexdump_lines_eq)

end
