(* ===== verification/Shell.thy ===== *)
theory Shell
  imports Config "HOL-Library.While_Combinator"
begin

text \<open>
  \<open>src/src/entry\<close>: the shell that runs the peers of a process. \<open>Entry\<close> keeps the peers and the scripts
  it is reading; a command is a function from its arguments and the state to the new state, what it
  prints, and the exception it ends with, if any. Text is kept as it is where the sources build it with
  plain strings; tables are kept as their entries, because their layout is up to the formatting library.
  Files, free ports, the terminal and the reading of floating point numbers are the record \<open>world\<close>.
  The peers work on in their own threads; what they do to their states between two commands is a
  function of \<open>world\<close> too, of the moment and the position of the peer, and so is whether a peer has come
  to a state in which destroying it does not return (\<open>hung\<close> of \<open>Process\<close> says which these are).
\<close>

section \<open>Definitions\<close>

subsection \<open>State\<close>

text \<open>
  A \<open>Dht\<close> object as the shell has it: the address of the peer whose state it was given, the port of its
  client interface if that could be bound, and whether its destructor would wait for ever.
\<close>

record Dht_object =
  dht_node :: "string \<times> u16"
  dht_api :: "u16 option"
  dht_hung :: bool

record Entry =
  m_nodes :: "NodeInformation list"
  m_DHTs :: "Dht_object list"
  m_conf :: Configuration
  m_lastEnteredCommand :: string
  isRepeatSet :: bool
  m_input_files :: "string list list"
  m_input_filenames :: "string list"
  statics :: NodeStatics

text \<open>
  The lines of a file if it can be opened; what \<open>bind\<close> complains about when a port is taken; whether
  standard input is a terminal; the sign and the text of a number read as \<open>float\<close>, and whether a thousand
  times the number is below \<open>2 ^ 64\<close>; the hash function; the order in which the unordered map of the
  commands is walked; the work of the peers, and which of them have come to hang.
\<close>

record world =
  w_files :: "string \<Rightarrow> string list option"
  w_bind :: "u16 \<Rightarrow> string option"
  w_tty :: bool
  w_float_negative :: "string \<Rightarrow> bool"
  w_float_text :: "string \<Rightarrow> string"
  w_float_fits :: "string \<Rightarrow> bool"
  w_hash :: "bytes \<Rightarrow> bytes"
  w_order :: "(string \<times> string \<times> string) list \<Rightarrow> (string \<times> string \<times> string) list"
  w_work :: "nat \<Rightarrow> nat \<Rightarrow> NodeInformation \<Rightarrow> NodeInformation"
  w_hangs :: "nat \<Rightarrow> nat \<Rightarrow> bool"

datatype shell_out =
    Text string
  | Error_Text string
  | Echo "string list" string
  | Executing_Script string
  | Script_Finished "string list"
  | Prompt
  | Command_Line string string
  | Node_Line nat Node
  | Node_Details nat Node string "Node option" "Node option" "Node option"
  | Data_Line nat string
  | Finger_Line nat "Node option"
  | Star

text \<open>A command: the message of an exception if it throws one, the new state, and the output.\<close>

type_synonym command = "string list \<Rightarrow> Entry \<Rightarrow> (string option \<times> Entry \<times> shell_out list) result"

definition throws :: "string \<Rightarrow> Entry \<Rightarrow> (string option \<times> Entry \<times> shell_out list) result" where
  "throws msg e = Inr (Some msg, e, [])"

definition prints :: "shell_out list \<Rightarrow> Entry \<Rightarrow> (string option \<times> Entry \<times> shell_out list) result" where
  "prints os e = Inr (None, e, os)"

subsection \<open>Starting peers\<close>

definition new_node :: "world \<Rightarrow> Configuration \<Rightarrow> u16 \<Rightarrow> NodeInformation" where
  "new_node w conf port =
     setBootstrapNode (Some (mkNode (w_hash w) (bootstrapNode_address conf) (bootstrapNode_port conf)))
       (NodeInformation_init (w_hash w) (p2p_address conf) port)"

definition new_dht :: "NodeInformation \<Rightarrow> u16 option \<Rightarrow> Dht_object" where
  "new_dht node api = \<lparr>dht_node = (NI_getIp node, NI_getPort node), dht_api = api, dht_hung = False\<rparr>"

text \<open>The loop of the constructor: \<open>n\<close> peers are left to start. A server that cannot be bound throws.\<close>

fun start_nodes :: "world \<Rightarrow> ConfigStatics \<Rightarrow> nat \<Rightarrow> nat \<Rightarrow> u16 \<Rightarrow> u16 \<Rightarrow> Entry \<Rightarrow> Entry result" where
  "start_nodes w cst 0 i dport aport e = Inr e"
| "start_nodes w cst (Suc n) i dport aport e =
     (let e = e\<lparr>m_nodes := m_nodes e @ [new_node w (m_conf e) dport]\<rparr>;
          e = (if i = 0
               then e\<lparr>statics := setReplicationLimitOnEachNode (defaultReplicationLimit cst)
                        (setDifficulty (PoW_Difficulty cst) (statics e))\<rparr>
               else e)
      in case w_bind w aport of
           Some msg \<Rightarrow> Inl (Runtime_Error msg)
         | None \<Rightarrow> start_nodes w cst n (i + 1) (dport + 1) (aport + 1) (e\<lparr>m_DHTs := m_DHTs e @ [new_dht (last (m_nodes e)) (Some aport)]\<rparr>))"

definition Entry_empty :: "Configuration \<Rightarrow> NodeStatics \<Rightarrow> Entry" where
  "Entry_empty conf st =
     \<lparr>m_nodes = [], m_DHTs = [], m_conf = conf, m_lastEnteredCommand = [], isRepeatSet = False, m_input_files = [],
      m_input_filenames = [], statics = st\<rparr>"

definition Entry_init :: "world \<Rightarrow> ConfigStatics \<Rightarrow> Configuration \<Rightarrow> NodeStatics \<Rightarrow> Entry result" where
  "Entry_init w cst conf st =
     start_nodes w cst (unat (node_amount conf)) 0 (p2p_port conf) (api_port conf) (Entry_empty conf st)"

text \<open>The destructor waits for the destructors of all \<open>Dht\<close> objects. \<open>None\<close>: one of them does not return.\<close>

definition Entry_destroy :: "Entry \<Rightarrow> Entry option" where
  "Entry_destroy e = (if list_ex dht_hung (m_DHTs e) then None else Some (e\<lparr>m_DHTs := [], m_nodes := []\<rparr>))"

text \<open>
  The port is computed in \<open>int\<close> and stored in 16 bits, as is the port of the server; the printed one is
  not cut. The peer is kept when its server cannot be bound.
\<close>

definition addNode :: "world \<Rightarrow> u16 option \<Rightarrow> Entry \<Rightarrow> (string option \<times> Entry \<times> shell_out list) result" where
  "addNode w portParam e =
     (case (case portParam of
              Some p \<Rightarrow> Inr p
            | None \<Rightarrow> if m_nodes e = [] then Inl (Undefined_Behaviour ''back of an empty vector'')
                      else Inr (NI_getPort (last (m_nodes e)) + 1)) of
        Inl err \<Rightarrow> Inl err
      | Inr port \<Rightarrow>
          (let node = new_node w (m_conf e) port;
               e = e\<lparr>m_nodes := m_nodes e @ [node]\<rparr>;
               apiPort = port + 1000
           in case w_bind w apiPort of
                Some msg \<Rightarrow> Inr (Some msg, e\<lparr>m_DHTs := m_DHTs e @ [new_dht node None]\<rparr>, [])
              | None \<Rightarrow>
                  prints [Text (''Details of new node = '' @ [CHR 0x0A] @ ''1. P2P address - '' @ NI_getIp node @ '':'' @
                                to_string_nat (unat port) @ [CHR 0x0A] @ ''2. API port - '' @
                                to_string_nat (unat port + 1000) @ [CHR 0x0A])]
                    (e\<lparr>m_DHTs := m_DHTs e @ [new_dht node (Some apiPort)]\<rparr>)))"

subsection \<open>Paths\<close>

definition parent_path :: "string \<Rightarrow> string" where
  "parent_path p =
     (if list_all (\<lambda>c. c = CHR ''/'') p then p
      else let d = rev (dropWhile (\<lambda>c. c = CHR ''/'') (dropWhile (\<lambda>c. c \<noteq> CHR ''/'') (rev p)))
           in if d = [] \<and> take 1 p = ''/'' then ''/'' else d)"

definition path_append :: "string \<Rightarrow> string \<Rightarrow> string" where
  "path_append p q =
     (if take 1 q = ''/'' then q
      else if p \<noteq> [] \<and> last p \<noteq> CHR ''/'' then p @ ''/'' @ q
      else p @ q)"

subsection \<open>Commands\<close>

definition format_argument_choice :: "string \<Rightarrow> string list \<Rightarrow> string" where
  "format_argument_choice metavar choices =
     replicate (8 - length metavar) (CHR '' '') @ metavar @ '':    {'' @ join choices '', '' @ ''}''"

text \<open>Name, brief description and usage of the commands, in the order of the sources.\<close>

definition command_infos :: "(string \<times> string \<times> string) list" where
  "command_infos =
     [(''help'', ''Print help for a command'', ''help [COMMAND]''),
      (''exit'', ''Exit the program'', ''exit''),
      (''sleep'', ''Wait some time before accepting new input'', ''sleep <SECONDS>''),
      (''repeat'', ''Repeat the previous command'', ''repeat''),
      (''execute'', ''Execute a script'', ''execute <PATH>''),
      (''add'', ''Add node to the chord ring'', ''add [PORT]''),
      (''remove'', ''Remove node(s) from the chord ring'', ''remove <INDEX> [COUNT]''),
      (''show'', ''Show data depending on arguments'',
       ''show <WHAT> [ARGS...]'' @ [CHR 0x0A, CHR 0x0A] @ format_argument_choice ''WHAT'' [''nodes'', ''data'', ''fingers'']),
      (''show:nodes'', ''List all Nodes, or information of one Node'', ''show nodes [INDEX]''),
      (''show:data'', ''List all data items contained in Node'', ''show nodes [INDEX]''),
      (''show:fingers'', ''Show finger table of a node'', ''show fingers <INDEX>'')]"

definition cmd_help :: "world \<Rightarrow> command" where
  "cmd_help w args e =
     (if args = []
      then prints (Text (''Commands:'' @ [CHR 0x0A]) #
                   map (\<lambda>(name, brief, usage). Command_Line name brief)
                     (filter (\<lambda>(name, info). CHR '':'' \<notin> set name) (w_order w command_infos))) e
      else let str = join args '':''
           in case map_of command_infos str of
                Some (brief, usage) \<Rightarrow> prints [Text (brief @ [CHR 0x0A, CHR 0x0A] @ ''Usage:'' @ [CHR 0x0A] @ usage @ [CHR 0x0A])] e
              | None \<Rightarrow> throws (''Command '' @ [CHR 0x22] @ str @ [CHR 0x22] @ '' not found!'') e)"

definition cmd_exit :: command where
  "cmd_exit args e = (if args \<noteq> [] then throws ''No arguments expected!'' e else prints [Text (''Shutting down...'' @ [CHR 0x0A])] e)"

text \<open>
  The time a command waits does not show in the model. The conversion of a floating point number that is
  too large for \<open>size_t\<close> is undefined.
\<close>

definition cmd_sleep :: "world \<Rightarrow> command" where
  "cmd_sleep w args e =
     (if args = [] \<or> \<not> (case regex_match number_re (hd args) of Some ca \<Rightarrow> capture ca 1 \<noteq> [] | None \<Rightarrow> False)
      then throws ''SECONDS required!'' e
      else if w_float_negative w (hd args) then throws (''Invalid interval: '' @ w_float_text w (hd args)) e
      else if \<not> w_float_fits w (hd args) then Inl (Undefined_Behaviour ''conversion of a float out of range'')
      else prints [] e)"

definition cmd_repeat :: command where
  "cmd_repeat args e = prints [] (e\<lparr>isRepeatSet := True\<rparr>)"

definition cmd_execute :: "world \<Rightarrow> command" where
  "cmd_execute w args e =
     (if args = [] then throws ''PATH required!'' e
      else if 64 \<le> length (m_input_files e) then throws ''Recursion depth reached!'' e
      else let path = (if m_input_filenames e \<noteq> []
                       then path_append (parent_path (last (m_input_filenames e))) (hd args) else hd args)
           in case w_files w path of
                None \<Rightarrow> throws (''Could not open '' @ path) e
              | Some ls \<Rightarrow>
                  prints [] (e\<lparr>m_input_files := ls # m_input_files e, m_input_filenames := m_input_filenames e @ [path],
                              m_lastEnteredCommand := []\<rparr>))"

definition cmd_add :: "world \<Rightarrow> command" where
  "cmd_add w args e =
     (if args \<noteq> []
      then (case parse_number (hd args) of Some port \<Rightarrow> addNode w (Some port) e | None \<Rightarrow> addNode w None e)
      else addNode w None e)"

text \<open>The objects in the range are destroyed, and waited for, before the range is erased.\<close>

definition erase_nodes :: "nat \<Rightarrow> nat \<Rightarrow> Entry \<Rightarrow> (string option \<times> Entry \<times> shell_out list) result" where
  "erase_nodes i n e =
     (if length (m_DHTs e) < i + n \<or> length (m_nodes e) < i + n
      then Inl (Undefined_Behaviour ''iterator range outside the vector'')
      else if list_ex dht_hung (take n (drop i (m_DHTs e))) then Inl Never_Returns
      else prints [] (e\<lparr>m_DHTs := take i (m_DHTs e) @ drop (i + n) (m_DHTs e),
                       m_nodes := take i (m_nodes e) @ drop (i + n) (m_nodes e)\<rparr>))"

text \<open>The bound of the count is tested on a sum of 32 bits.\<close>

definition cmd_remove :: command where
  "cmd_remove args e =
     (case (if args \<noteq> [] then parse_number (hd args) else None :: u32 option) of
        None \<Rightarrow> throws ''INDEX required!'' e
      | Some index \<Rightarrow>
          if length (m_nodes e) \<le> unat index
          then throws (''Index ['' @ to_string_nat (unat index) @ ''] out of bounds!'') e
          else (case (if 1 < length args then parse_number (args ! 1) else None :: u32 option) of
                  Some c \<Rightarrow>
                    if length (m_nodes e) < unat (index + c)
                    then throws (''Count ['' @ to_string_nat (unat c) @ ''] out of bounds!'') e
                    else erase_nodes (unat index) (unat c) e
                | None \<Rightarrow> erase_nodes (unat index) 1 e))"

text \<open>
  \<open>Entry::execute\<close> with the commands \<open>cmds\<close>: an exception is printed, as is the name of a command that
  is not there, with its first colon replaced.
\<close>

fun replace_colon :: "string \<Rightarrow> string" where
  "replace_colon [] = []"
| "replace_colon (c # cs) = (if c = CHR '':'' then CHR '' '' # cs else c # replace_colon cs)"

definition execute_in :: "(string \<Rightarrow> command option) \<Rightarrow> string list \<Rightarrow> Entry \<Rightarrow> (Entry \<times> shell_out list) result" where
  "execute_in cmds args e =
     (case args of
        [] \<Rightarrow> Inl (Undefined_Behaviour ''front of an empty vector'')
      | cmd # rest \<Rightarrow>
          (case cmds cmd of
             Some f \<Rightarrow>
               (case f rest e of
                  Inl err \<Rightarrow> Inl err
                | Inr (thrown, e', os) \<Rightarrow> Inr (e', os @ (case thrown of Some msg \<Rightarrow> [Error_Text msg] | None \<Rightarrow> [])))
           | None \<Rightarrow> Inr (e, [Error_Text (''Command '' @ [CHR 0x22] @ replace_colon cmd @ [CHR 0x22] @ '' not found!'')])))"

text \<open>The commands that call \<open>execute\<close> again take it as the argument \<open>ex\<close>.\<close>

type_synonym executor = "string list \<Rightarrow> Entry \<Rightarrow> (Entry \<times> shell_out list) result"

definition no_throw :: "(Entry \<times> shell_out list) result \<Rightarrow> (string option \<times> Entry \<times> shell_out list) result" where
  "no_throw r = (case r of Inl err \<Rightarrow> Inl err | Inr (e, os) \<Rightarrow> Inr (None, e, os))"

definition cmd_show :: "executor \<Rightarrow> command" where
  "cmd_show ex args e =
     (if args = [] then throws ''Argument required: WHAT'' e
      else no_throw (ex ((''show:'' @ to_lower (hd args)) # tl args) e))"

definition cmd_show_nodes :: "world \<Rightarrow> executor \<Rightarrow> command" where
  "cmd_show_nodes w ex args e =
     (if args \<noteq> [] \<and> hd args = ''data''
      then no_throw (ex ((''show:nodes:'' @ to_lower (hd args)) # tl args) e)
      else case (if args \<noteq> [] then parse_number (hd args) else None :: u32 option) of
             Some index \<Rightarrow>
               if length (m_nodes e) \<le> unat index
               then throws (''Index ['' @ to_string_nat (unat index) @ ''] out of bounds!'') e
               else let node = m_nodes e ! unat index
                    in prints [Node_Details (unat index) (getNode node)
                         (case hexdump (NI_getId (w_hash w) node) 32 False False of Some str \<Rightarrow> str | None \<Rightarrow> [])
                         (getSuccessor node) (getPredecessor node) (getBootstrapNode node)] e
           | None \<Rightarrow> prints (map (\<lambda>i. Node_Line i (getNode (m_nodes e ! i))) [0..<length (m_nodes e)]) e)"

definition highlighter :: string where
  "highlighter = replicate 39 (CHR ''='')"

definition cmd_show_data :: "world \<Rightarrow> executor \<Rightarrow> command" where
  "cmd_show_data w ex args e =
     (if args \<noteq> []
      then (case (parse_number (hd args) :: u32 option) of
              Some index \<Rightarrow>
                if length (m_nodes e) \<le> unat index then Inl (Undefined_Behaviour ''index outside the vector'')
                else let dataInNode = getAllDataInNode (m_nodes e ! unat index)
                     in (case ex [''show'', ''nodes'', to_string_nat (unat index)] e of
                           Inl err \<Rightarrow> Inl err
                         | Inr (e', os) \<Rightarrow>
                             prints (os @ [Text ([CHR 0x0A] @ highlighter @ [CHR 0x0A])] @
                               (if dataInNode \<noteq> []
                                then [Text (''Data items in node:'' @ [CHR 0x0A])] @
                                     map (\<lambda>(i, k, v). Data_Line i
                                       (case hexdump (w_hash w k) 32 False False of Some str \<Rightarrow> str | None \<Rightarrow> []))
                                       (enumerate 1 dataInNode)
                                else [Text (''No data items stored in node '' @ to_string_nat (unat index) @ [CHR 0x0A])]) @
                               [Text (highlighter @ [CHR 0x0A])]) e')
            | None \<Rightarrow> prints [] e)
      else prints [Text ''INDEX required!''] e)"

text \<open>Comparison of optional nodes, and the loop over the fingers from index \<open>i\<close>.\<close>

definition opt_node_eq :: "(bytes \<Rightarrow> bytes) \<Rightarrow> Node option \<Rightarrow> Node option \<Rightarrow> bool" where
  "opt_node_eq h a b = (case (a, b) of (Some m, Some n) \<Rightarrow> node_eq h m n | (None, None) \<Rightarrow> True | _ \<Rightarrow> False)"

fun finger_lines :: "(bytes \<Rightarrow> bytes) \<Rightarrow> nat \<Rightarrow> Node option option \<Rightarrow> bool \<Rightarrow> Node option list \<Rightarrow> shell_out list" where
  "finger_lines h i last_finger printed_star [] = []"
| "finger_lines h i last_finger printed_star (finger # fs) =
     (let next_finger = (case fs of [] \<Rightarrow> None | g # _ \<Rightarrow> Some g)
      in if (case (next_finger, last_finger) of
               (Some n, Some l) \<Rightarrow> opt_node_eq h l finger \<and> opt_node_eq h n finger | _ \<Rightarrow> False)
         then (if \<not> printed_star then [Star] else []) @ finger_lines h (i + 1) (Some finger) True fs
         else Finger_Line i finger # finger_lines h (i + 1) (Some finger) False fs)"

definition cmd_show_fingers :: "world \<Rightarrow> command" where
  "cmd_show_fingers w args e =
     (case (if args \<noteq> [] then parse_number (hd args) else None :: u32 option) of
        None \<Rightarrow> throws ''INDEX required!'' e
      | Some index \<Rightarrow>
          if length (m_nodes e) \<le> unat index
          then throws (''Index ['' @ to_string_nat (unat index) @ ''] out of bounds!'') e
          else prints (finger_lines (w_hash w) 0 None False (m_fingerTable (m_nodes e ! unat index))) e)"

text \<open>
  \<open>m_commands\<close>. Commands call \<open>execute\<close> again, to a depth of at most four calls (\<open>show data\<close> shows the
  node, which is \<open>show nodes\<close>); \<open>n\<close> bounds the depth, and four is enough.
\<close>

fun commands :: "world \<Rightarrow> nat \<Rightarrow> string \<Rightarrow> command option" where
  "commands w 0 name = None"
| "commands w (Suc n) name =
     (if name = ''help'' then Some (cmd_help w)
      else if name = ''exit'' then Some cmd_exit
      else if name = ''sleep'' then Some (cmd_sleep w)
      else if name = ''repeat'' then Some cmd_repeat
      else if name = ''execute'' then Some (cmd_execute w)
      else if name = ''add'' then Some (cmd_add w)
      else if name = ''remove'' then Some cmd_remove
      else if name = ''show'' then Some (cmd_show (execute_in (commands w n)))
      else if name = ''show:nodes'' then Some (cmd_show_nodes w (execute_in (commands w n)))
      else if name = ''show:data'' then Some (cmd_show_data w (execute_in (commands w n)))
      else if name = ''show:fingers'' then Some (cmd_show_fingers w)
      else None)"

definition execute :: "world \<Rightarrow> string list \<Rightarrow> Entry \<Rightarrow> (Entry \<times> shell_out list) result" where
  "execute w = execute_in (commands w 4)"

subsection \<open>The main loop\<close>

definition comment_re :: regex where
  "comment_re = RSeq (rchr (CHR ''#'')) (RStar (RClass (\<lambda>c. c \<noteq> CHR 0x0A \<and> c \<noteq> CHR 0x0D)))"

definition is_word :: "char \<Rightarrow> bool" where
  "is_word c = (c \<notin> {CHR '' '', CHR 0x0A, CHR 0x0D, CHR 0x09, CHR ''['', CHR '']''})"

definition bracket_re :: regex where
  "bracket_re = RSeq (rchr (CHR ''['')) (RSeq (RStar (RClass (\<lambda>c. c \<noteq> CHR '']''))) (rchr (CHR '']'')))"

definition token_re :: regex where
  "token_re = RAlt bracket_re (rplus (RClass is_word))"

definition tokenize :: "string \<Rightarrow> string list" where
  "tokenize line = regex_all token_re line"

record shell =
  entry :: Entry
  stdin :: "string list"
  printed :: "shell_out list"
  halted :: bool

text \<open>What the peers have done when the next command starts; a peer that hangs does so for good.\<close>

definition peers_work :: "world \<Rightarrow> nat \<Rightarrow> Entry \<Rightarrow> Entry" where
  "peers_work w t e =
     e\<lparr>m_nodes := map (\<lambda>(i, ni). w_work w t i ni) (enumerate 0 (m_nodes e)),
       m_DHTs := map (\<lambda>(i, d). d\<lparr>dht_hung := (dht_hung d \<or> w_hangs w t i)\<rparr>) (enumerate 0 (m_DHTs e))\<rparr>"

text \<open>The part of a round that runs a line: tokens, echo, the line to repeat, and the command.\<close>

definition run_line :: "world \<Rightarrow> string \<Rightarrow> shell \<Rightarrow> shell result" where
  "run_line w line s =
     (let tokens = tokenize line; e = entry s
      in if tokens = [] then Inr s
         else let echo = (if \<not> w_tty w \<or> m_input_files e \<noteq> [] then [Echo (m_input_filenames e) line] else []);
                  e = (if hd tokens \<noteq> ''repeat'' then e\<lparr>m_lastEnteredCommand := line\<rparr> else e);
                  e = e\<lparr>isRepeatSet := False\<rparr>
              in case execute w tokens (peers_work w (length (printed s)) e) of
                   Inl err \<Rightarrow> Inl err
                 | Inr (e', os) \<Rightarrow>
                     Inr (s\<lparr>entry := e', printed := printed s @ echo @ os @ [Text [CHR 0x0A]], halted := (line = ''exit'')\<rparr>))"

definition shell_round :: "world \<Rightarrow> shell \<Rightarrow> shell result" where
  "shell_round w s =
     (let e = entry s
      in if isRepeatSet e \<and> m_lastEnteredCommand e = []
         then Inr (s\<lparr>entry := e\<lparr>isRepeatSet := False\<rparr>,
                     printed := printed s @ [Text (''repeat cannot be the first command. Enter any other command.'' @ [CHR 0x0A])]\<rparr>)
         else let s = s\<lparr>printed := printed s @ [Prompt]\<rparr>
              in if isRepeatSet e then run_line w (m_lastEnteredCommand e) s
                 else case m_input_files e of
                        [] \<Rightarrow>
                          (case stdin s of
                             [] \<Rightarrow> Inr (s\<lparr>halted := True\<rparr>)
                           | l # ls \<Rightarrow> run_line w (regex_remove comment_re l) (s\<lparr>stdin := ls\<rparr>))
                      | [] # fs \<Rightarrow>
                          Inr (s\<lparr>entry := e\<lparr>m_lastEnteredCommand := ''execute '' @ last (m_input_filenames e),
                                           m_input_files := fs, m_input_filenames := butlast (m_input_filenames e)\<rparr>,
                                 printed := printed s @ [Script_Finished (m_input_filenames e)]\<rparr>)
                      | (l # ls) # fs \<Rightarrow>
                          run_line w (regex_remove comment_re l) (s\<lparr>entry := e\<lparr>m_input_files := ls # fs\<rparr>\<rparr>))"

definition running :: "shell result \<Rightarrow> bool" where
  "running r = (case r of Inr s \<Rightarrow> \<not> halted s | Inl err \<Rightarrow> False)"

definition next_round :: "world \<Rightarrow> shell result \<Rightarrow> shell result" where
  "next_round w r = (case r of Inr s \<Rightarrow> shell_round w s | Inl err \<Rightarrow> Inl err)"

definition start_script :: "world \<Rightarrow> Entry \<Rightarrow> (Entry \<times> shell_out list) result" where
  "start_script w e =
     (case startup_script (m_conf e) of
        Some path \<Rightarrow> if path \<noteq> [] then map_sum id (\<lambda>(e', os). (e', Executing_Script path # os)) (execute w [''execute'', path] e)
                     else Inr (e, [])
      | None \<Rightarrow> Inr (e, []))"

text \<open>\<open>None\<close>: the loop does not end.\<close>

definition Entry_mainLoop :: "world \<Rightarrow> string list \<Rightarrow> Entry \<Rightarrow> shell result option" where
  "Entry_mainLoop w lines e =
     while_option running (next_round w)
       (map_sum id (\<lambda>(e', os). \<lparr>entry = e', stdin = lines, printed = os, halted = False\<rparr>) (start_script w e))"

text \<open>
  \<open>main\<close> of \<open>src/src/dht-4.cpp\<close> after the options are parsed: the settings, the shell, its main loop and
  its destructor. The output of an exception is that of the run-time system. \<open>None\<close>: the program does not end.
\<close>

definition dht4_main ::
    "world \<Rightarrow> (string \<Rightarrow> ini) \<Rightarrow> Config.Options \<Rightarrow> string list \<Rightarrow> (Entry \<times> shell_out list) result option" where
  "dht4_main w files opts lines =
     (let (conf, cst) = main_settings files opts
      in case Entry_init w cst conf statics_init of
           Inl err \<Rightarrow> Some (Inl err)
         | Inr e \<Rightarrow>
             (case Entry_mainLoop w lines e of
                None \<Rightarrow> None
              | Some (Inl err) \<Rightarrow> if err = Never_Returns then None else Some (Inl err)
              | Some (Inr s) \<Rightarrow>
                  map_option (\<lambda>e'. Inr (e', printed s)) (Entry_destroy (peers_work w (length (printed s)) (entry s)))))"

subsection \<open>Vocabulary of the specifications\<close>

text \<open>
  The words of a line by a scanner that looks at one character at a time: a bracket with the next closing
  one and everything between them, or as many characters as possible that are neither blanks nor brackets.
\<close>

function scan :: "string \<Rightarrow> string list" where
  "scan [] = []"
| "scan (c # s) =
     (if c = CHR ''['' \<and> CHR '']'' \<in> set s
      then (CHR ''['' # takeWhile (\<lambda>x. x \<noteq> CHR '']'') s @ '']'') # scan (drop 1 (dropWhile (\<lambda>x. x \<noteq> CHR '']'') s))
      else if is_word c then (c # takeWhile is_word s) # scan (dropWhile is_word s)
      else scan s)"
  by pat_completeness auto
termination
  by (relation "measure length") (auto simp: less_Suc_eq_le le_diff_conv intro: order_trans [OF length_dropWhile_le])

text \<open>
  The part of the state that the main loop depends on. A command leaves it as it is, except that \<open>repeat\<close>
  sets the flag and \<open>execute\<close> opens a file, below the greatest depth.
\<close>

definition keeps_input :: "Entry \<Rightarrow> Entry \<Rightarrow> bool" where
  "keeps_input e e' \<longleftrightarrow> m_input_files e' = m_input_files e \<and> m_input_filenames e' = m_input_filenames e \<and>
     m_lastEnteredCommand e' = m_lastEnteredCommand e \<and> isRepeatSet e' = isRepeatSet e"

definition opens_file :: "Entry \<Rightarrow> Entry \<Rightarrow> bool" where
  "opens_file e e' \<longleftrightarrow> length (m_input_files e) < 64 \<and> (\<exists>ls. m_input_files e' = ls # m_input_files e) \<and>
     (\<exists>path. m_input_filenames e' = m_input_filenames e @ [path]) \<and> m_lastEnteredCommand e' = [] \<and>
     isRepeatSet e' = isRepeatSet e"

text \<open>
  What every state of the shell satisfies: at most 64 scripts are open, each has its name, and the line
  to repeat is empty or has a command other than \<open>repeat\<close>.
\<close>

definition shell_ok :: "shell \<Rightarrow> bool" where
  "shell_ok s \<longleftrightarrow>
     (let e = entry s
      in length (m_input_files e) \<le> 64 \<and> length (m_input_filenames e) = length (m_input_files e) \<and>
         (m_lastEnteredCommand e \<noteq> [] \<longrightarrow>
            tokenize (m_lastEnteredCommand e) \<noteq> [] \<and> hd (tokenize (m_lastEnteredCommand e)) \<noteq> ''repeat''))"

text \<open>
  How much input is left at each depth: twice the lines that are left, one more while the script is open,
  and one more for a line that is to be repeated there.
\<close>

definition level :: "shell \<Rightarrow> nat \<Rightarrow> nat" where
  "level s j =
     (let e = entry s; d = length (m_input_files e)
      in if j \<le> d
         then 2 * length ((stdin s # rev (m_input_files e)) ! j) + 1 + (if j = d \<and> isRepeatSet e then 1 else 0)
         else 0)"

section \<open>The words of a line\<close>

lemma lang_bracket:
  "lang bracket_re u \<longleftrightarrow>
     (\<exists>x. u = CHR ''['' # x @ '']'' \<and> CHR '']'' \<notin> set x)"
proof -
  have "lang (RSeq (RStar (RClass (\<lambda>c. c \<noteq> CHR '']''))) (rchr (CHR '']''))) v \<longleftrightarrow> (\<exists>x. v = x @ '']'' \<and> CHR '']'' \<notin> set x)" for v
    by (auto simp: lang_simps(3) lang_chr lang_class_star list_all_iff)
  then show ?thesis unfolding bracket_re_def lang_simps(3) [of "rchr _"] lang_chr by auto
qed

lemma bracket_no_group: "\<not> has_group bracket_re"
  by (simp add: bracket_re_def rchr_def)

lemma ways_bracket:
  "CHR '']'' \<notin> set x \<Longrightarrow>
     \<exists>ws. ways bracket_re (CHR ''['' # x @ CHR '']'' # t) =
       (CHR ''['' # x @ '']'', t, []) # ws"
proof -
  assume x: "CHR '']'' \<notin> set x"
  have tw: "takeWhile (\<lambda>c. c \<noteq> CHR '']'') (y @ CHR '']'' # w) = y" if "CHR '']'' \<notin> set y" for y w
    using that by (induction y) auto
  have "y = x" if "CHR '']'' \<notin> set y" "(CHR ''['' # y @ '']'') @ w = (CHR ''['' # x @ '']'') @ t" for y w
    using that tw [OF that(1), of w] tw [OF x, of t] by simp
  then have "\<exists>ws. ways bracket_re ((CHR ''['' # x @ '']'') @ t) = (CHR ''['' # x @ '']'', t, []) # ws"
    using x by (intro ways_unique) (auto simp: lang_bracket bracket_no_group)
  then show ?thesis by simp
qed

lemma ways_bracket_none: "c \<noteq> CHR ''['' \<or> CHR '']'' \<notin> set s \<Longrightarrow> ways bracket_re (c # s) = []"
  by (rule ways_none) (auto simp: lang_bracket bracket_no_group)

lemma not_word [simp]: "\<not> is_word (CHR ''['')" "\<not> is_word (CHR '']'')" "\<not> is_word (CHR '' '')"
  by (simp_all add: is_word_def)

lemma token_empty: "\<not> lang token_re []"
  unfolding token_re_def lang_simps(4) lang_bracket lang_class_plus by simp

lemma split_at: "c \<in> set s \<Longrightarrow> s = takeWhile (\<lambda>x. x \<noteq> c) s @ c # drop 1 (dropWhile (\<lambda>x. x \<noteq> c) s)"
  by (induction s) auto

lemma tokenize_scan: "tokenize s = scan s"
proof (induction s rule: scan.induct)
  case 1
  show ?case by (simp add: tokenize_def regex_all_Nil token_re_def bracket_re_def ways_simps rplus_def rchr_def)
next
  case (2 c s)
  show ?case
  proof (cases "c = CHR ''['' \<and> CHR '']'' \<in> set s")
    case True
    let ?x = "takeWhile (\<lambda>x. x \<noteq> CHR '']'') s" and ?t = "drop 1 (dropWhile (\<lambda>x. x \<noteq> CHR '']'') s)"
    have "CHR '']'' \<notin> set ?x" by (auto dest: set_takeWhileD)
    from ways_bracket [OF this, of ?t] obtain ws where "ways token_re (c # s) = (CHR ''['' # ?x @ '']'', ?t, []) # ws"
      using split_at [of "CHR '']''" s] True by (auto simp: token_re_def ways_simps(4))
    from regex_all_hit [OF this] show ?thesis using 2(1) [OF True] True by (simp add: tokenize_def)
  next
    case not_bracket: False
    then have none: "ways bracket_re (c # s) = []"
      by (intro ways_bracket_none) auto
    show ?thesis
    proof (cases "is_word c")
      case True
      obtain ws where "ways token_re (c # s) = (c # takeWhile is_word s, dropWhile is_word s, []) # ws"
        using ways_class_plus [of is_word c s] True by (auto simp: token_re_def ways_simps(4) none)
      from regex_all_hit [OF this] show ?thesis using 2(2) [OF not_bracket True] not_bracket True by (auto simp: tokenize_def)
    next
      case False
      then have "ways token_re (c # s) = []"
        using ways_class_plus_none [of "c # s" is_word] by (simp add: token_re_def ways_simps(4) none)
      then show ?thesis
        using 2(3) [OF not_bracket False] not_bracket False regex_all_skip [OF _ token_empty] by (auto simp: tokenize_def)
    qed
  qed
qed

lemma join_rest_append: "join_rest ret d ss = ret @ concat (map (\<lambda>x. d @ x) ss)"
  by (induction ss arbitrary: ret) simp_all

lemma scan_word: "w \<noteq> [] \<Longrightarrow> list_all is_word w \<Longrightarrow> (\<And>c t. s = c # t \<Longrightarrow> \<not> is_word c) \<Longrightarrow> scan (w @ s) = w # scan s"
proof -
  assume w: "w \<noteq> []" "list_all is_word w" "\<And>c t. s = c # t \<Longrightarrow> \<not> is_word c"
  obtain c v where v: "w = c # v" using w(1) by (cases w) auto
  have "takeWhile is_word (v @ s) = v" "dropWhile is_word (v @ s) = s"
    using w(2,3) unfolding v by (cases s; auto simp: list_all_iff takeWhile_append dropWhile_append)+
  then show ?thesis using w(2) unfolding v by auto
qed

lemma scan_words:
  assumes "\<And>w. w \<in> set ws \<Longrightarrow> w \<noteq> [] \<and> list_all is_word w"
  shows "scan (join ws '' '') = ws"
proof (cases ws)
  case (Cons v vs)
  have blank: "\<not> is_word c" if "concat (map ((@) '' '') us) = c # t" for us c t
    using that by (cases us) auto
  have "scan (u @ concat (map ((@) '' '') us)) = u # us"
    if "\<And>w. w \<in> set (u # us) \<Longrightarrow> w \<noteq> [] \<and> list_all is_word w" for u us
    using that
  proof (induction us arbitrary: u)
    case Nil
    then show ?case using scan_word [of u "[]"] by simp
  next
    case (Cons x xs)
    have "scan (u @ concat (map ((@) '' '') (x # xs))) = u # scan (concat (map ((@) '' '') (x # xs)))"
      using Cons.prems [of u] blank [of "x # xs"] by (intro scan_word) auto
    also have "scan (concat (map ((@) '' '') (x # xs))) = scan (x @ concat (map ((@) '' '') xs))" by simp
    also have "\<dots> = x # xs" by (rule Cons.IH) (use Cons.prems in auto)
    finally show ?case .
  qed
  moreover have "(@) '' '' = (#) (CHR '' '')" by (rule ext) simp
  ultimately show ?thesis using assms unfolding Cons by (simp add: join_def join_rest_append)
qed (simp add: join_def)

section \<open>What commands change\<close>

lemma keeps_input_refl [simp]: "keeps_input e e"
  by (simp add: keeps_input_def)

lemmas out_defs = throws_def prints_def no_throw_def

lemma simple_commands_keep:
  "cmd_help w args e = Inr (x, e', os) \<Longrightarrow> keeps_input e e'"
  "cmd_exit args e = Inr (x, e', os) \<Longrightarrow> keeps_input e e'"
  "cmd_sleep w args e = Inr (x, e', os) \<Longrightarrow> keeps_input e e'"
  "cmd_show_fingers w args e = Inr (x, e', os) \<Longrightarrow> keeps_input e e'"
  by (auto simp: cmd_help_def cmd_exit_def cmd_sleep_def cmd_show_fingers_def out_defs Let_def
      split: if_splits option.splits prod.splits)

lemma node_commands_keep:
  "addNode w p e = Inr (x, e', os) \<Longrightarrow> keeps_input e e'"
  "erase_nodes i n e = Inr (x, e', os) \<Longrightarrow> keeps_input e e'"
  by (auto simp: addNode_def erase_nodes_def keeps_input_def out_defs Let_def split: if_splits option.splits sum.splits)

lemma cmd_add_keeps: "cmd_add w args e = Inr (x, e', os) \<Longrightarrow> keeps_input e e'"
  by (auto simp: cmd_add_def split: if_splits option.splits dest: node_commands_keep)

lemma cmd_remove_keeps: "cmd_remove args e = Inr (x, e', os) \<Longrightarrow> keeps_input e e'"
  by (auto simp: cmd_remove_def out_defs split: if_splits option.splits dest: node_commands_keep)

lemma cmd_execute_opens: "cmd_execute w args e = Inr (x, e', os) \<Longrightarrow> keeps_input e e' \<or> opens_file e e'"
  by (auto simp: cmd_execute_def opens_file_def out_defs Let_def split: if_splits option.splits)

lemma show_keeps:
  assumes "\<And>args e e' os. ex args e = Inr (e', os) \<Longrightarrow> hd args \<noteq> ''repeat'' \<Longrightarrow> hd args \<noteq> ''execute'' \<Longrightarrow> keeps_input e e'"
  shows "cmd_show ex args e = Inr (x, e', os) \<Longrightarrow> keeps_input e e'"
    "cmd_show_nodes w ex args e = Inr (x, e', os) \<Longrightarrow> keeps_input e e'"
    "cmd_show_data w ex args e = Inr (x, e', os) \<Longrightarrow> keeps_input e e'"
  using assms
  by (fastforce simp: cmd_show_def cmd_show_nodes_def cmd_show_data_def out_defs Let_def
      split: if_splits option.splits sum.splits prod.splits)+

lemma execute_effect:
  assumes "execute_in (commands w n) args e = Inr (e', os)"
  shows "(if hd args = ''repeat'' then keeps_input e e' \<or> keeps_input (e\<lparr>isRepeatSet := True\<rparr>) e'
          else if hd args = ''execute'' then keeps_input e e' \<or> opens_file e e' else keeps_input e e')"
  using assms
proof (induction n arbitrary: args e e' os)
  case 0
  then show ?case by (auto simp: execute_in_def split: list.splits)
next
  case (Suc n)
  obtain cmd rest where args: "args = cmd # rest" using Suc.prems by (auto simp: execute_in_def split: list.splits)
  have ex: "keeps_input e e'" if "execute_in (commands w n) args e = Inr (e', os)" "hd args \<noteq> ''repeat''" "hd args \<noteq> ''execute''"
    for args e e' os using Suc.IH [OF that(1)] that(2,3) by simp
  show ?case
  proof (cases "commands w (Suc n) cmd")
    case None
    then show ?thesis using Suc.prems args by (auto simp: execute_in_def simp del: commands.simps)
  next
    case (Some f)
    obtain x os' where f: "f rest e = Inr (x, e', os')"
      using Suc.prems Some args by (auto simp: execute_in_def simp del: commands.simps split: sum.splits prod.splits)
    show ?thesis
      using Some f args show_keeps [of "execute_in (commands w n)", OF ex]
      by (auto split: if_splits dest: simple_commands_keep cmd_add_keeps cmd_remove_keeps cmd_execute_opens
          simp: cmd_repeat_def out_defs)
  qed
qed

section \<open>The main loop ends\<close>

lemma tokenize_execute: "tokenize (''execute '' @ p) \<noteq> [] \<and> hd (tokenize (''execute '' @ p)) \<noteq> ''repeat''"
  using scan_word [of "''execute''" "CHR '' '' # p"] by (simp add: tokenize_scan is_word_def)

text \<open>What running a line does to the input.\<close>

lemma run_line_effect:
  assumes "run_line w line s = Inr s'" and "tokenize line \<noteq> []"
  shows "stdin s' = stdin s \<and> (hd (tokenize line) \<noteq> ''repeat'' \<longrightarrow> \<not> isRepeatSet (entry s')) \<and>
    m_lastEnteredCommand (entry s') \<in> {[], line, m_lastEnteredCommand (entry s)} \<and>
    (hd (tokenize line) = ''repeat'' \<longrightarrow> m_lastEnteredCommand (entry s') \<noteq> line \<or>
        m_lastEnteredCommand (entry s') = m_lastEnteredCommand (entry s)) \<and>
    (m_input_files (entry s') = m_input_files (entry s) \<and> m_input_filenames (entry s') = m_input_filenames (entry s) \<or>
     length (m_input_files (entry s)) < 64 \<and> \<not> isRepeatSet (entry s') \<and>
       (\<exists>ls. m_input_files (entry s') = ls # m_input_files (entry s)) \<and>
       (\<exists>path. m_input_filenames (entry s') = m_input_filenames (entry s) @ [path]))"
proof -
  define e where "e = peers_work w (length (printed s))
    ((if hd (tokenize line) \<noteq> ''repeat'' then (entry s)\<lparr>m_lastEnteredCommand := line\<rparr> else entry s)\<lparr>isRepeatSet := False\<rparr>)"
  obtain e' os where ex: "execute_in (commands w 4) (tokenize line) e = Inr (e', os)" and s': "entry s' = e'" "stdin s' = stdin s"
    using assms unfolding run_line_def execute_def Let_def e_def [symmetric] by (auto split: sum.splits prod.splits)
  have e: "m_input_files e = m_input_files (entry s)" "m_input_filenames e = m_input_filenames (entry s)" "\<not> isRepeatSet e"
    "m_lastEnteredCommand e = (if hd (tokenize line) \<noteq> ''repeat'' then line else m_lastEnteredCommand (entry s))"
    by (simp_all add: e_def peers_work_def)
  show ?thesis
    using execute_effect [OF ex] s' e by (auto simp: keeps_input_def opens_file_def split: if_splits)
qed

lemma lex_upt:
  assumes "\<And>j. j < d \<Longrightarrow> f j = g j" and "f d < g d" and "d < n"
  shows "(map f [0..<n], map g [0..<n]) \<in> lex less_than"
proof -
  have "[0..<n] = [0..<d] @ d # [Suc d..<n]" using assms(3) upt_add_eq_append [of 0 d "n - d"] by (simp add: upt_conv_Cons)
  then have "map f [0..<n] = map g [0..<d] @ f d # map f [Suc d..<n]" "map g [0..<n] = map g [0..<d] @ g d # map g [Suc d..<n]"
    using assms(1) by simp_all
  then show ?thesis using assms(2) by (simp only:) (intro lex_append_leftI, simp)
qed

lemma level_run_line:
  assumes "run_line w line s = Inr s'" and "tokenize line \<noteq> []" and "d = length (m_input_files (entry s))"
  shows "j < d \<Longrightarrow> level s' j = level s j"
    "level s' d \<le> 2 * length ((stdin s # rev (m_input_files (entry s))) ! d) + 1 +
       (if hd (tokenize line) = ''repeat'' then 1 else 0)"
  using run_line_effect [OF assms(1,2)] assms(3)
  by (auto simp: level_def Let_def nth_append nth_Cons split: nat.splits)

lemma run_line_ok:
  assumes "run_line w line s = Inr s'" and "shell_ok s"
  shows "shell_ok s'"
proof (cases "tokenize line = []")
  case True
  then show ?thesis using assms by (simp add: run_line_def)
next
  case False
  show ?thesis
    using run_line_effect [OF assms(1) False] assms(2) False by (auto simp: shell_ok_def Let_def)
qed

lemma round_ok:
  assumes "shell_round w s = Inr s'" and "shell_ok s"
  shows "shell_ok s'"
proof -
  have ok: "shell_ok (s\<lparr>printed := os\<rparr>)" "shell_ok (s\<lparr>printed := os, stdin := ls\<rparr>)" "shell_ok (s\<lparr>printed := os, halted := b\<rparr>)" for os ls b
    using assms(2) by (simp_all add: shell_ok_def Let_def)
  show ?thesis
  proof (cases "m_input_files (entry s)")
    case Nil
    then show ?thesis
      using assms(1) ok assms(2)
      by (auto simp: shell_round_def Let_def run_line_ok split: if_splits list.splits) (auto simp: shell_ok_def)
  next
    case (Cons f fs)
    then have pop: "length (m_input_files (entry s)) = Suc (length fs)" "shell_ok (s\<lparr>printed := os, entry := (entry s)\<lparr>m_input_files := x # fs\<rparr>\<rparr>)" for x os
      using assms(2) by (auto simp: shell_ok_def Let_def)
    then show ?thesis
      using assms(1) ok assms(2) Cons tokenize_execute
      by (auto simp: shell_round_def Let_def run_line_ok split: if_splits list.splits) (auto simp: shell_ok_def Let_def)
  qed
qed

lemma round_decreases:
  assumes "shell_round w s = Inr s'" and "shell_ok s" and "\<not> halted s'"
  shows "(map (level s') [0..<65], map (level s) [0..<65]) \<in> lex less_than"
proof -
  let ?e = "entry s" and ?p = "s\<lparr>printed := printed s @ [Prompt]\<rparr>"
  let ?d = "length (m_input_files ?e)"
  have d: "?d < 65" using assms(2) by (simp add: shell_ok_def Let_def)
  have lv [simp]: "level ?p = level s" by (simp add: level_def fun_eq_iff Let_def)
  consider (first) "isRepeatSet ?e" "m_lastEnteredCommand ?e = []"
    | (again) "isRepeatSet ?e" "m_lastEnteredCommand ?e \<noteq> []"
    | (input) l ls where "\<not> isRepeatSet ?e" "m_input_files ?e = []" "stdin s = l # ls"
    | (finished) fs where "\<not> isRepeatSet ?e" "m_input_files ?e = [] # fs"
    | (script) l ls fs where "\<not> isRepeatSet ?e" "m_input_files ?e = (l # ls) # fs"
    using assms(1,3) by (auto simp: shell_round_def Let_def split: list.splits if_splits)
  then show ?thesis
  proof cases
    case first
    then have s': "stdin s' = stdin s" "entry s' = ?e\<lparr>isRepeatSet := False\<rparr>"
      using assms(1) by (auto simp: shell_round_def Let_def)
    show ?thesis by (rule lex_upt [OF _ _ d]) (use first(1) in \<open>simp_all add: level_def s' Let_def\<close>)
  next
    case again
    have r: "run_line w (m_lastEnteredCommand ?e) ?p = Inr s'" using assms(1) again by (simp add: shell_round_def Let_def)
    have t: "tokenize (m_lastEnteredCommand ?e) \<noteq> []" "hd (tokenize (m_lastEnteredCommand ?e)) \<noteq> ''repeat''"
      using assms(2) again by (simp_all add: shell_ok_def Let_def)
    show ?thesis
    proof (rule lex_upt [OF _ _ d])
      show "level s' j = level s j" if "j < ?d" for j using level_run_line(1) [OF r t(1), of ?d j] that by simp
      show "level s' ?d < level s ?d"
        using level_run_line(2) [OF r t(1), of ?d] t(2) again(1) by (simp add: level_def [of s] Let_def)
    qed
  next
    case (input l ls)
    let ?s = "?p\<lparr>stdin := ls\<rparr>"
    have r: "run_line w (regex_remove comment_re l) ?s = Inr s'" using assms(1) input by (simp add: shell_round_def Let_def)
    have "level s' 0 < level s 0"
    proof (cases "tokenize (regex_remove comment_re l) = []")
      case True
      then show ?thesis using r input by (auto simp: run_line_def level_def Let_def)
    next
      case False
      show ?thesis using level_run_line(2) [OF r False, of 0] input by (simp add: level_def [of s] Let_def split: if_splits)
    qed
    then show ?thesis using d by (intro lex_upt [of 0]) auto
  next
    case (finished fs)
    then have s': "stdin s' = stdin s" "m_input_files (entry s') = fs" "\<not> isRepeatSet (entry s')"
      using assms(1) by (auto simp: shell_round_def Let_def)
    show ?thesis
    proof (rule lex_upt [OF _ _ d])
      show "level s' j = level s j" if "j < ?d" for j
        using that finished s' by (auto simp: level_def Let_def nth_append nth_Cons split: nat.splits)
    qed (use finished s' in \<open>simp add: level_def Let_def\<close>)
  next
    case (script l ls fs)
    let ?s = "?p\<lparr>entry := ?e\<lparr>m_input_files := ls # fs\<rparr>\<rparr>"
    have r: "run_line w (regex_remove comment_re l) ?s = Inr s'" using assms(1) script by (simp add: shell_round_def Let_def)
    have low: "level ?s j = level s j" if "j < ?d" for j
      using that script by (auto simp: level_def Let_def nth_append nth_Cons split: nat.splits)
    have "(\<forall>j < ?d. level s' j = level s j) \<and> level s' ?d < level s ?d"
    proof (cases "tokenize (regex_remove comment_re l) = []")
      case True
      then have "s' = ?s" using r by (simp add: run_line_def)
      then show ?thesis using low script by (simp add: level_def Let_def nth_append)
    next
      case False
      have "level s' j = level s j" if "j < ?d" for j
        using level_run_line(1) [OF r False, of ?d j] low [OF that] that script by simp
      then show ?thesis
        using level_run_line(2) [OF r False, of ?d] script by (simp add: level_def [of s] Let_def nth_append split: if_splits)
    qed
    then show ?thesis using d by (intro lex_upt [of ?d]) auto
  qed
qed

lemma loop_ends:
  assumes "shell_ok s"
  shows "\<exists>r. while_option running (next_round w) (Inr s) = Some r \<and> (\<forall>t. r = Inr t \<longrightarrow> halted t \<and> shell_ok t)"
proof -
  define ok where "ok r = (case r of Inr s \<Rightarrow> shell_ok s | Inl err \<Rightarrow> True)" for r :: "shell result"
  define m where "m r = (case r of Inr s \<Rightarrow> (if halted s then 0 else 1 :: nat, map (level s) [0..<65]) | Inl err \<Rightarrow> (0, []))" for r :: "shell result"
  have keep: "ok (next_round w r)" if "ok r" "running r" for r
    using that round_ok by (auto simp: ok_def next_round_def running_def split: sum.splits)
  have "(next_round w r, r) \<in> inv_image (less_than <*lex*> lex less_than) m" if "ok r \<and> running r" for r
    using that round_decreases
    by (cases r; cases "next_round w r") (auto simp: ok_def next_round_def running_def m_def)
  then obtain r where r: "while_option running (next_round w) (Inr s) = Some r"
    using wf_rel_while_option_Some [of "inv_image (less_than <*lex*> lex less_than) m" ok running "next_round w" "Inr s"] keep assms
    by (auto simp: ok_def wf_lex)
  moreover have "\<not> running r" using while_option_stop [OF r] .
  moreover have "ok r" using while_option_rule [where P = ok, OF keep r] assms by (simp add: ok_def)
  ultimately show ?thesis by (auto simp: running_def ok_def)
qed

end
