(* ===== verification/Shell_Correct.thy ===== *)
theory Shell_Correct
  imports Shell
begin

text \<open>
  What the shell of \<open>src/src/entry\<close> guarantees: its main loop ends on every input, the peers and their
  servers stay paired, which command lines are undefined behaviour, and what the commands that change
  or list the peers do.
\<close>

section \<open>Vocabulary of the specifications\<close>

text \<open>At every position, the \<open>Dht\<close> object is the one of the peer, and the peer's state is well formed.\<close>

definition entry_ok :: "Entry \<Rightarrow> bool" where
  "entry_ok e \<longleftrightarrow>
     list_all2 (\<lambda>ni d. dht_node d = (NI_getIp ni, NI_getPort ni)) (m_nodes e) (m_DHTs e) \<and> list_all ni_ok (m_nodes e)"

text \<open>The work of the peers keeps their states well formed and does not change their addresses.\<close>

definition work_ok :: "world \<Rightarrow> bool" where
  "work_ok w \<longleftrightarrow> (\<forall>t i ni. ni_ok ni \<longrightarrow> ni_ok (w_work w t i ni) \<and> m_node (w_work w t i ni) = m_node ni)"

text \<open>Destroying some peer does not return.\<close>

definition some_hung :: "Entry \<Rightarrow> bool" where
  "some_hung e \<longleftrightarrow> list_ex dht_hung (m_DHTs e)"

text \<open>The errors of the commands: undefined behaviour, or a call that does not return.\<close>

definition stops :: "cpp_error \<Rightarrow> bool" where
  "stops err \<longleftrightarrow> err = Never_Returns \<or> (\<exists>u. err = Undefined_Behaviour u)"

text \<open>The \<open>n\<close>th argument read as a number.\<close>

definition arg_number :: "string list \<Rightarrow> nat \<Rightarrow> 'a::len word option" where
  "arg_number args n = (if n < length args then parse_number (args ! n) else None)"






text \<open>The configuration and the pairs of peers and objects are kept, and peers only come to hang by themselves.\<close>

definition keeps_peers :: "world \<Rightarrow> Entry \<Rightarrow> Entry \<Rightarrow> bool" where
  "keeps_peers w e e' \<longleftrightarrow>
     m_conf e' = m_conf e \<and> statics e' = statics e \<and> (work_ok w \<longrightarrow> entry_ok e \<longrightarrow> entry_ok e') \<and>
     (some_hung e' \<longrightarrow> some_hung e \<or> (\<exists>t i. w_hangs w t i))"

text \<open>The finger table that a listing stands for: \<open>i\<close> is the next index, \<open>v\<close> the finger listed last.\<close>

fun listed_fingers :: "nat \<Rightarrow> Node option \<Rightarrow> shell_out list \<Rightarrow> Node option list" where
  "listed_fingers i v [] = []"
| "listed_fingers i v (Finger_Line j f # os) = replicate (j - i) v @ f # listed_fingers (j + 1) f os"
| "listed_fingers i v (_ # os) = listed_fingers i v os"

text \<open>Surroundings in which every port is free and the peers do nothing, with the given files.\<close>

definition sample_world :: "(string \<Rightarrow> string list option) \<Rightarrow> world" where
  "sample_world files =
     \<lparr>w_files = files, w_bind = (\<lambda>_. None), w_tty = False, w_float_negative = (\<lambda>s. take 1 s = ''-''), w_float_text = (\<lambda>s. s),
      w_float_fits = (\<lambda>s. length s < 16), w_hash = (\<lambda>_. replicate 32 7), w_order = (\<lambda>cs. cs), w_work = (\<lambda>t i ni. ni),
      w_hangs = (\<lambda>t i. False)\<rparr>"

section \<open>Depth of the commands\<close>

lemma show_nodes_depth: "cmd_show_nodes w (execute_in (commands w n)) = cmd_show_nodes w (execute_in (commands w 0))"
proof -
  have "commands w n (''show:nodes:'' @ to_lower ''data'') = None" by (cases n) simp_all
  then show ?thesis by (intro ext) (auto simp: cmd_show_nodes_def execute_in_def)
qed

text \<open>The part of \<open>show\<close> that \<open>show data\<close> calls.\<close>

lemma show_one_depth:
  "execute_in (commands w (Suc (Suc n))) [''show'', ''nodes'', to_string_nat k] e =
   execute_in (commands w 2) [''show'', ''nodes'', to_string_nat k] e"
  by (simp add: execute_in_def cmd_show_def to_lower_def char_to_lower_def numeral_2_eq_2 show_nodes_depth [of w "Suc 0"] show_nodes_depth [of w n])

lemma show_data_depth:
  "cmd_show_data w (execute_in (commands w (Suc (Suc n)))) = cmd_show_data w (execute_in (commands w 2))"
  by (intro ext) (simp add: cmd_show_data_def show_one_depth del: commands.simps split: option.split)

lemma execute_depth3:
  assumes "hd args \<noteq> ''show''"
  shows "execute_in (commands w (Suc (Suc (Suc n)))) args e = execute_in (commands w 3) args e"
proof (cases args)
  case (Cons c rest)
  have "commands w (Suc (Suc (Suc n))) c = commands w 3 c"
    using assms Cons show_nodes_depth [of w "Suc (Suc n)"] show_nodes_depth [of w 2] show_data_depth [of w n]
    by (simp add: numeral_3_eq_3 numeral_2_eq_2)
  then show ?thesis by (simp add: execute_in_def Cons)
qed (simp add: execute_in_def)

text \<open>Four calls are deep enough: more change nothing.\<close>

lemma execute_depth: "execute_in (commands w (n + 4)) args e = execute w args e"
proof (cases "hd args = ''show''")
  case True
  have "cmd_show (execute_in (commands w (n + 3))) as = cmd_show (execute_in (commands w 3)) as" for as
    using execute_depth3 [of _ w n] by (intro ext) (simp add: cmd_show_def numeral_3_eq_3)
  then show ?thesis using True by (cases args) (simp_all add: execute_def execute_in_def numeral_eq_Suc)
next
  case False
  then show ?thesis
    using execute_depth3 [of args w "Suc n"] execute_depth3 [of args w 1] by (simp add: execute_def numeral_eq_Suc)
qed

section \<open>Undefined behaviour of the commands\<close>


lemma ub_out [simp]: "\<not> is_ub (throws msg e)" "\<not> is_ub (prints os e)" "is_ub (no_throw r) \<longleftrightarrow> is_ub r"
  by (auto simp: out_defs is_ub_def split: sum.splits)

lemma ub_simple [simp]:
  "\<not> is_ub (cmd_help w args e)" "\<not> is_ub (cmd_exit args e)" "\<not> is_ub (cmd_repeat args e)"
  "\<not> is_ub (cmd_execute w args e)" "\<not> is_ub (cmd_show_fingers w args e)"
  by (auto simp: cmd_help_def cmd_exit_def cmd_repeat_def cmd_execute_def cmd_show_fingers_def Let_def
      split: option.split)










section \<open>The peers\<close>

lemma entry_ok_length: "entry_ok e \<Longrightarrow> length (m_DHTs e) = length (m_nodes e)"
  by (auto simp: entry_ok_def dest: list_all2_lengthD)

lemma ni_ok_new_node [simp]: "ni_ok (new_node w conf port)"
  by (simp add: new_node_def ni_ok_update ni_ok_init)

lemma entry_ok_input [simp]:
  "entry_ok (e\<lparr>isRepeatSet := b\<rparr>) = entry_ok e" "entry_ok (e\<lparr>m_lastEnteredCommand := l\<rparr>) = entry_ok e"
  "entry_ok (e\<lparr>m_input_files := fs\<rparr>) = entry_ok e" "entry_ok (e\<lparr>m_input_filenames := ns\<rparr>) = entry_ok e"
  "some_hung (e\<lparr>isRepeatSet := b\<rparr>) = some_hung e" "some_hung (e\<lparr>m_lastEnteredCommand := l\<rparr>) = some_hung e"
  "some_hung (e\<lparr>m_input_files := fs\<rparr>) = some_hung e" "some_hung (e\<lparr>m_input_filenames := ns\<rparr>) = some_hung e"
  by (simp_all add: entry_ok_def some_hung_def)

lemma keeps_peers_refl [simp]: "keeps_peers w e e"
  by (simp add: keeps_peers_def)

lemma keeps_peers_trans: "keeps_peers w a b \<Longrightarrow> keeps_peers w b c \<Longrightarrow> keeps_peers w a c"
  unfolding keeps_peers_def by metis

lemma keeps_peers_input [simp]:
  "keeps_peers w (e\<lparr>isRepeatSet := b\<rparr>) e' = keeps_peers w e e'" "keeps_peers w (e\<lparr>m_lastEnteredCommand := l\<rparr>) e' = keeps_peers w e e'"
  "keeps_peers w (e\<lparr>m_input_files := fs\<rparr>) e' = keeps_peers w e e'" "keeps_peers w (e\<lparr>m_input_filenames := ns\<rparr>) e' = keeps_peers w e e'"
  "keeps_peers w e (e'\<lparr>isRepeatSet := b\<rparr>) = keeps_peers w e e'" "keeps_peers w e (e'\<lparr>m_lastEnteredCommand := l\<rparr>) = keeps_peers w e e'"
  "keeps_peers w e (e'\<lparr>m_input_files := fs\<rparr>) = keeps_peers w e e'" "keeps_peers w e (e'\<lparr>m_input_filenames := ns\<rparr>) = keeps_peers w e e'"
  by (simp_all add: keeps_peers_def)

lemma basic_keep_peers:
  "cmd_help w args e = Inr (x, e', os) \<Longrightarrow> keeps_peers w e e'"
  "cmd_exit args e = Inr (x, e', os) \<Longrightarrow> keeps_peers w e e'"
  "cmd_sleep w args e = Inr (x, e', os) \<Longrightarrow> keeps_peers w e e'"
  "cmd_repeat args e = Inr (x, e', os) \<Longrightarrow> keeps_peers w e e'"
  "cmd_execute w args e = Inr (x, e', os) \<Longrightarrow> keeps_peers w e e'"
  "cmd_show_fingers w args e = Inr (x, e', os) \<Longrightarrow> keeps_peers w e e'"
  by (auto simp: cmd_help_def cmd_exit_def cmd_sleep_def cmd_show_fingers_def cmd_repeat_def cmd_execute_def
      out_defs Let_def split: if_splits option.splits prod.splits)

lemma new_pair [simp]:
  "dht_node (new_dht node api) = (NI_getIp node, NI_getPort node)" "\<not> dht_hung (new_dht node api)"
  by (simp_all add: new_dht_def)

lemma entry_ok_add: "entry_ok e \<Longrightarrow> ni_ok node \<Longrightarrow>
    entry_ok (e\<lparr>m_nodes := m_nodes e @ [node], m_DHTs := m_DHTs e @ [new_dht node api]\<rparr>)"
  by (auto simp: entry_ok_def intro: list_all2_appendI)

lemma entry_ok_erase: "entry_ok e \<Longrightarrow>
    entry_ok (e\<lparr>m_DHTs := take i (m_DHTs e) @ drop j (m_DHTs e), m_nodes := take i (m_nodes e) @ drop j (m_nodes e)\<rparr>)"
  by (auto simp: entry_ok_def list_all_iff intro!: list_all2_appendI list_all2_takeI list_all2_dropI dest: in_set_takeD in_set_dropD)

lemma node_commands_keep_peers:
  "addNode w p e = Inr (x, e', os) \<Longrightarrow> keeps_peers w e e'"
  "erase_nodes i n e = Inr (x, e', os) \<Longrightarrow> keeps_peers w e e'"
proof -
  assume "addNode w p e = Inr (x, e', os)"
  then obtain port api where "e' = e\<lparr>m_nodes := m_nodes e @ [new_node w (m_conf e) port], m_DHTs := m_DHTs e @ [new_dht (new_node w (m_conf e) port) api]\<rparr>"
    by (auto simp: addNode_def out_defs Let_def split: if_splits option.splits sum.splits)
  then show "keeps_peers w e e'" using entry_ok_add by (simp add: keeps_peers_def some_hung_def)
next
  assume "erase_nodes i n e = Inr (x, e', os)"
  then have "e' = e\<lparr>m_DHTs := take i (m_DHTs e) @ drop (i + n) (m_DHTs e), m_nodes := take i (m_nodes e) @ drop (i + n) (m_nodes e)\<rparr>"
    by (simp add: erase_nodes_def out_defs split: if_splits)
  then show "keeps_peers w e e'" using entry_ok_erase
    by (auto simp: keeps_peers_def some_hung_def list_ex_iff dest: in_set_takeD in_set_dropD)
qed

lemma changes_keep_peers:
  "cmd_add w args e = Inr (x, e', os) \<Longrightarrow> keeps_peers w e e'"
  "cmd_remove args e = Inr (x, e', os) \<Longrightarrow> keeps_peers w e e'"
  by (auto simp: cmd_add_def cmd_remove_def out_defs split: if_splits option.splits dest: node_commands_keep_peers)

lemma show_keep_peers:
  assumes "\<And>args e e' os. ex args e = Inr (e', os) \<Longrightarrow> keeps_peers w e e'"
  shows "cmd_show ex args e = Inr (x, e', os) \<Longrightarrow> keeps_peers w e e'"
    "cmd_show_nodes w ex args e = Inr (x, e', os) \<Longrightarrow> keeps_peers w e e'"
    "cmd_show_data w ex args e = Inr (x, e', os) \<Longrightarrow> keeps_peers w e e'"
  using assms
  by (fastforce simp: cmd_show_def cmd_show_nodes_def cmd_show_data_def out_defs Let_def
      split: if_splits option.splits sum.splits prod.splits)+

lemma execute_keeps_peers: "execute_in (commands w n) args e = Inr (e', os) \<Longrightarrow> keeps_peers w e e'"
proof (induction n arbitrary: args e e' os)
  case (Suc n)
  then obtain cmd rest where args: "args = cmd # rest" by (auto simp: execute_in_def split: list.splits)
  show ?case
  proof (cases "commands w (Suc n) cmd")
    case (Some f)
    obtain x os' where "f rest e = Inr (x, e', os')"
      using Suc.prems Some args by (auto simp: execute_in_def simp del: commands.simps split: sum.splits prod.splits)
    then show ?thesis
      using Some show_keep_peers [of "execute_in (commands w n)", OF Suc.IH]
      by (auto split: if_splits dest: basic_keep_peers changes_keep_peers)
  qed (use Suc.prems args in \<open>auto simp: execute_in_def simp del: commands.simps\<close>)
qed (auto simp: execute_in_def split: list.splits)

lemma peers_work_keeps: "keeps_peers w e (peers_work w t e)"
proof -
  have "entry_ok (peers_work w t e)" if "work_ok w" "entry_ok e"
    using that unfolding entry_ok_def work_ok_def peers_work_def
    by (auto simp: list_all2_conv_all_nth list_all_length nth_enumerate_eq NI_getIp_def NI_getPort_def)
  moreover have "some_hung e \<or> (\<exists>t i. w_hangs w t i)" if "some_hung (peers_work w t e)"
    using that by (auto simp: some_hung_def peers_work_def list_ex_iff in_set_enumerate_eq)
  ultimately show ?thesis by (simp add: keeps_peers_def peers_work_def)
qed

lemma run_line_keeps_peers:
  assumes "run_line w line s = Inr s'"
  shows "keeps_peers w (entry s) (entry s')"
proof (cases "tokenize line = []")
  case False
  then obtain e os where "execute_in (commands w 4) (tokenize line) (peers_work w (length (printed s)) e) = Inr (entry s', os)"
    and e: "e = (if hd (tokenize line) \<noteq> ''repeat'' then (entry s)\<lparr>m_lastEnteredCommand := line\<rparr> else entry s)\<lparr>isRepeatSet := False\<rparr>"
    using assms by (auto simp: run_line_def execute_def Let_def split: sum.splits prod.splits)
  then have "keeps_peers w e (entry s')"
    using execute_keeps_peers keeps_peers_trans peers_work_keeps by blast
  then show ?thesis unfolding e by (simp split: if_splits)
qed (use assms in \<open>simp add: run_line_def\<close>)

lemma round_keeps_peers:
  assumes "shell_round w s = Inr s'"
  shows "keeps_peers w (entry s) (entry s')"
  using assms run_line_keeps_peers [of w _ _ s']
  by (auto simp: shell_round_def Let_def split: if_splits list.splits) fastforce+

lemma start_nodes_ok:
  "start_nodes w cst n i dport aport e = Inr e' \<Longrightarrow> entry_ok e \<and> \<not> some_hung e \<Longrightarrow>
     entry_ok e' \<and> \<not> some_hung e' \<and> m_conf e' = m_conf e"
proof (induction n arbitrary: i dport aport e)
  case (Suc n)
  have "entry_ok (e\<lparr>m_nodes := m_nodes e @ [new_node w (m_conf e) dport], statics := st, m_DHTs := m_DHTs e @ [new_dht (new_node w (m_conf e) dport) api]\<rparr>)"
    for st api using Suc.prems(2) entry_ok_add [of e "new_node w (m_conf e) dport" api] by (simp add: entry_ok_def)
  with Suc show ?case by (fastforce simp: Let_def entry_ok_add some_hung_def split: option.splits if_splits)
qed simp

section \<open>Comments and the words of a line\<close>

lemma ways_comment:
  "c \<noteq> CHR ''#'' \<Longrightarrow> ways comment_re (c # s) = []" "ways comment_re [] = []"
  "\<exists>ws. ways comment_re (CHR ''#'' # s) =
     (CHR ''#'' # takeWhile (\<lambda>c. c \<noteq> CHR 0x0A \<and> c \<noteq> CHR 0x0D) s, dropWhile (\<lambda>c. c \<noteq> CHR 0x0A \<and> c \<noteq> CHR 0x0D) s, []) # ws"
  using ways_class_star [of "\<lambda>c. c \<noteq> CHR 0x0A \<and> c \<noteq> CHR 0x0D" s] by (auto simp: comment_re_def rchr_def ways_simps)

lemma remove_comment:
  assumes "CHR 0x0A \<notin> set s" and "CHR 0x0D \<notin> set s"
  shows "regex_remove comment_re s = takeWhile (\<lambda>c. c \<noteq> CHR ''#'') s"
proof -
  have nil: "regex_remove comment_re [] = []" by (simp add: regex_remove.simps regex_find.simps ways_comment(2))
  have "regex_find comment_re s =
    (if CHR ''#'' \<in> set s
     then Some (takeWhile (\<lambda>c. c \<noteq> CHR ''#'') s, dropWhile (\<lambda>c. c \<noteq> CHR ''#'') s, []) else None)"
    using assms
  proof (induction s)
    case (Cons c s)
    show ?case
    proof (cases "c = CHR ''#''")
      case True
      have ok: "\<forall>c\<in>set s. c \<noteq> CHR 0x0A \<and> c \<noteq> CHR 0x0D" using Cons.prems by auto
      then obtain ws where "ways comment_re (c # s) = (c # s, [], []) # ws"
        using ways_comment(3) [of s] True
        unfolding takeWhile_eq_all_conv [THEN iffD2, OF ok] dropWhile_eq_Nil_conv [THEN iffD2, OF ok] by blast
      then show ?thesis using regex_find_hit True by simp
    next
      case False
      then show ?thesis using Cons regex_find_skip [OF ways_comment(1)] by auto
    qed
  qed (simp add: regex_find.simps ways_comment(2))
  then show ?thesis
    using nil by (subst regex_remove.simps) (auto simp: takeWhile_eq_all_conv intro!: takeWhile_eq_all_conv [THEN iffD2, symmetric])
qed

lemma scan_blanks: "set p \<subseteq> {CHR '' '', CHR 0x09} \<Longrightarrow> scan (p @ s) = scan s"
proof (induction p)
  case (Cons c p)
  then have "c \<noteq> CHR ''[''" "\<not> is_word c" by (auto simp: is_word_def)
  then show ?case using Cons by simp
qed simp

lemma tokenize_padded:
  assumes "v \<noteq> []" and "list_all is_word v" and "set p \<subseteq> {CHR '' '', CHR 0x09}" and "set q \<subseteq> {CHR '' '', CHR 0x09}"
  shows "tokenize (p @ v @ q) = [v]"
proof -
  have "\<not> is_word c" if "q = c # t" for c t using assms(4) that by (auto simp: is_word_def)
  then show ?thesis
    using scan_word [OF assms(1,2)] scan_blanks [OF assms(3)] scan_blanks [OF assms(4), of "[]"] by (simp add: tokenize_scan)
qed

section \<open>Listing of the fingers\<close>

lemma opt_node_eq_equiv:
  "opt_node_eq h a a" "opt_node_eq h a b \<Longrightarrow> opt_node_eq h b c \<Longrightarrow> opt_node_eq h a c"
  by (auto simp: opt_node_eq_def node_eq_def split: option.splits)

lemma listed_finger_lines:
  assumes "i0 \<le> i" and "fs = [] \<Longrightarrow> i0 = i" and "\<And>l. prev = Some l \<Longrightarrow> opt_node_eq h v l" and "prev = None \<Longrightarrow> i0 = i"
  shows "\<exists>gs. listed_fingers i0 v (finger_lines h i prev star fs) = replicate (i - i0) v @ gs \<and> list_all2 (opt_node_eq h) gs fs"
  using assms
proof (induction fs arbitrary: i0 i prev star v)
  case (Cons f fs)
  show ?case
  proof (cases "\<exists>l g gs. prev = Some l \<and> fs = g # gs \<and> opt_node_eq h l f \<and> opt_node_eq h g f")
    case True
    then obtain l g gs where t: "prev = Some l" "fs = g # gs" "opt_node_eq h l f" "opt_node_eq h g f" by blast
    have v: "opt_node_eq h v f" using Cons.prems(3) t opt_node_eq_equiv(2) by blast
    have "\<exists>gs. listed_fingers i0 v (finger_lines h (i + 1) (Some f) True fs) = replicate (i + 1 - i0) v @ gs \<and>
        list_all2 (opt_node_eq h) gs fs"
      by (rule Cons.IH) (use Cons.prems(1) t v in auto)
    then obtain hs where "listed_fingers i0 v (finger_lines h (i + 1) (Some f) True fs) = replicate (i + 1 - i0) v @ hs"
      "list_all2 (opt_node_eq h) hs fs" by blast
    moreover have "replicate (i + 1 - i0) v = replicate (i - i0) v @ [v]"
      using Cons.prems(1) by (simp add: Suc_diff_le replicate_append_same)
    ultimately show ?thesis using t v by (intro exI [of _ "v # hs"]) (auto simp: Let_def)
  next
    case False
    have "\<exists>gs. listed_fingers (i + 1) f (finger_lines h (i + 1) (Some f) False fs) = replicate (i + 1 - (i + 1)) f @ gs \<and>
        list_all2 (opt_node_eq h) gs fs"
      by (rule Cons.IH) (auto simp: opt_node_eq_equiv)
    then obtain hs where "listed_fingers (i + 1) f (finger_lines h (i + 1) (Some f) False fs) = hs"
      "list_all2 (opt_node_eq h) hs fs" by auto
    moreover have "finger_lines h i prev star (f # fs) = Finger_Line i f # finger_lines h (i + 1) (Some f) False fs"
      using False by (auto simp: Let_def split: list.splits option.splits)
    ultimately show ?thesis by (intro exI [of _ "f # hs"]) (auto simp: opt_node_eq_equiv)
  qed
qed simp

section \<open>Runs of the main loop\<close>

lemma map_sum_eq: "map_sum f g r = Inr y \<longleftrightarrow> (\<exists>x. r = Inr x \<and> y = g x)" "map_sum f g r = Inl z \<longleftrightarrow> (\<exists>x. r = Inl x \<and> z = f x)"
  by (cases r; auto)+

text \<open>An error of a command stops the shell, and it is a call that does not return only if a peer hangs.\<close>

definition halts_by :: "Entry \<Rightarrow> cpp_error \<Rightarrow> bool" where
  "halts_by e err \<longleftrightarrow> stops err \<and> (err = Never_Returns \<longrightarrow> some_hung e)"

lemma halts_by_simps [simp]: "halts_by e (Undefined_Behaviour u)" "halts_by e Never_Returns \<longleftrightarrow> some_hung e"
  by (simp_all add: halts_by_def stops_def)

lemma command_errors:
  "addNode w p e = Inl err \<Longrightarrow> halts_by e err" "erase_nodes i n e = Inl err \<Longrightarrow> halts_by e err"
  "cmd_add w args e = Inl err \<Longrightarrow> halts_by e err" "cmd_remove args e = Inl err \<Longrightarrow> halts_by e err"
  "cmd_sleep w args e = Inl err \<Longrightarrow> halts_by e err"
  by (auto simp: addNode_def erase_nodes_def cmd_add_def cmd_remove_def cmd_sleep_def out_defs Let_def some_hung_def list_ex_iff
      split: if_splits option.splits dest: in_set_takeD in_set_dropD)

lemma show_errors:
  assumes "\<And>args e err. ex args e = Inl err \<Longrightarrow> halts_by e err"
  shows "cmd_show ex args e = Inl err \<Longrightarrow> halts_by e err" "cmd_show_nodes w ex args e = Inl err \<Longrightarrow> halts_by e err"
    "cmd_show_data w ex args e = Inl err \<Longrightarrow> halts_by e err"
  using assms
  by (auto simp: cmd_show_def cmd_show_nodes_def cmd_show_data_def out_defs Let_def
      split: if_splits option.splits sum.splits prod.splits)

lemma no_errors:
  "\<not> isl (cmd_help w args e)" "\<not> isl (cmd_exit args e)" "\<not> isl (cmd_repeat args e)" "\<not> isl (cmd_execute w args e)"
  "\<not> isl (cmd_show_fingers w args e)"
  by (auto simp: cmd_help_def cmd_exit_def cmd_repeat_def cmd_execute_def cmd_show_fingers_def out_defs Let_def
      split: option.split)

lemma execute_errors: "execute_in (commands w n) args e = Inl err \<Longrightarrow> halts_by e err"
proof (induction n arbitrary: args e err)
  case (Suc n)
  show ?case
  proof (cases "args = []")
    case False
    then obtain f where f: "commands w (Suc n) (hd args) = Some f" "f (tl args) e = Inl err"
      using Suc.prems by (cases args) (auto simp: execute_in_def simp del: commands.simps split: option.splits sum.splits)
    from f(1) have "f \<in> {cmd_add w, cmd_remove, cmd_sleep w, cmd_show (execute_in (commands w n)),
        cmd_show_nodes w (execute_in (commands w n)), cmd_show_data w (execute_in (commands w n))} \<or> \<not> isl (f (tl args) e)"
      using no_errors by (auto split: if_splits)
    then show ?thesis
      using f(2) show_errors [of "execute_in (commands w n)", OF Suc.IH] command_errors by auto
  qed (use Suc.prems in \<open>auto simp: execute_in_def\<close>)
qed (auto simp: execute_in_def split: list.splits)

text \<open>The same after what the peers have done.\<close>

definition ends_by :: "world \<Rightarrow> Entry \<Rightarrow> cpp_error \<Rightarrow> bool" where
  "ends_by w e err \<longleftrightarrow> stops err \<and> (err = Never_Returns \<longrightarrow> some_hung e \<or> (\<exists>t i. w_hangs w t i))"

lemma run_line_errors:
  assumes "run_line w line s = Inl err"
  shows "ends_by w (entry s) err"
proof -
  let ?e = "(if hd (tokenize line) \<noteq> ''repeat'' then (entry s)\<lparr>m_lastEnteredCommand := line\<rparr> else entry s)\<lparr>isRepeatSet := False\<rparr>"
  have "execute_in (commands w 4) (tokenize line) (peers_work w (length (printed s)) ?e) = Inl err"
    using assms by (auto simp: run_line_def execute_def Let_def split: if_splits sum.splits prod.splits)
  from execute_errors [OF this] have "ends_by w ?e err"
    using peers_work_keeps [of w ?e "length (printed s)"] unfolding halts_by_def ends_by_def keeps_peers_def by blast
  then show ?thesis by (simp add: ends_by_def split: if_splits)
qed

lemma round_errors: "shell_round w s = Inl err \<Longrightarrow> ends_by w (entry s) err"
  by (auto simp: shell_round_def Let_def ends_by_def split: if_splits list.splits dest!: run_line_errors)

lemma start_script_errors: "start_script w e = Inl err \<Longrightarrow> halts_by e err"
  using execute_errors [of w 4]
  by (auto simp: start_script_def execute_def map_sum_eq split: option.splits if_splits)

lemma start_nodes_input: "start_nodes w cst n i dport aport e = Inr e' \<Longrightarrow> keeps_input e e'"
proof (induction n arbitrary: i dport aport e)
  case (Suc n)
  then show ?case by (fastforce simp: Let_def keeps_input_def split: option.splits)
qed simp

lemma init_entry:
  assumes "Entry_init w cst conf st = Inr e"
  shows "keeps_input (Entry_empty conf st) e" "entry_ok e" "m_conf e = conf" "\<not> some_hung e"
  using start_nodes_input start_nodes_ok assms unfolding Entry_init_def
  by (fastforce simp: Entry_empty_def entry_ok_def some_hung_def)+

lemma start_script_effect:
  assumes "start_script w e = Inr (e', os)"
  shows "(keeps_input e e' \<or> opens_file e e') \<and> keeps_peers w e e'"
proof -
  consider "e' = e" | p os' where "execute_in (commands w 4) [''execute'', p] e = Inr (e', os')"
    using assms by (auto simp: start_script_def execute_def map_sum_eq split: option.splits if_splits)
  then show ?thesis
  proof cases
    case 2
    then show ?thesis using execute_effect [OF 2] execute_keeps_peers [OF 2] by simp
  qed simp
qed

lemma start_ok:
  assumes "Entry_init w cst conf st = Inr e" and "start_script w e = Inr (e', os)"
  shows "shell_ok \<lparr>entry = e', stdin = lines, printed = os, halted = False\<rparr>"
  using init_entry(1) [OF assms(1)] start_script_effect [OF assms(2)]
  by (auto simp: shell_ok_def keeps_input_def opens_file_def Entry_empty_def)

text \<open>How the loop can end: with the peers kept, or stopped.\<close>

definition loop_result :: "world \<Rightarrow> Entry \<Rightarrow> shell result \<Rightarrow> bool" where
  "loop_result w e r \<longleftrightarrow> (case r of Inr s \<Rightarrow> keeps_peers w e (entry s) | Inl err \<Rightarrow> ends_by w e err)"

lemma loop_result_round:
  assumes "loop_result w e r"
  shows "loop_result w e (next_round w r)"
proof (cases r)
  case (Inr s)
  then have s: "keeps_peers w e (entry s)" using assms by (simp add: loop_result_def)
  show ?thesis
  proof (cases "shell_round w s")
    case (Inl err)
    have "ends_by w e err" using round_errors [OF Inl] s unfolding ends_by_def keeps_peers_def by blast
    then show ?thesis by (simp add: loop_result_def next_round_def \<open>r = Inr s\<close> Inl)
  next
    case t: (Inr t)
    show ?thesis using keeps_peers_trans [OF s round_keeps_peers [OF t]] by (simp add: loop_result_def next_round_def Inr t)
  qed
qed (use assms in \<open>simp add: next_round_def\<close>)

lemma main_loop_result:
  assumes "Entry_mainLoop w lines e = Some r"
  shows "loop_result w e r"
proof -
  let ?start = "map_sum id (\<lambda>(e', os). \<lparr>entry = e', stdin = lines, printed = os, halted = False\<rparr>) (start_script w e)"
  have "loop_result w e ?start"
    using start_script_effect [of w e] start_script_errors [of w e]
    by (cases "start_script w e") (auto simp: loop_result_def ends_by_def halts_by_def)
  then show ?thesis
    using while_option_rule [where P = "loop_result w e", OF _ assms [unfolded Entry_mainLoop_def]] loop_result_round by blast
qed

lemma main_loop_returns:
  assumes "Entry_init w cst conf st = Inr e"
  shows "\<exists>r. Entry_mainLoop w lines e = Some r \<and>
    (\<forall>t. r = Inr t \<longrightarrow> halted t \<and> length (m_input_files (entry t)) \<le> 64)"
proof (cases "start_script w e")
  case (Inl err)
  then show ?thesis by (auto simp: Entry_mainLoop_def while_option_unfold running_def)
next
  case (Inr p)
  then obtain e' os where p: "start_script w e = Inr (e', os)" by (cases p) simp
  from loop_ends [OF start_ok [OF assms p, of lines], of w] obtain r where
    r: "while_option running (next_round w) (Inr \<lparr>entry = e', stdin = lines, printed = os, halted = False\<rparr>) = Some r"
    and t: "\<And>t. r = Inr t \<Longrightarrow> halted t \<and> shell_ok t" by blast
  then show ?thesis by (auto simp: Entry_mainLoop_def p shell_ok_def Let_def)
qed

section \<open>Starting, adding and removing peers\<close>

lemma map_upt_shift: "map f [0..<Suc n] = f 0 # map (\<lambda>j. f (Suc j)) [0..<n]"
  by (simp add: upt_rec [of 0] map_Suc_upt [symmetric] del: upt_Suc)

lemma start_nodes_free:
  assumes "\<And>j. j < n \<Longrightarrow> w_bind w (aport + of_nat j) = None"
  shows "start_nodes w cst n i dport aport e =
    Inr (e\<lparr>m_nodes := m_nodes e @ map (\<lambda>j. new_node w (m_conf e) (dport + of_nat j)) [0..<n],
           m_DHTs := m_DHTs e @ map (\<lambda>j. new_dht (new_node w (m_conf e) (dport + of_nat j)) (Some (aport + of_nat j))) [0..<n],
           statics := (if n = 0 \<or> i \<noteq> 0 then statics e
                       else setReplicationLimitOnEachNode (defaultReplicationLimit cst)
                              (setDifficulty (PoW_Difficulty cst) (statics e)))\<rparr>)"
  using assms
proof (induction n arbitrary: i dport aport e)
  case (Suc n)
  have "w_bind w (aport + 1 + of_nat j) = None" if "j < n" for j
    using Suc.prems [of "Suc j"] that by (simp add: ac_simps)
  from Suc.IH [OF this, simplified] show ?case
    using Suc.prems [of 0] by (simp add: map_upt_shift ac_simps Let_def del: upt_Suc)
qed simp

lemma start_nodes_error:
  "start_nodes w cst n i dport aport e = Inl err \<Longrightarrow> \<exists>p msg. w_bind w p = Some msg \<and> err = Runtime_Error msg"
proof (induction n arbitrary: i dport aport e)
  case (Suc n)
  then show ?case by (cases "w_bind w aport") (auto simp: Let_def)
qed simp

lemma start_nodes_taken:
  assumes "k < n" and "w_bind w (aport + of_nat k) = Some msg" and "\<And>j. j < k \<Longrightarrow> w_bind w (aport + of_nat j) = None"
  shows "start_nodes w cst n i dport aport e = Inl (Runtime_Error msg)"
  using assms
proof (induction n arbitrary: k i dport aport e)
  case (Suc n)
  show ?case
  proof (cases k)
    case 0
    then show ?thesis using Suc.prems(2) by (simp add: Let_def)
  next
    case (Suc l)
    have free: "w_bind w (aport + 1 + of_nat j) = None" if "j < l" for j
      using Suc.prems(3) [of "Suc j"] that Suc by (simp add: ac_simps)
    have "start_nodes w cst n i' dport' (aport + 1) e' = Inl (Runtime_Error msg)" for i' dport' e'
      by (rule Suc.IH [of l]) (use Suc.prems(1,2) Suc free in \<open>auto simp: ac_simps\<close>)
    then show ?thesis using Suc.prems(3) [of 0] Suc by (simp add: Let_def)
  qed
qed simp

text \<open>A world for examples.\<close>

lemma sample_world_simps [simp]:
  "w_files (sample_world fs) = fs" "w_bind (sample_world fs) p = None" "w_work (sample_world fs) t i ni = ni"
  "\<not> w_hangs (sample_world fs) t i"
  by (simp_all add: sample_world_def)

lemma sample_work [simp]: "peers_work (sample_world fs) t e = e" "work_ok (sample_world fs)"
  by (simp_all add: peers_work_def split_def work_ok_def)

lemma sample_init: "\<exists>e. Entry_init (sample_world fs) cst conf st = Inr e"
  by (simp add: Entry_init_def start_nodes_free)

lemma sample_add:
  assumes "m_input_files e = []" and "\<not> isRepeatSet e" and "startup_script (m_conf e) = None" and "m_nodes e \<noteq> []"
  shows "\<exists>t. Entry_mainLoop (sample_world fs) [''add''] e = Some (Inr t) \<and> length (m_nodes (entry t)) = Suc (length (m_nodes e))"
proof -
  have "regex_remove comment_re ''add'' = ''add''" by (subst remove_comment) auto
  moreover have "tokenize ''add'' = [''add'']" by (simp add: tokenize_scan is_word_def)
  ultimately show ?thesis
    using assms
    by (auto simp: Entry_mainLoop_def start_script_def while_option_unfold [of _ _ "Inr _"] running_def next_round_def shell_round_def
        run_line_def execute_def execute_in_def numeral_eq_Suc cmd_add_def addNode_def prints_def Let_def)
qed

section \<open>Properties\<close>

text \<open>
  \<open>main\<close> returns, for every command line, configuration, input and set of scripts, however these execute and
  repeat one another, unless a peer has come to hang, whose destructor it waits for. It ends at \<open>exit\<close> or at the
  end of the input with all peers destroyed; with an exception, when the port of a peer's client interface is
  taken at the start; or in undefined behaviour of a command.
\<close>

theorem program_terminates:
  "case dht4_main w files opts lines of
     None \<Rightarrow> \<exists>t i. w_hangs w t i
   | Some r \<Rightarrow>
       is_ub r \<or> (\<exists>p msg. w_bind w p = Some msg \<and> r = Inl (Runtime_Error msg)) \<or>
       (\<exists>e os. r = Inr (e, os) \<and> m_nodes e = [] \<and> m_DHTs e = [] \<and> length (m_input_files e) \<le> 64)"
proof -
  obtain conf cst where set: "main_settings files opts = (conf, cst)" by (cases "main_settings files opts")
  show ?thesis
  proof (cases "Entry_init w cst conf statics_init")
    case (Inl err)
    then show ?thesis using start_nodes_error [OF Inl [unfolded Entry_init_def]] by (auto simp: dht4_main_def set)
  next
    case (Inr e)
    from main_loop_returns [OF this, of lines] obtain r where r: "Entry_mainLoop w lines e = Some r"
      "\<And>t. r = Inr t \<Longrightarrow> length (m_input_files (entry t)) \<le> 64" by blast
    note res = main_loop_result [OF r(1)] and fine = init_entry(4) [OF Inr]
    show ?thesis
    proof (cases r)
      case err: (Inl err)
      then have "ends_by w e err" using res by (simp add: loop_result_def)
      then show ?thesis using fine by (auto simp: dht4_main_def set Inr r(1) err ends_by_def stops_def)
    next
      case t: (Inr t)
      let ?e = "peers_work w (length (printed t)) (entry t)"
      have "keeps_peers w e ?e"
        using res peers_work_keeps keeps_peers_trans by (fastforce simp: loop_result_def t)
      then have "\<exists>t i. w_hangs w t i" if "list_ex dht_hung (m_DHTs ?e)"
        using fine that by (simp add: keeps_peers_def some_hung_def)
      moreover have "m_input_files ?e = m_input_files (entry t)" by (simp add: peers_work_def)
      ultimately show ?thesis
        using r(2) [OF t] by (auto simp: dht4_main_def set Inr r(1) t Entry_destroy_def)
    qed
  qed
qed

text \<open>
  C27: Whatever is typed and whatever the peers do to their states meanwhile, at the end of the main loop every
  \<open>Dht\<close> object is at the position of the peer it was started for, every peer's state is well formed, and the
  configuration is unchanged. The peers' work is assumed to keep their states well formed and their addresses.
\<close>

theorem shell_keeps_peers:
  assumes "Entry_init w cst conf st = Inr e" and "Entry_mainLoop w lines e = Some (Inr t)" and "work_ok w"
  shows "entry_ok (entry t) \<and> m_conf (entry t) = conf"
  using main_loop_result [OF assms(2)] init_entry [OF assms(1)] assms(3) by (simp add: loop_result_def keeps_peers_def)

theorem shell_keeps_peers_witness:
  "\<exists>e t. Entry_init (sample_world (\<lambda>_. None)) ConfigStatics_default Configuration_default statics_init = Inr e \<and>
     Entry_mainLoop (sample_world (\<lambda>_. None)) [''add''] e = Some (Inr t) \<and> length (m_DHTs (entry t)) = 2 \<and> entry_ok (entry t)"
proof -
  obtain e where e: "Entry_init (sample_world (\<lambda>_. None)) ConfigStatics_default Configuration_default statics_init = Inr e"
    using sample_init by blast
  have one: "length (m_nodes e) = 1"
    using e by (auto simp: Entry_init_def start_nodes_free Entry_empty_def Configuration_default_def)
  obtain t where t: "Entry_mainLoop (sample_world (\<lambda>_. None)) [''add''] e = Some (Inr t)" "length (m_nodes (entry t)) = 2"
    using sample_add [of e "\<lambda>_. None"] init_entry [OF e] one
    by (fastforce simp: keeps_input_def Entry_empty_def Configuration_default_def)
  show ?thesis
    using e t shell_keeps_peers [OF e t(1)] by (auto simp: entry_ok_def dest: list_all2_lengthD)
qed



text \<open>
  The shell starts as many peers as configured, each with the next port for its peers and the next one
  for its clients, both modulo \<open>2 ^ 16\<close>, and the difficulty and replication limit are set only if there is
  a peer. The first port for clients that cannot be bound ends it with an exception.
\<close>

theorem peers_started:
  "((\<forall>j < unat (node_amount conf). w_bind w (api_port conf + of_nat j) = None) \<longrightarrow>
      (\<exists>e. Entry_init w cst conf st = Inr e \<and>
         m_nodes e = map (\<lambda>j. new_node w conf (p2p_port conf + of_nat j)) [0..<unat (node_amount conf)] \<and>
         m_DHTs e = map (\<lambda>j. new_dht (new_node w conf (p2p_port conf + of_nat j)) (Some (api_port conf + of_nat j)))
           [0..<unat (node_amount conf)] \<and>
         statics e = (if node_amount conf = 0 then st
                      else setReplicationLimitOnEachNode (defaultReplicationLimit cst) (setDifficulty (PoW_Difficulty cst) st)))) \<and>
   (\<forall>k msg. k < unat (node_amount conf) \<and> w_bind w (api_port conf + of_nat k) = Some msg \<and>
      (\<forall>j < k. w_bind w (api_port conf + of_nat j) = None) \<longrightarrow> Entry_init w cst conf st = Inl (Runtime_Error msg))"
  unfolding Entry_init_def using start_nodes_taken
  by (auto simp: start_nodes_free Entry_empty_def unat_eq_zero)

theorem peers_started_witness:
  "\<exists>e. Entry_init (sample_world (\<lambda>_. None)) ConfigStatics_default (Configuration_default\<lparr>node_amount := 2, api_port := 65535\<rparr>) statics_init = Inr e \<and>
     map dht_api (m_DHTs e) = [Some 65535, Some 0]"
  using peers_started [of "Configuration_default\<lparr>node_amount := 2, api_port := 65535\<rparr>" "sample_world (\<lambda>_. None)"
      ConfigStatics_default statics_init]
  by (auto simp: sample_world_def Configuration_default_def upt_rec new_dht_def)

text \<open>
  Removing peers: a range inside the list, none of which hangs, is cut out of the peers and of their servers and
  nothing else changes, and with one that hangs the command does not return; an index outside the list, and a count that goes past its end without passing 32 bits, change
  nothing and are reported.
\<close>

theorem remove_correct:
  fixes i :: u32
  assumes "entry_ok e" and "arg_number args 0 = Some i"
    and "c = (case arg_number args 1 of Some (k :: u32) \<Rightarrow> unat k | None \<Rightarrow> 1)" and "n = length (m_nodes e)"
  shows "(unat i < n \<and> unat i + c \<le> n \<longrightarrow>
      execute w (''remove'' # args) e =
        (if list_ex dht_hung (take c (drop (unat i) (m_DHTs e))) then Inl Never_Returns
         else Inr (e\<lparr>m_DHTs := take (unat i) (m_DHTs e) @ drop (unat i + c) (m_DHTs e),
               m_nodes := take (unat i) (m_nodes e) @ drop (unat i + c) (m_nodes e)\<rparr>, []))) \<and>
    (n \<le> unat i \<or> n < unat i + c \<and> unat i + c < 2 ^ 32 \<longrightarrow>
      (\<exists>msg. execute w (''remove'' # args) e = Inr (e, [Error_Text msg])))"
proof -
  have paired: "length (m_DHTs e) = length (m_nodes e)" using entry_ok_length [OF assms(1)] .
  have run: "execute w (''remove'' # args) e =
      (case cmd_remove args e of Inl err \<Rightarrow> Inl err
       | Inr (thrown, e', os) \<Rightarrow> Inr (e', os @ (case thrown of Some msg \<Rightarrow> [Error_Text msg] | None \<Rightarrow> [])))"
    by (simp add: execute_def execute_in_def numeral_eq_Suc)
  have index: "args \<noteq> []" "parse_number (hd args) = Some i"
    using assms(2) by (auto simp: arg_number_def hd_conv_nth split: if_splits)
  have sum: "unat (i + k) = unat i + unat k" if "unat i + unat k < 2 ^ 32" for k :: u32
    using that by (simp add: unat_plus_if')
  show ?thesis
  proof (cases "n \<le> unat i")
    case True
    then show ?thesis using index assms(4) by (simp add: run cmd_remove_def throws_def)
  next
    case in_range: False
    show ?thesis
    proof (cases "arg_number args 1 :: u32 option")
      case None
      then have "cmd_remove args e = erase_nodes (unat i) 1 e"
        using index in_range assms(4) by (auto simp: cmd_remove_def arg_number_def split: if_splits)
      then show ?thesis
        using None in_range assms paired by (auto simp: run erase_nodes_def prints_def)
    next
      case (Some k)
      then have "cmd_remove args e =
          (if n < unat (i + k) then throws (''Count ['' @ to_string_nat (unat k) @ ''] out of bounds!'') e
           else erase_nodes (unat i) (unat k) e)"
        using index in_range assms(4) by (auto simp: cmd_remove_def arg_number_def split: if_splits)
      moreover have "unat (i + k) \<le> unat i + unat k" by (simp add: unat_plus_if')
      ultimately show ?thesis
        using Some in_range assms paired sum [of k] by (auto simp: run erase_nodes_def prints_def throws_def)
    qed
  qed
qed

theorem remove_correct_witness:
  "\<exists>e. Entry_init (sample_world (\<lambda>_. None)) ConfigStatics_default (Configuration_default\<lparr>node_amount := 3\<rparr>) statics_init = Inr e \<and>
     map_sum id (\<lambda>(e', os). map dht_api (m_DHTs e')) (execute (sample_world (\<lambda>_. None)) [''remove'', ''1''] e) = Inr [Some 7002, Some 7004]"
proof -
  obtain e where e: "Entry_init (sample_world (\<lambda>_. None)) ConfigStatics_default (Configuration_default\<lparr>node_amount := 3\<rparr>) statics_init = Inr e"
    using sample_init by blast
  have "length (m_nodes e) = 3" "\<exists>a b c. m_DHTs e = [new_dht a (Some 7002), new_dht b (Some 7003), new_dht c (Some 7004)]"
    using e by (auto simp: Entry_init_def start_nodes_free Entry_empty_def Configuration_default_def upt_rec)
  moreover have "arg_number [''1''] 0 = Some (1 :: u32)" "arg_number [''1''] 1 = (None :: u32 option)"
    using parse_digits [of "''1''", where 'a = 32] by (simp_all add: arg_number_def is_digit_def)
  ultimately show ?thesis
    using e remove_correct [OF init_entry(2) [OF e], of "[''1'']" 1 1 3 "sample_world (\<lambda>_. None)"] by (auto simp: new_dht_def)
qed

text \<open>
  C28: Reading a line: a comment goes up to the end of the line; the words are those of a scanner that
  looks at one character at a time; and a list of words, put on a line with blanks, is read back.
\<close>

theorem words_of_line:
  assumes "CHR 0x0A \<notin> set line" and "CHR 0x0D \<notin> set line"
    and "\<And>v. v \<in> set vs \<Longrightarrow> v \<noteq> [] \<and> list_all is_word v"
  shows "regex_remove comment_re line = takeWhile (\<lambda>c. c \<noteq> CHR ''#'') line \<and> tokenize line = scan line \<and>
    tokenize (join vs '' '') = vs"
  using remove_comment [OF assms(1,2)] scan_words [OF assms(3)] by (simp add: tokenize_scan)

theorem words_of_line_witness:
  "tokenize ''show [all nodes]#now'' = [''show'', ''[all nodes]'', ''#now''] \<and>
   regex_remove comment_re ''show [all nodes]#now'' = ''show [all nodes]'' \<and>
   tokenize (join [''add'', ''6010''] '' '') = [''add'', ''6010'']"
proof -
  have "v \<noteq> [] \<and> list_all is_word v" if "v \<in> set [''add'', ''6010'']" for v using that by (auto simp: is_word_def)
  from words_of_line [of "''show [all nodes]#now''" "[''add'', ''6010'']", OF _ _ this] show ?thesis by (simp add: is_word_def)
qed

text \<open>
  The shell stops only at a line that is \<open>exit\<close> and nothing else, up to a comment: with blanks around it
  the command says that it shuts down, and the shell goes on.
\<close>

theorem exit_needs_exact_line:
  assumes "stdin s = (p @ ''exit'' @ q @ cmt) # ls" and "m_input_files (entry s) = []" and "\<not> isRepeatSet (entry s)"
    and "set p \<subseteq> {CHR '' '', CHR 0x09}" and "set q \<subseteq> {CHR '' '', CHR 0x09}"
    and "cmt = [] \<or> (\<exists>c. cmt = CHR ''#'' # c \<and> CHR 0x0A \<notin> set c \<and> CHR 0x0D \<notin> set c)"
  shows "\<exists>s'. shell_round w s = Inr s' \<and> Text (''Shutting down...'' @ [CHR 0x0A]) \<in> set (printed s') \<and>
    (halted s' \<longleftrightarrow> p = [] \<and> q = [])"
proof -
  have no_hash: "\<forall>c\<in>set (p @ ''exit'' @ q). c \<noteq> CHR ''#''" using assms(4,5) by auto
  have "takeWhile (\<lambda>c. c \<noteq> CHR ''#'') ((p @ ''exit'' @ q) @ cmt) = p @ ''exit'' @ q"
  proof -
    have "takeWhile (\<lambda>c. c \<noteq> CHR ''#'') cmt = []" using assms(6) by auto
    then show ?thesis by (subst takeWhile_append2) (use no_hash in auto)
  qed
  moreover have "regex_remove comment_re ((p @ ''exit'' @ q) @ cmt) = takeWhile (\<lambda>c. c \<noteq> CHR ''#'') ((p @ ''exit'' @ q) @ cmt)"
    by (rule remove_comment) (use assms(4-6) in auto)
  ultimately have line: "regex_remove comment_re (p @ ''exit'' @ q @ cmt) = p @ ''exit'' @ q" by simp
  have tok: "tokenize (p @ ''exit'' @ q) = [''exit'']"
    by (rule tokenize_padded) (use assms(4,5) in \<open>simp_all add: is_word_def\<close>)
  have only: "p @ ''exit'' @ q = ''exit'' \<longleftrightarrow> p = [] \<and> q = []"
  proof
    assume "p @ ''exit'' @ q = ''exit''"
    from arg_cong [OF this, of length] show "p = [] \<and> q = []" by simp
  qed simp
  let ?s = "s\<lparr>printed := printed s @ [Prompt], stdin := ls\<rparr>"
  have "shell_round w s = run_line w (p @ ''exit'' @ q) ?s"
    using assms(1-3) line by (simp add: shell_round_def Let_def)
  also have "\<dots> = Inr (?s\<lparr>entry := peers_work w (length (printed ?s)) ((entry s)\<lparr>m_lastEnteredCommand := p @ ''exit'' @ q, isRepeatSet := False\<rparr>),
       printed := printed ?s @ (if \<not> w_tty w \<or> m_input_files (entry s) \<noteq> [] then [Echo (m_input_filenames (entry s)) (p @ ''exit'' @ q)] else []) @
         [Text (''Shutting down...'' @ [CHR 0x0A])] @ [Text [CHR 0x0A]], halted := (p @ ''exit'' @ q = ''exit'')\<rparr>)"
    unfolding run_line_def tok by (simp add: execute_def execute_in_def numeral_eq_Suc cmd_exit_def prints_def Let_def)
  finally show ?thesis unfolding only by auto
qed

theorem exit_needs_exact_line_witness:
  "\<exists>s'. shell_round (sample_world (\<lambda>_. None)) \<lparr>entry = Entry_empty Configuration_default statics_init, stdin = [''exit # bye''],
     printed = [], halted = False\<rparr> = Inr s' \<and> \<not> halted s'"
  using exit_needs_exact_line [of "\<lparr>entry = Entry_empty Configuration_default statics_init, stdin = [''exit # bye''],
     printed = [], halted = False\<rparr>" "[]" "'' ''" "''# bye''" "[]" "sample_world (\<lambda>_. None)"]
  by (auto simp: Entry_empty_def)

text \<open>
  The listing of a finger table, in which lines that repeat the last finger are left out, stands for
  the whole table: writing the last finger again for each missing line gives every finger back.
\<close>

theorem finger_listing_complete:
  assumes "parse_number x = Some (i :: u32)" and "unat i < length (m_nodes e)"
  shows "\<exists>os. execute w [''show'', ''fingers'', x] e = Inr (e, os) \<and>
    list_all2 (opt_node_eq (w_hash w)) (listed_fingers 0 None os) (m_fingerTable (m_nodes e ! unat i))"
proof -
  have "\<exists>gs. listed_fingers 0 None (finger_lines (w_hash w) 0 None False fs) = replicate (0 - 0) None @ gs \<and>
      list_all2 (opt_node_eq (w_hash w)) gs fs" for fs
    by (rule listed_finger_lines) auto
  then have "list_all2 (opt_node_eq (w_hash w)) (listed_fingers 0 None (finger_lines (w_hash w) 0 None False fs)) fs" for fs
    by (metis append_Nil diff_self_eq_0 replicate_0)
  moreover have "execute w [''show'', ''fingers'', x] e =
      Inr (e, finger_lines (w_hash w) 0 None False (m_fingerTable (m_nodes e ! unat i)))"
    using assms by (simp add: execute_def execute_in_def numeral_eq_Suc cmd_show_def no_throw_def cmd_show_fingers_def prints_def
        to_lower_def char_to_lower_def)
  ultimately show ?thesis by blast
qed

theorem finger_listing_complete_witness:
  "\<exists>e os. Entry_init (sample_world (\<lambda>_. None)) ConfigStatics_default Configuration_default statics_init = Inr e \<and>
     execute (sample_world (\<lambda>_. None)) [''show'', ''fingers'', ''0''] e = Inr (e, os) \<and>
     length (listed_fingers 0 None os) = 256"
proof -
  obtain e where e: "Entry_init (sample_world (\<lambda>_. None)) ConfigStatics_default Configuration_default statics_init = Inr e"
    using sample_init by blast
  have one: "length (m_nodes e) = 1"
    using e by (auto simp: Entry_init_def start_nodes_free Entry_empty_def Configuration_default_def)
  then have "length (m_fingerTable (m_nodes e ! 0)) = 256"
    using init_entry(2) [OF e] by (simp add: entry_ok_def list_all_length ni_ok_def key_bits_def)
  moreover have "parse_number ''0'' = Some (0 :: u32)" using parse_digits [of "''0''", where 'a = 32] by (simp add: is_digit_def)
  ultimately show ?thesis
    using e one finger_listing_complete [of "''0''" 0 e "sample_world (\<lambda>_. None)"] by (auto dest: list_all2_lengthD)
qed

text \<open>
  To repeat a script that another script executed, \<open>repeat\<close> resolves its path a second time: the name
  kept for it already contains the directory of the outer script, and \<open>execute\<close> prepends it again. Unless a
  file of that name exists, the script is not repeated.
\<close>

theorem repeat_resolves_twice:
  assumes "m_input_files (entry s) = [] # (''repeat'' # ls) # fs" and "m_input_filenames (entry s) = ns @ [outer, inner]"
    and "\<not> isRepeatSet (entry s)" and "length fs < 63" and "inner \<noteq> []" and "list_all is_word inner"
    and "w_files w (path_append (parent_path outer) inner) = None"
  shows "\<exists>s'. (next_round w ^^ 3) (Inr s) = Inr s' \<and>
    Error_Text (''Could not open '' @ path_append (parent_path outer) inner) \<in> set (printed s') \<and>
    m_input_files (entry s') = ls # fs"
proof -
  define s1 where "s1 = s\<lparr>entry := (entry s)\<lparr>m_lastEnteredCommand := ''execute '' @ inner,
      m_input_files := (''repeat'' # ls) # fs, m_input_filenames := ns @ [outer]\<rparr>,
      printed := printed s @ [Prompt, Script_Finished (ns @ [outer, inner])]\<rparr>"
  have r1: "shell_round w s = Inr s1"
    using assms(1-3) by (simp add: shell_round_def Let_def s1_def butlast_append)
  have word: "regex_remove comment_re ''repeat'' = ''repeat''" "tokenize ''repeat'' = [''repeat'']"
    by (subst remove_comment; simp) (simp add: tokenize_scan is_word_def)
  obtain s2 where r2: "shell_round w s1 = Inr s2" and s2: "isRepeatSet (entry s2)" "m_lastEnteredCommand (entry s2) = ''execute '' @ inner"
    "m_input_files (entry s2) = ls # fs" "m_input_filenames (entry s2) = ns @ [outer]"
    using assms(3) word
    by (auto simp: shell_round_def Let_def s1_def run_line_def execute_def execute_in_def numeral_eq_Suc cmd_repeat_def prints_def
        peers_work_def)
  have tok: "tokenize (''execute '' @ inner) = [''execute'', inner]"
    using scan_word [OF assms(5,6), of "[]"] by (simp add: tokenize_scan is_word_def)
  obtain s3 where r3: "shell_round w s2 = Inr s3" and s3: "m_input_files (entry s3) = ls # fs"
    "Error_Text (''Could not open '' @ path_append (parent_path outer) inner) \<in> set (printed s3)"
    using s2 assms(4,7) tok
    by (auto simp: shell_round_def Let_def run_line_def execute_def execute_in_def numeral_eq_Suc cmd_execute_def throws_def
        peers_work_def)
  have "(next_round w ^^ 3) (Inr s) = Inr s3" by (simp add: numeral_3_eq_3 next_round_def r1 r2 r3)
  with s3 show ?thesis by blast
qed

theorem repeat_resolves_twice_witness:
  "\<exists>s'. (next_round (sample_world ((\<lambda>_. None)(''d/b'' \<mapsto> []))) ^^ 3)
     (Inr \<lparr>entry = (Entry_empty Configuration_default statics_init)
             \<lparr>m_input_files := [[], [''repeat'']], m_input_filenames := [''d/a'', ''d/b'']\<rparr>,
           stdin = [], printed = [], halted = False\<rparr>) = Inr s' \<and>
     Error_Text ''Could not open d/d/b'' \<in> set (printed s')"
proof -
  have "path_append (parent_path ''d/a'') ''d/b'' = ''d/d/b''" by (simp add: path_append_def parent_path_def)
  then show ?thesis
    using repeat_resolves_twice [of "\<lparr>entry = (Entry_empty Configuration_default statics_init)
        \<lparr>m_input_files := [[], [''repeat'']], m_input_filenames := [''d/a'', ''d/b'']\<rparr>,
        stdin = [], printed = [], halted = False\<rparr>" "[]" "[]" "[]" "''d/a''" "''d/b''" "sample_world ((\<lambda>_. None)(''d/b'' \<mapsto> []))"]
    by (auto simp: Entry_empty_def is_word_def)
qed

end
