(* ===== verification/Logging.thy ===== *)
theory Logging
  imports Chord_Prelude
begin

text \<open>
  \<open>src/src/logging/centralLogControl.h\<close> and \<open>InitSpdlog\<close> of \<open>src/src/dht-4.cpp\<close>: the levels of the log, the
  macros that log a message with the name of the function it comes from, and the sinks of the program. The log
  itself is the library spdlog: a message is written where its level reaches that of the logger and that of
  the sink.
\<close>

section \<open>Definitions\<close>

subsection \<open>Levels\<close>

datatype level_enum =
  level_trace | level_debug | level_info | level_warn | level_err | level_critical | level_off

fun level_num :: "level_enum \<Rightarrow> int" where
  "level_num level_trace = 0"
| "level_num level_debug = 1"
| "level_num level_info = 2"
| "level_num level_warn = 3"
| "level_num level_err = 4"
| "level_num level_critical = 5"
| "level_num level_off = 6"

definition n_levels :: int where
  "n_levels = 7"

instantiation level_enum :: linorder
begin

definition less_eq_level_enum :: "level_enum \<Rightarrow> level_enum \<Rightarrow> bool" where
  "less_eq_level_enum a b \<longleftrightarrow> level_num a \<le> level_num b"

definition less_level_enum :: "level_enum \<Rightarrow> level_enum \<Rightarrow> bool" where
  "less_level_enum a b \<longleftrightarrow> level_num a < level_num b"

instance
proof
  fix a b :: level_enum
  assume "a \<le> b" and "b \<le> a"
  then show "a = b" by (cases a; cases b) (simp_all add: less_eq_level_enum_def)
qed (auto simp: less_eq_level_enum_def less_level_enum_def)

end

text \<open>The cast of a number to its level.\<close>

definition level_of :: "int \<Rightarrow> level_enum" where
  "level_of n = [level_trace, level_debug, level_info, level_warn, level_err, level_critical, level_off] ! nat n"

subsection \<open>The macros\<close>

text \<open>
  Where a message is logged: the name of the function as the compiler has it, and the variable \<open>_func_\<close> with
  the name that is logged. In a lambda expression the former is \<open>operator()\<close>; \<open>LOG_CAPTURE\<close> in its capture list
  takes the variable along.
\<close>

record log_scope =
  SPDLOG_FUNCTION :: string
  func_var :: "string option"

definition LOG_GET :: "log_scope \<Rightarrow> log_scope" where
  "LOG_GET s = s\<lparr>func_var := Some (SPDLOG_FUNCTION s)\<rparr>"

definition LOG_SET :: "string \<Rightarrow> log_scope \<Rightarrow> log_scope" where
  "LOG_SET name s = s\<lparr>func_var := Some name\<rparr>"

definition LOG_CAPTURE :: "log_scope \<Rightarrow> log_scope" where
  "LOG_CAPTURE outer = \<lparr>SPDLOG_FUNCTION = ''operator()'', func_var = func_var outer\<rparr>"

definition LOG_FUNCTION :: "log_scope \<Rightarrow> string option" where
  "LOG_FUNCTION s = func_var s"

record log_message =
  source_file :: string
  source_line :: nat
  source_func :: string
  msg_level :: level_enum
  msg_text :: string

text \<open>\<open>None\<close>: the variable is not declared, and the call does not compile.\<close>

definition LOG_LOGGER_CALL :: "log_scope \<Rightarrow> string \<Rightarrow> nat \<Rightarrow> level_enum \<Rightarrow> string \<Rightarrow> log_message option" where
  "LOG_LOGGER_CALL s file line lvl txt =
     map_option (\<lambda>f. \<lparr>source_file = file, source_line = line, source_func = f, msg_level = lvl, msg_text = txt\<rparr>)
       (LOG_FUNCTION s)"

definition SPDLOG_ACTIVE_LEVEL :: level_enum where
  "SPDLOG_ACTIVE_LEVEL = level_trace"

text \<open>
  The macros of the six levels, \<open>LOG_TRACE\<close> to \<open>LOG_CRITICAL\<close>: one call of the default logger, or nothing where
  the level is compiled out.
\<close>

definition LOG_macro :: "level_enum \<Rightarrow> log_scope \<Rightarrow> string \<Rightarrow> nat \<Rightarrow> string \<Rightarrow> log_message list option" where
  "LOG_macro lvl s file line txt =
     (if SPDLOG_ACTIVE_LEVEL \<le> lvl then map_option (\<lambda>m. [m]) (LOG_LOGGER_CALL s file line lvl txt) else Some [])"

subsection \<open>The logger of the program\<close>

record async_logger =
  stdout_level :: level_enum
  file_level :: level_enum
  logger_level :: level_enum
  logger_pattern :: string
  logfile :: string

definition InitSpdlog :: "int \<Rightarrow> string \<Rightarrow> async_logger" where
  "InitSpdlog consoleLogLevel logfilePath =
     \<lparr>stdout_level = (if 0 \<le> consoleLogLevel \<and> consoleLogLevel < n_levels then level_of consoleLogLevel else level_warn),
      file_level = level_trace,
      logger_level = level_debug,
      logger_pattern = ''[%Y-%m-%d %H:%M:%S.%e] %^[%l] [%s::%!()-#%#] %v%$'',
      logfile = logfilePath\<rparr>"

definition on_stdout :: "async_logger \<Rightarrow> log_message \<Rightarrow> bool" where
  "on_stdout l m \<longleftrightarrow> logger_level l \<le> msg_level m \<and> stdout_level l \<le> msg_level m"

definition in_file :: "async_logger \<Rightarrow> log_message \<Rightarrow> bool" where
  "in_file l m \<longleftrightarrow> logger_level l \<le> msg_level m \<and> file_level l \<le> msg_level m"

section \<open>Levels\<close>

lemma level_of_num [simp]: "0 \<le> c \<Longrightarrow> c < n_levels \<Longrightarrow> level_num (level_of c) = c"
proof -
  assume "0 \<le> c" "c < n_levels"
  then have "c \<in> {0, 1, 2, 3, 4, 5, 6}" by (auto simp: n_levels_def)
  then show ?thesis by (auto simp: level_of_def)
qed

lemma level_trace_least [simp]: "level_trace \<le> l"
  by (cases l) (simp_all add: less_eq_level_enum_def)

section \<open>Properties\<close>

text \<open>
  What is logged where. A macro compiles exactly where the variable with the function's name is known, and then makes
  one call, with the name of the function around, also in a lambda expression that captures it. The
  terminal shows the messages of at least the chosen level, and of at least \<open>warn\<close> if the number chosen is
  no level; the file has all of them, and every other message from \<open>debug\<close> on. A message of the level
  \<open>trace\<close> is written nowhere, though it is not compiled out and the file asks for it.
\<close>

theorem log_written:
  assumes "LOG_macro lvl (LOG_CAPTURE (LOG_GET s)) file line txt = Some ms"
  shows "\<exists>m. ms = [m] \<and> source_func m = SPDLOG_FUNCTION s \<and>
    (in_file (InitSpdlog c path) m \<longleftrightarrow> lvl \<noteq> level_trace) \<and>
    (on_stdout (InitSpdlog c path) m \<longleftrightarrow>
       lvl \<noteq> level_trace \<and> (if 0 \<le> c \<and> c < n_levels then c \<le> level_num lvl else level_warn \<le> lvl))"
proof -
  obtain m where m: "ms = [m]" "source_func m = SPDLOG_FUNCTION s" "msg_level m = lvl"
    using assms by (auto simp: LOG_macro_def SPDLOG_ACTIVE_LEVEL_def LOG_LOGGER_CALL_def LOG_FUNCTION_def LOG_CAPTURE_def LOG_GET_def)
  have "level_debug \<le> lvl \<longleftrightarrow> lvl \<noteq> level_trace" by (cases lvl) (simp_all add: less_eq_level_enum_def)
  with m show ?thesis
    by (auto simp: InitSpdlog_def in_file_def on_stdout_def less_eq_level_enum_def [of "level_of c"])
qed

theorem log_written_witness:
  "\<exists>m. LOG_macro level_info (LOG_CAPTURE (LOG_GET \<lparr>SPDLOG_FUNCTION = ''join'', func_var = None\<rparr>)) ''Dht.cpp'' 1 ''x'' = Some [m] \<and>
     in_file (InitSpdlog 3 ''./log.txt'') m \<and> \<not> on_stdout (InitSpdlog 3 ''./log.txt'') m"
proof -
  let ?s = "\<lparr>SPDLOG_FUNCTION = ''join'', func_var = None\<rparr>"
  obtain ms where ms: "LOG_macro level_info (LOG_CAPTURE (LOG_GET ?s)) ''Dht.cpp'' 1 ''x'' = Some ms"
    by (auto simp: LOG_macro_def SPDLOG_ACTIVE_LEVEL_def LOG_LOGGER_CALL_def LOG_FUNCTION_def LOG_CAPTURE_def LOG_GET_def)
  from log_written [OF this, of 3 "''./log.txt''"] ms show ?thesis by (auto simp: n_levels_def)
qed

end
