(* ===== verification/Command_Line.thy ===== *)
theory Command_Line
  imports Shell_Correct Logging
begin

text \<open>
  \<open>main\<close> of \<open>src/src/dht-4.cpp\<close> from its arguments on: the table of options, the usage, the settings, the log and
  the shell. The parser of the command line is the library cxxopts, the record \<open>cxxopts\<close> of this theory; what
  its documentation promises is \<open>cxxopts_documented\<close>, and \<open>plain_cxxopts\<close> is a parser that keeps it.
\<close>

section \<open>Definitions\<close>

subsection \<open>The options\<close>

datatype option_type = Opt_Text | Opt_Flag | Opt_U64 | Opt_Int | Opt_U8

record option_spec =
  opt_short :: "char option"
  opt_long :: string
  opt_type :: option_type
  opt_default :: "string option"

definition dht4_options :: "option_spec list" where
  "dht4_options =
     [\<lparr>opt_short = Some CHR ''c'', opt_long = ''config'', opt_type = Opt_Text, opt_default = Some ''./config.ini''\<rparr>,
      \<lparr>opt_short = Some CHR ''k'', opt_long = ''hostkey'', opt_type = Opt_Text, opt_default = None\<rparr>,
      \<lparr>opt_short = None, opt_long = ''password'', opt_type = Opt_Text, opt_default = None\<rparr>,
      \<lparr>opt_short = None, opt_long = ''certificate'', opt_type = Opt_Text, opt_default = None\<rparr>,
      \<lparr>opt_short = Some CHR ''h'', opt_long = ''help'', opt_type = Opt_Flag, opt_default = None\<rparr>,
      \<lparr>opt_short = Some CHR ''n'', opt_long = ''node-amount'', opt_type = Opt_U64, opt_default = Some ''1''\<rparr>,
      \<lparr>opt_short = Some CHR ''l'', opt_long = ''logMode'', opt_type = Opt_Int, opt_default = Some ''3''\<rparr>,
      \<lparr>opt_short = Some CHR ''o'', opt_long = ''logOutput'', opt_type = Opt_Text, opt_default = Some ''./log.txt''\<rparr>,
      \<lparr>opt_short = Some CHR ''s'', opt_long = ''startupScript'', opt_type = Opt_Text, opt_default = None\<rparr>,
      \<lparr>opt_short = Some CHR ''d'', opt_long = ''POWdifficulty'', opt_type = Opt_U8, opt_default = None\<rparr>,
      \<lparr>opt_short = Some CHR ''r'', opt_long = ''replicationLimit'', opt_type = Opt_U8, opt_default = None\<rparr>]"

text \<open>
  What parsing delivers, by the long names: how often an option was given, and the text of its value. The values
  are read as numbers by the library; \<open>None\<close> is a text it refuses.
\<close>

record parse_result =
  arg_count :: "string \<Rightarrow> nat"
  arg_text :: "string \<Rightarrow> string option"

record cxxopts =
  cxx_parse :: "option_spec list \<Rightarrow> string list \<Rightarrow> parse_result result"
  cxx_help :: "option_spec list \<Rightarrow> string"
  as_u64 :: "string \<Rightarrow> u64 option"
  as_u8 :: "string \<Rightarrow> byte option"
  as_int :: "string \<Rightarrow> int option"

definition options_of :: "cxxopts \<Rightarrow> parse_result \<Rightarrow> Options" where
  "options_of lib args =
     \<lparr>opt_config = arg_text args ''config'',
      opt_hostkey = arg_text args ''hostkey'',
      opt_certificate = arg_text args ''certificate'',
      opt_password = arg_text args ''password'',
      opt_startupScript = arg_text args ''startupScript'',
      opt_node_amount =
        (if arg_count args ''node-amount'' > 0 then Option.bind (arg_text args ''node-amount'') (as_u64 lib) else None),
      opt_POWdifficulty =
        (if arg_count args ''POWdifficulty'' > 0 then Option.bind (arg_text args ''POWdifficulty'') (as_u8 lib) else None),
      opt_replicationLimit =
        (if arg_count args ''replicationLimit'' > 0 then Option.bind (arg_text args ''replicationLimit'') (as_u8 lib) else None)\<rparr>"

subsection \<open>The program\<close>

datatype program_end = Usage string | Ran async_logger Entry "shell_out list"

text \<open>
  \<open>open_log\<close> is the exception of opening the log's file, if there is one; \<open>None\<close> as a result is a program that
  does not end. The configuration is read before the log is opened, and the shell is started after that.
\<close>

definition dht4_program ::
    "cxxopts \<Rightarrow> (string \<Rightarrow> cpp_error option) \<Rightarrow> world \<Rightarrow> (string \<Rightarrow> ini) \<Rightarrow> string list \<Rightarrow> string list \<Rightarrow>
     program_end result option" where
  "dht4_program lib open_log w files argv lines =
     (case cxx_parse lib dht4_options argv of
        Inl err \<Rightarrow> Some (Inl err)
      | Inr args \<Rightarrow>
          if arg_count args ''help'' > 0 then Some (Inr (Usage (cxx_help lib dht4_options)))
          else
            (case (Option.bind (arg_text args ''logMode'') (as_int lib), arg_text args ''logOutput'') of
               (Some mode, Some path) \<Rightarrow>
                 (case open_log path of
                    Some err \<Rightarrow> Some (Inl err)
                  | None \<Rightarrow>
                      map_option (map_sum id (\<lambda>(e, os). Ran (InitSpdlog mode path) e os))
                        (dht4_main w files (options_of lib args) lines))
             | _ \<Rightarrow> Some (Inl Bad_Cast)))"

subsection \<open>What the library promises\<close>

definition reads_as :: "cxxopts \<Rightarrow> option_type \<Rightarrow> string \<Rightarrow> bool" where
  "reads_as lib ty t =
     (case ty of
        Opt_U64 \<Rightarrow> as_u64 lib t \<noteq> None
      | Opt_U8 \<Rightarrow> as_u8 lib t \<noteq> None
      | Opt_Int \<Rightarrow> as_int lib t \<noteq> None
      | _ \<Rightarrow> True)"

text \<open>
  For a table without two options of one name: an option that was not given has its default, if it has one; one
  that was given has a value; every value is one of the option's type. Numbers are read in decimal.
\<close>

definition cxxopts_documented :: "cxxopts \<Rightarrow> bool" where
  "cxxopts_documented lib \<longleftrightarrow>
     as_int lib ''3'' = Some 3 \<and>
     (\<forall>specs argv args p.
        distinct (map opt_long specs) \<and> cxx_parse lib specs argv = Inr args \<and> p \<in> set specs \<and> opt_type p \<noteq> Opt_Flag \<longrightarrow>
        (arg_count args (opt_long p) = 0 \<longrightarrow> arg_text args (opt_long p) = opt_default p) \<and>
        (arg_count args (opt_long p) > 0 \<longrightarrow> arg_text args (opt_long p) \<noteq> None) \<and>
        (\<forall>t. arg_text args (opt_long p) = Some t \<longrightarrow> reads_as lib (opt_type p) t))"

text \<open>What was given for an option.\<close>

definition given :: "parse_result \<Rightarrow> string \<Rightarrow> string option" where
  "given args name = (if arg_count args name > 0 then arg_text args name else None)"

text \<open>The configuration file that is read, and the path and level of the log.\<close>

definition config_path :: "parse_result \<Rightarrow> string" where
  "config_path args = (case given args ''config'' of Some p \<Rightarrow> p | None \<Rightarrow> ''./config.ini'')"

definition log_path :: "parse_result \<Rightarrow> string" where
  "log_path args = (case given args ''logOutput'' of Some p \<Rightarrow> p | None \<Rightarrow> ''./log.txt'')"

definition log_mode :: "cxxopts \<Rightarrow> parse_result \<Rightarrow> int" where
  "log_mode lib args = (case given args ''logMode'' of Some t \<Rightarrow> the (as_int lib t) | None \<Rightarrow> 3)"

section \<open>Options\<close>

lemma options_distinct: "distinct (map opt_long dht4_options)"
  by (simp add: dht4_options_def)

text \<open>What the library promises, for one option of the table.\<close>

lemma option_value:
  assumes "cxxopts_documented lib" and "cxx_parse lib dht4_options argv = Inr args"
    and "p \<in> set dht4_options" and "opt_type p \<noteq> Opt_Flag"
  shows "arg_text args (opt_long p) = (case given args (opt_long p) of Some t \<Rightarrow> Some t | None \<Rightarrow> opt_default p)"
    and "given args (opt_long p) \<noteq> None \<longleftrightarrow> arg_count args (opt_long p) > 0"
    and "arg_text args (opt_long p) = Some t \<Longrightarrow> reads_as lib (opt_type p) t"
proof -
  have "(arg_count args (opt_long p) = 0 \<longrightarrow> arg_text args (opt_long p) = opt_default p) \<and>
      (arg_count args (opt_long p) > 0 \<longrightarrow> arg_text args (opt_long p) \<noteq> None) \<and>
      (\<forall>t. arg_text args (opt_long p) = Some t \<longrightarrow> reads_as lib (opt_type p) t)"
    using assms options_distinct unfolding cxxopts_documented_def by blast
  then show "arg_text args (opt_long p) = (case given args (opt_long p) of Some t \<Rightarrow> Some t | None \<Rightarrow> opt_default p)"
    "given args (opt_long p) \<noteq> None \<longleftrightarrow> arg_count args (opt_long p) > 0"
    "arg_text args (opt_long p) = Some t \<Longrightarrow> reads_as lib (opt_type p) t"
    by (auto simp: given_def split: option.splits)
qed

lemma config_value:
  assumes "cxxopts_documented lib" and "cxx_parse lib dht4_options argv = Inr args"
  shows "arg_text args ''config'' = Some (config_path args)" and "arg_text args ''logOutput'' = Some (log_path args)"
    and "Option.bind (arg_text args ''logMode'') (as_int lib) = Some (log_mode lib args)"
    and "opt_node_amount (options_of lib args) = Option.bind (given args ''node-amount'') (as_u64 lib)"
    and "opt_node_amount (options_of lib args) = None \<longleftrightarrow> arg_count args ''node-amount'' = 0"
proof -
  note v = option_value [OF assms]
  show "arg_text args ''config'' = Some (config_path args)"
    using v(1) [of "dht4_options ! 0"] by (simp add: dht4_options_def config_path_def split: option.splits)
  show "arg_text args ''logOutput'' = Some (log_path args)"
    using v(1) [of "dht4_options ! 7"] by (simp add: dht4_options_def log_path_def split: option.splits)
  show "Option.bind (arg_text args ''logMode'') (as_int lib) = Some (log_mode lib args)"
    using v(1) [of "dht4_options ! 6"] v(3) [of "dht4_options ! 6"] assms(1)
    by (auto simp: dht4_options_def log_mode_def reads_as_def cxxopts_documented_def split: option.splits)
  show "opt_node_amount (options_of lib args) = Option.bind (given args ''node-amount'') (as_u64 lib)"
    by (simp add: options_of_def given_def)
  then show "opt_node_amount (options_of lib args) = None \<longleftrightarrow> arg_count args ''node-amount'' = 0"
    using v(1) [of "dht4_options ! 5"] v(2) [of "dht4_options ! 5"] v(3) [of "dht4_options ! 5"]
    by (auto simp: dht4_options_def reads_as_def split: option.splits)
qed

text \<open>Settings that no option changes, or that were not given.\<close>

lemma settings_kept:
  assumes "opt_config opts = Some path"
  shows "p2p_port (fst (main_settings files opts)) = p2p_port (parseConfigFile (files path))"
    and "use_tls (fst (main_settings files opts)) = use_tls (parseConfigFile (files path))"
    and "opt_node_amount opts = None \<Longrightarrow> node_amount (fst (main_settings files opts)) = node_amount (parseConfigFile (files path))"
  using assms
  by (simp_all add: main_settings_def Let_def option.case_eq_if if_distrib [of p2p_port] if_distrib [of use_tls]
      if_distrib [of node_amount])

section \<open>A parser\<close>

definition matches :: "string \<Rightarrow> option_spec \<Rightarrow> bool" where
  "matches a p \<longleftrightarrow> a = ''--'' @ opt_long p \<or> (case opt_short p of Some c \<Rightarrow> a = [CHR ''-'', c] | None \<Rightarrow> False)"

text \<open>The options with their values in the order of the arguments.\<close>

fun plain_values :: "option_spec list \<Rightarrow> string list \<Rightarrow> (string \<times> string) list option" where
  "plain_values specs [] = Some []"
| "plain_values specs [a] =
     (case find (matches a) specs of
        Some p \<Rightarrow> if opt_type p = Opt_Flag then Some [(opt_long p, ''true'')] else None
      | None \<Rightarrow> None)"
| "plain_values specs (a # v # rest) =
     (case find (matches a) specs of
        Some p \<Rightarrow>
          if opt_type p = Opt_Flag then map_option ((#) (opt_long p, ''true'')) (plain_values specs (v # rest))
          else map_option ((#) (opt_long p, v)) (plain_values specs rest)
      | None \<Rightarrow> None)"

definition decimal :: "nat \<Rightarrow> string \<Rightarrow> nat option" where
  "decimal limit t =
     (let n = foldl (\<lambda>n c. 10 * n + (of_char c - 48)) 0 t
      in if t \<noteq> [] \<and> list_all is_digit t \<and> n < limit then Some n else None)"

definition plain_result :: "option_spec list \<Rightarrow> (string \<times> string) list \<Rightarrow> parse_result" where
  "plain_result specs vs =
     \<lparr>arg_count = (\<lambda>name. length (filter (\<lambda>(n, v). n = name) vs)),
      arg_text = (\<lambda>name.
        case map_of (rev vs) name of
          Some v \<Rightarrow> Some v
        | None \<Rightarrow> Option.bind (map_of (map (\<lambda>p. (opt_long p, p)) specs) name) opt_default)\<rparr>"

definition plain_numbers :: cxxopts where
  "plain_numbers =
     \<lparr>cxx_parse = (\<lambda>specs argv. Inl (Runtime_Error ''no parser'')), cxx_help = (\<lambda>specs. ''Usage''),
      as_u64 = (\<lambda>t. map_option of_nat (decimal (2 ^ 64) t)), as_u8 = (\<lambda>t. map_option of_nat (decimal (2 ^ 8) t)),
      as_int = (\<lambda>t. map_option int (decimal (2 ^ 31) t))\<rparr>"

definition plain_parse :: "option_spec list \<Rightarrow> string list \<Rightarrow> parse_result result" where
  "plain_parse specs argv =
     (case plain_values specs argv of
        None \<Rightarrow> Inl (Runtime_Error ''option does not exist'')
      | Some vs \<Rightarrow>
          let args = plain_result specs vs
          in if list_all (\<lambda>p. opt_type p = Opt_Flag \<or>
                  (case arg_text args (opt_long p) of Some t \<Rightarrow> reads_as plain_numbers (opt_type p) t | None \<Rightarrow> True)) specs
             then Inr args else Inl (Runtime_Error ''argument fails to parse''))"

definition plain_cxxopts :: cxxopts where
  "plain_cxxopts = plain_numbers\<lparr>cxx_parse := plain_parse\<rparr>"

definition empty_ini :: ini where
  "empty_ini = \<lparr>get_string = \<lambda>_ _. None, get_bool = \<lambda>_ _. None, get_u64 = \<lambda>_ _. None\<rparr>"

lemma plain_text:
  assumes "distinct (map opt_long specs)" and "p \<in> set specs"
  shows "arg_count (plain_result specs vs) (opt_long p) = 0 \<Longrightarrow> arg_text (plain_result specs vs) (opt_long p) = opt_default p"
    and "arg_count (plain_result specs vs) (opt_long p) > 0 \<Longrightarrow> arg_text (plain_result specs vs) (opt_long p) \<noteq> None"
proof -
  have own: "map_of (map (\<lambda>p. (opt_long p, p)) specs) (opt_long p) = Some p"
    using assms by (intro map_of_is_SomeI) (auto simp: comp_def)
  have none: "map_of (rev vs) (opt_long p) = None \<longleftrightarrow> arg_count (plain_result specs vs) (opt_long p) = 0"
    by (force simp: plain_result_def map_of_eq_None_iff filter_empty_conv)
  show "arg_count (plain_result specs vs) (opt_long p) = 0 \<Longrightarrow> arg_text (plain_result specs vs) (opt_long p) = opt_default p"
    using none own by (simp add: plain_result_def)
  show "arg_count (plain_result specs vs) (opt_long p) > 0 \<Longrightarrow> arg_text (plain_result specs vs) (opt_long p) \<noteq> None"
    using none by (auto simp: plain_result_def split: option.splits)
qed

lemma plain_documented: "cxxopts_documented plain_cxxopts"
proof -
  have reads: "reads_as plain_cxxopts = reads_as plain_numbers"
    by (intro ext) (simp add: reads_as_def plain_cxxopts_def split: option_type.splits)
  have "as_int plain_cxxopts ''3'' = Some 3"
    by (simp add: plain_cxxopts_def plain_numbers_def decimal_def is_digit_def)
  moreover have "reads_as plain_cxxopts (opt_type p) t"
    if "plain_parse specs argv = Inr args" "p \<in> set specs" "opt_type p \<noteq> Opt_Flag" "arg_text args (opt_long p) = Some t"
    for specs argv args p t
    using that by (auto simp: plain_parse_def reads Let_def list_all_iff split: option.splits if_splits)
  moreover have "\<exists>vs. args = plain_result specs vs" if "plain_parse specs argv = Inr args" for specs argv args
    using that by (auto simp: plain_parse_def Let_def split: option.splits if_splits)
  ultimately show ?thesis
    using plain_text unfolding cxxopts_documented_def plain_cxxopts_def by fastforce
qed

section \<open>Properties\<close>

text \<open>
  C9: The program, from its arguments on. It always has a configuration file to read, \<open>./config.ini\<close> unless another
  is named. It returns with an exception of the parser; with the usage, whatever else was asked for; with the exception of a
  log file that cannot be opened; with that of a port that is taken; in undefined behaviour of a command; or at the
  end of its input, with all peers destroyed. It does not return only if some peer comes to hang, so that
  waiting for its destructor does not end.
\<close>

theorem program_run:
  assumes "cxxopts_documented lib"
  shows "case cxx_parse lib dht4_options argv of
      Inl err \<Rightarrow> dht4_program lib open_log w files argv lines = Some (Inl err)
    | Inr args \<Rightarrow>
        if arg_count args ''help'' > 0
        then dht4_program lib open_log w files argv lines = Some (Inr (Usage (cxx_help lib dht4_options)))
        else p2p_port (fst (main_settings files (options_of lib args))) = p2p_port (parseConfigFile (files (config_path args))) \<and>
          (case open_log (log_path args) of
             Some err \<Rightarrow> dht4_program lib open_log w files argv lines = Some (Inl err)
           | None \<Rightarrow>
               (case dht4_program lib open_log w files argv lines of
                  None \<Rightarrow> \<exists>t i. w_hangs w t i
                | Some r \<Rightarrow>
                    is_ub r \<or> (\<exists>p msg. w_bind w p = Some msg \<and> r = Inl (Runtime_Error msg)) \<or>
                    (\<exists>e os. r = Inr (Ran (InitSpdlog (log_mode lib args) (log_path args)) e os) \<and> m_nodes e = [] \<and> m_DHTs e = [])))"
proof (cases "cxx_parse lib dht4_options argv")
  case (Inl err)
  then show ?thesis by (simp add: dht4_program_def)
next
  case (Inr args)
  note v = config_value [OF assms Inr]
  show ?thesis
  proof (cases "arg_count args ''help'' > 0")
    case True
    then show ?thesis by (simp add: dht4_program_def Inr)
  next
    case False
    let ?f = "\<lambda>(e, os). Ran (InitSpdlog (log_mode lib args) (log_path args)) e os"
    have conf: "p2p_port (fst (main_settings files (options_of lib args))) = p2p_port (parseConfigFile (files (config_path args)))"
      using v(1) settings_kept(1) [of "options_of lib args" "config_path args" files] by (simp add: options_of_def)
    have run: "dht4_program lib open_log w files argv lines =
        (case open_log (log_path args) of
           Some err \<Rightarrow> Some (Inl err) | None \<Rightarrow> map_option (map_sum id ?f) (dht4_main w files (options_of lib args) lines))"
      using False v(2,3) by (simp add: dht4_program_def Inr split: option.split)
    have ub: "is_ub (map_sum id f q) \<longleftrightarrow> is_ub q" for f :: "Entry \<times> shell_out list \<Rightarrow> program_end" and q
      by (cases q) (simp_all add: is_ub_def split: cpp_error.splits)
    show ?thesis
    proof (cases "open_log (log_path args)")
      case None
      show ?thesis
      proof (cases "dht4_main w files (options_of lib args) lines")
        case main: None
        then show ?thesis
          using program_terminates [of w files "options_of lib args" lines] False conf by (simp add: Inr run None)
      next
        case (Some q)
        then show ?thesis
          using program_terminates [of w files "options_of lib args" lines] False conf by (simp add: Inr run None ub) auto
      qed
    qed (use False conf in \<open>simp add: Inr run\<close>)
  qed
qed

theorem program_run_witness:
  "\<exists>args r. cxx_parse plain_cxxopts dht4_options [''-n'', ''4'', ''--logMode'', ''0''] = Inr args \<and>
     arg_count args ''help'' = 0 \<and> config_path args = ''./config.ini'' \<and>
     dht4_program plain_cxxopts (\<lambda>_. None) (sample_world (\<lambda>_. None)) (\<lambda>_. empty_ini) [''-n'', ''4'', ''--logMode'', ''0''] [] = Some r \<and>
     (is_ub r \<or> (\<exists>e os. r = Inr (Ran (InitSpdlog 0 ''./log.txt'') e os) \<and> m_nodes e = []))"
proof -
  let ?argv = "[''-n'', ''4'', ''--logMode'', ''0'']"
  let ?args = "plain_result dht4_options [(''node-amount'', ''4''), (''logMode'', ''0'')]"
  have args: "cxx_parse plain_cxxopts dht4_options ?argv = Inr ?args"
    by (simp add: plain_cxxopts_def plain_parse_def dht4_options_def matches_def plain_result_def reads_as_def plain_numbers_def
        decimal_def is_digit_def Let_def)
  have "arg_count ?args ''help'' = 0" "config_path ?args = ''./config.ini''" "log_mode plain_cxxopts ?args = 0"
    "log_path ?args = ''./log.txt''"
    by (simp_all add: plain_result_def config_path_def log_path_def given_def log_mode_def plain_cxxopts_def plain_numbers_def
        decimal_def is_digit_def)
  with args show ?thesis
    using program_run [OF plain_documented, of "\<lambda>_. None" "sample_world (\<lambda>_. None)" "\<lambda>_. empty_ini" ?argv "[]"]
    by (auto split: option.splits)
qed

end
