(* ===== verification/Test_Programs.thy ===== *)
theory Test_Programs
  imports Rpc
begin

text \<open>
  The programs with which the libraries are tried out by hand: \<open>src/src/rpc/main.cpp\<close>, a server and a client in two
  threads; \<open>src/src/api/main.cpp\<close>, a server that echoes its requests; \<open>src/src/dht/main.cpp\<close>, a peer;
  \<open>src/src/config/main.cpp\<close>, which prints settings.
\<close>

section \<open>Definitions\<close>

subsection \<open>A server and a client (rpc/main.cpp)\<close>

text \<open>\<open>ExampleImpl::add\<close>, on 32-bit integers: the operands and their sum.\<close>

definition ExampleImpl_add :: "int \<Rightarrow> int \<Rightarrow> (int \<times> int \<times> int) result" where
  "ExampleImpl_add a b =
     (if - (2 ^ 31) \<le> a + b \<and> a + b < 2 ^ 31 then Inr (a, b, a + b)
      else Inl (Undefined_Behaviour ''overflow of an int''))"

text \<open>The settings of the program.\<close>

definition rpc_test_conf :: Configuration where
  "rpc_test_conf = Configuration_default
     \<lparr>private_key_password := Some ''asdf'', private_key_path := ''../../../hostkey.pem'',
      certificate_path := ''../../../hostcert.crt'', use_tls := True\<rparr>"

datatype test_call = Call_None | Call_Pending int int | Call_Result "(int \<times> int \<times> int) result"

text \<open>
  Where the threads are. The client spins until the server has polled, connects and sends its request, and waits;
  the server is created, and polls until the client is done; \<open>main\<close> waits for the client, then for the server. A
  thread that ends with an exception keeps it in its future.
\<close>

datatype test_client_pc = Client_Spin | Client_Connect | Client_Wait | Client_End | Client_Threw
datatype test_server_pc = TServer_Create | TServer_Loop | TServer_End | TServer_Threw
datatype test_main_pc = TMain_Client | TMain_Server | TMain_Returned

record rpc_test =
  t_started :: bool
  t_done :: bool
  t_call :: test_call
  t_client :: test_client_pc
  t_server :: test_server_pc
  t_main :: test_main_pc
  t_printed :: "string list"

definition rpc_test_init :: rpc_test where
  "rpc_test_init = \<lparr>t_started = False, t_done = False, t_call = Call_None, t_client = Client_Spin,
     t_server = TServer_Create, t_main = TMain_Client, t_printed = []\<rparr>"

text \<open>
  What the client prints: the sum without its colours, or the description of the exception, twice: in the error
  handler, and where it catches what that has thrown.
\<close>

definition report :: "(int \<times> int \<times> int) result \<Rightarrow> string list" where
  "report r =
     (case r of
        Inr (a, b, s) \<Rightarrow> [to_string_nat (nat a) @ '' + '' @ to_string_nat (nat b) @ '' = '' @ to_string_nat (nat s)]
      | Inl e \<Rightarrow> [''send Exception'', ''Error''])"

text \<open>A client whose server is gone gets an exception for an answer.\<close>

definition client_test_step :: "tls_files \<Rightarrow> rpc_test \<Rightarrow> rpc_test option" where
  "client_test_step fs t =
     (case t_client t of
        Client_Spin \<Rightarrow> if t_started t then Some (t\<lparr>t_client := Client_Connect\<rparr>) else None
      | Client_Connect \<Rightarrow>
          (case getClient fs rpc_test_conf of
             Inl e \<Rightarrow> Some (t\<lparr>t_client := Client_Threw\<rparr>)
           | Inr c \<Rightarrow> Some (t\<lparr>t_call := Call_Pending 123 297, t_client := Client_Wait\<rparr>))
      | Client_Wait \<Rightarrow>
          (case t_call t of
             Call_Result r \<Rightarrow> Some (t\<lparr>t_printed := t_printed t @ report r, t_done := True, t_client := Client_End\<rparr>)
           | _ \<Rightarrow> if t_server t \<in> {TServer_End, TServer_Threw}
                  then Some (t\<lparr>t_printed := t_printed t @ report (Inl (Rpc_Exception ''disconnected'')), t_done := True,
                               t_client := Client_End\<rparr>)
                  else None)
      | Client_End \<Rightarrow> None
      | Client_Threw \<Rightarrow> None)"

text \<open>
  \<open>bound\<close>: the port could be bound; otherwise the first \<open>poll\<close> throws. \<open>arrived\<close>: a request that is pending has
  reached the server when it polls. \<open>fails\<close>: handling the connection throws.
\<close>

definition server_test_step :: "tls_files \<Rightarrow> bool \<Rightarrow> bool \<Rightarrow> bool \<Rightarrow> rpc_test \<Rightarrow> rpc_test option" where
  "server_test_step fs bound arrived fails t =
     (case t_server t of
        TServer_Create \<Rightarrow>
          (case getServer fs rpc_test_conf () of
             Inl e \<Rightarrow> Some (t\<lparr>t_server := TServer_Threw\<rparr>)
           | Inr s \<Rightarrow> Some (t\<lparr>t_server := TServer_Loop\<rparr>))
      | TServer_Loop \<Rightarrow>
          if t_done t then Some (t\<lparr>t_server := TServer_End\<rparr>)
          else if \<not> bound then Some (t\<lparr>t_server := TServer_Threw\<rparr>)
          else (case t_call t of
                  Call_Pending a b \<Rightarrow>
                    if \<not> arrived then Some (t\<lparr>t_started := True\<rparr>)
                    else if fails then Some (t\<lparr>t_server := TServer_Threw\<rparr>)
                    else Some (t\<lparr>t_call := Call_Result (ExampleImpl_add a b), t_started := True\<rparr>)
                | _ \<Rightarrow> Some (t\<lparr>t_started := True\<rparr>))
      | TServer_End \<Rightarrow> None
      | TServer_Threw \<Rightarrow> None)"

definition main_test_step :: "rpc_test \<Rightarrow> rpc_test option" where
  "main_test_step t =
     (case t_main t of
        TMain_Client \<Rightarrow> if t_client t \<in> {Client_End, Client_Threw} then Some (t\<lparr>t_main := TMain_Server\<rparr>) else None
      | TMain_Server \<Rightarrow> if t_server t \<in> {TServer_End, TServer_Threw} then Some (t\<lparr>t_main := TMain_Returned\<rparr>) else None
      | TMain_Returned \<Rightarrow> None)"

inductive test_step :: "tls_files \<Rightarrow> bool \<Rightarrow> rpc_test \<Rightarrow> rpc_test \<Rightarrow> bool" for fs bound where
  client: "client_test_step fs t = Some t' \<Longrightarrow> test_step fs bound t t'"
| server: "server_test_step fs bound arrived fails t = Some t' \<Longrightarrow> test_step fs bound t t'"
| main: "main_test_step t = Some t' \<Longrightarrow> test_step fs bound t t'"

inductive_cases test_stepE: "test_step fs bound t t'"

text \<open>What is left to do; the server's polling is not counted.\<close>

definition test_left :: "rpc_test \<Rightarrow> nat" where
  "test_left t =
     (case t_client t of Client_Spin \<Rightarrow> 3 | Client_Connect \<Rightarrow> 2 | Client_Wait \<Rightarrow> 1 | _ \<Rightarrow> 0) +
     (case t_server t of TServer_Create \<Rightarrow> 2 | TServer_Loop \<Rightarrow> 1 | _ \<Rightarrow> 0) +
     (case t_main t of TMain_Client \<Rightarrow> 2 | TMain_Server \<Rightarrow> 1 | TMain_Returned \<Rightarrow> 0) +
     (case t_call t of Call_Result r \<Rightarrow> 0 | _ \<Rightarrow> if t_client t = Client_End \<or> t_client t = Client_Threw then 0 else 1) +
     (if t_started t then 0 else 1)"

text \<open>The server and the client can be made.\<close>

definition test_setup :: "tls_files \<Rightarrow> bool" where
  "test_setup fs \<longleftrightarrow> \<not> isl (getServer fs rpc_test_conf ()) \<and> \<not> isl (getClient fs rpc_test_conf)"

text \<open>What holds of every state when the key pair is there and the port is free.\<close>

definition test_ok :: "rpc_test \<Rightarrow> bool" where
  "test_ok t \<longleftrightarrow>
     t_client t \<noteq> Client_Threw \<and> (t_client t \<noteq> Client_Spin \<longrightarrow> t_started t) \<and>
     (t_started t \<longrightarrow> t_server t \<noteq> TServer_Create) \<and> (t_done t \<longleftrightarrow> t_client t = Client_End) \<and>
     (t_client t \<in> {Client_Spin, Client_Connect} \<longleftrightarrow> t_call t = Call_None) \<and>
     (t_server t = TServer_End \<longrightarrow> t_done t) \<and> (t_server t = TServer_Threw \<longrightarrow> t_call t \<noteq> Call_None) \<and>
     (t_main t \<noteq> TMain_Client \<longrightarrow> t_done t) \<and>
     (t_call t \<in> {Call_None, Call_Pending 123 297, Call_Result (Inr (123, 297, 420))}) \<and>
     t_printed t \<in> (if t_done t then {[''123 + 297 = 420''], [''send Exception'', ''Error'']} else {[]})"

subsection \<open>An echo of requests (api/main.cpp)\<close>

text \<open>Seconds that a handler waits, \<open>cancelled i\<close> being the flag before the second \<open>i\<close>.\<close>

function echo_wait :: "(nat \<Rightarrow> bool) \<Rightarrow> nat \<Rightarrow> nat" where
  "echo_wait cancelled i = (if \<not> cancelled i \<and> i < 10 then Suc (echo_wait cancelled (i + 1)) else 0)"
  by pat_completeness auto
termination
  by (relation "measure (\<lambda>(c, i). 10 - i)") auto

declare echo_wait.simps [simp del]

definition echo :: "('m \<Rightarrow> bytes) \<Rightarrow> 'm \<Rightarrow> network \<Rightarrow> NodeStatics \<Rightarrow> handler_result" where
  "echo raw m net st = Some (Inr (raw m, net, st))"

definition echo_api :: Api where
  "echo_api =
     Api_on DHT_PUT_KEY_IS_HASH_OF_DATA (Some (H_PUT_HASH (echo m_bytes)))
       (Api_on DHT_PUT (Some (H_PUT (echo m_bytes))) (Api_on DHT_GET (Some (H_KEY (echo m_bytes))) Api_init))"

subsection \<open>A single peer (dht/main.cpp)\<close>

definition dht_test_addr :: addr where
  "dht_test_addr = (''127.0.0.1'', 6969)"

definition dht_test_net :: "(bytes \<Rightarrow> bytes) \<Rightarrow> network" where
  "dht_test_net h = [dht_test_addr \<mapsto> NodeInformation_init h (fst dht_test_addr) (snd dht_test_addr)]"

subsection \<open>Settings (config/main.cpp)\<close>

definition config_test_path :: string where
  "config_test_path = [CHR ''.'', CHR ''.'', CHR 0x5C, CHR ''.'', CHR ''.'', CHR 0x5C, CHR ''.'', CHR ''.'', CHR 0x5C] @ ''config.ini''"

definition config_test_output :: "(string \<Rightarrow> ini) \<Rightarrow> string list" where
  "config_test_output files =
     (let conf = parseConfigFile (files config_test_path)
      in [''This is the main method for testing config!'',
          ''p2p_address: '' @ p2p_address conf,
          ''p2p_port:    '' @ to_string_nat (unat (p2p_port conf)),
          ''api_address: '' @ api_address conf,
          ''api_port:    '' @ to_string_nat (unat (api_port conf))])"

section \<open>A server and a client\<close>

lemma report_values:
  "report (Inr (123, 297, 420)) = [''123 + 297 = 420'']" "report (Inl e) = [''send Exception'', ''Error'']"
proof -
  show "report (Inr (123, 297, 420)) = [''123 + 297 = 420'']" by code_simp
qed (simp add: report_def)

lemma test_ok_init: "test_ok rpc_test_init"
  by (simp add: test_ok_def rpc_test_init_def)

lemma test_ok_client:
  assumes "test_setup fs" and "test_ok t" and "client_test_step fs t = Some t'"
  shows "test_ok t'"
  using assms
  by (auto simp: test_setup_def isl_def client_test_step_def test_ok_def report_values split: test_client_pc.splits test_call.splits sum.splits if_splits)

lemma test_ok_server:
  assumes "test_setup fs" and "test_ok t" and "server_test_step fs True arrived fails t = Some t'"
  shows "test_ok t'"
  using assms
  by (auto simp: test_setup_def server_test_step_def test_ok_def ExampleImpl_add_def split: test_server_pc.splits test_call.splits sum.splits if_splits)

lemma test_ok_main: "test_ok t \<Longrightarrow> main_test_step t = Some t' \<Longrightarrow> test_ok t'"
  by (auto simp: main_test_step_def test_ok_def split: test_main_pc.splits if_splits)

lemma test_ok_reachable:
  assumes "test_setup fs" and "(test_step fs True)\<^sup>*\<^sup>* rpc_test_init t"
  shows "test_ok t"
  using assms(2)
proof (induction rule: rtranclp_induct)
  case (step t t')
  from step(2) show ?case
    by (rule test_stepE) (use step(3) test_ok_client [OF assms(1)] test_ok_server [OF assms(1)] test_ok_main in blast)+
qed (rule test_ok_init)

text \<open>Until \<open>main\<close> returns, some thread has a step to take that leaves less to do.\<close>

lemma test_progress:
  assumes load: "test_setup fs" and ok: "test_ok t" and "t_main t \<noteq> TMain_Returned"
  shows "\<exists>t'. test_step fs True t t' \<and> test_left t' < test_left t"
proof -
  have able: "\<exists>c. getClient fs rpc_test_conf = Inr c" "\<exists>c. getServer fs rpc_test_conf () = Inr c"
    using load by (auto simp: test_setup_def isl_def) (metis sum.exhaust)+
  have by_client: ?thesis if "client_test_step fs t = Some t'" for t'
    using that able(1) ok by (intro exI [of _ t'] conjI test_step.client)
      (auto simp: client_test_step_def test_left_def test_ok_def split: test_client_pc.splits test_call.splits sum.splits if_splits)
  have by_main: ?thesis if "main_test_step t = Some t'" for t'
  proof -
    have "test_left t' < test_left t"
      using that by (cases "t_main t") (simp_all add: main_test_step_def test_left_def split: if_split_asm, clarsimp+)
    then show ?thesis using test_step.main [OF that] by blast
  qed
  have by_server: ?thesis if "server_test_step fs True True False t = Some t'" and "test_left t' < test_left t" for t'
    using that test_step.server by blast
  consider "t_server t = TServer_Create" | "t_server t = TServer_Loop" "\<not> t_started t"
    | "t_started t" "t_client t \<in> {Client_Spin, Client_Connect}" | "t_client t = Client_Wait" "t_server t \<noteq> TServer_Create"
    | "t_client t = Client_End" using ok by (cases "t_client t"; cases "t_server t"; auto simp: test_ok_def)
  then show ?thesis
  proof cases
    case 1
    then show ?thesis using able(2)
      by (intro by_server [of "t\<lparr>t_server := TServer_Loop\<rparr>"]) (auto simp: server_test_step_def test_left_def split: test_call.splits)
  next
    case 2
    then show ?thesis using ok
      by (intro by_server [of "t\<lparr>t_started := True\<rparr>"]) (auto simp: server_test_step_def test_left_def test_ok_def split: test_call.splits)
  next
    case 3
    then show ?thesis using able(1) by (auto simp: client_test_step_def intro: by_client)
  next
    case 4
    show ?thesis
    proof (cases "t_call t = Call_Pending 123 297 \<and> t_server t = TServer_Loop")
      case True
      then show ?thesis using 4 ok
        by (intro by_server [of "t\<lparr>t_call := Call_Result (ExampleImpl_add 123 297), t_started := True\<rparr>"])
          (auto simp: server_test_step_def test_left_def test_ok_def)
    next
      case False
      then show ?thesis using 4 ok by (cases "t_server t") (auto simp: client_test_step_def test_ok_def intro: by_client)
    qed
  next
    case 5
    show ?thesis
    proof (cases "t_server t = TServer_Loop")
      case True
      then show ?thesis using 5 ok
        by (intro by_server [of "t\<lparr>t_server := TServer_End\<rparr>"]) (auto simp: server_test_step_def test_left_def test_ok_def split: test_call.splits)
    next
      case False
      then show ?thesis using 5 ok assms(3)
        by (cases "t_main t"; cases "t_server t") (auto simp: main_test_step_def test_ok_def intro: by_main)
    qed
  qed
qed

text \<open>Without a server that polls, the client is not told to start.\<close>

lemma test_spins:
  assumes "\<not> bound \<or> (\<exists>e. getServer fs rpc_test_conf () = Inl e)" and "(test_step fs bound)\<^sup>*\<^sup>* rpc_test_init t"
  shows "\<not> t_started t \<and> t_client t = Client_Spin \<and> t_main t = TMain_Client \<and> \<not> t_done t \<and>
    ((\<exists>e. getServer fs rpc_test_conf () = Inl e) \<longrightarrow> t_server t \<noteq> TServer_Loop)"
  using assms(2)
proof (induction rule: rtranclp_induct)
  case (step t t')
  from step(2) show ?case
    by (rule test_stepE) (use step(3) assms(1) in \<open>auto simp: client_test_step_def server_test_step_def main_test_step_def
        split: test_server_pc.splits test_call.splits sum.splits if_splits\<close>)
qed (simp add: rpc_test_init_def)

text \<open>A client that throws does not tell the server to end.\<close>

lemma test_polls_on:
  assumes "getClient fs rpc_test_conf = Inl e" and "getServer fs rpc_test_conf () = Inr s" and "(test_step fs True)\<^sup>*\<^sup>* rpc_test_init t"
  shows "\<not> t_done t \<and> t_call t = Call_None \<and> t_server t \<in> {TServer_Create, TServer_Loop} \<and> t_main t \<noteq> TMain_Returned \<and>
    t_client t \<in> {Client_Spin, Client_Connect, Client_Threw}"
  using assms(3)
proof (induction rule: rtranclp_induct)
  case (step t t')
  from step(2) show ?case
    by (rule test_stepE) (use step(3) assms(1,2) in \<open>auto simp: client_test_step_def server_test_step_def main_test_step_def
        split: test_client_pc.splits test_server_pc.splits test_main_pc.splits if_splits\<close>)
qed (simp add: rpc_test_init_def)

section \<open>The other programs\<close>

lemma echo_wait_le: "echo_wait cancelled i \<le> 10 - i"
proof (induction cancelled i rule: echo_wait.induct)
  case (1 cancelled i)
  then show ?case by (simp add: echo_wait.simps [of cancelled i], linarith)
qed

text \<open>A handler waits ten seconds, or until the flag is set.\<close>

lemma echo_wait_time:
  "echo_wait (\<lambda>_. False) 0 = 10" "\<not> cancelled i \<Longrightarrow> i < 10 \<Longrightarrow> cancelled (i + 1) \<Longrightarrow> echo_wait cancelled i = 1"
  by (simp_all add: echo_wait.simps)

lemma echo_handlers:
  "map_of (m_requestHandlers echo_api) t =
     (if t = DHT_PUT_KEY_IS_HASH_OF_DATA then Some (cast_call (H_PUT_HASH (echo m_bytes)))
      else if t = DHT_PUT then Some (cast_call (H_PUT (echo m_bytes)))
      else if t = DHT_GET then Some (cast_call (H_KEY (echo m_bytes))) else None)"
  by (simp add: echo_api_def Api_on_def Api_init_def start_accept_def map_of_smap_assign msg_type_defs)

lemma decode_keeps_bytes:
  "Message_DHT_PUT_decode bs = Inr m \<Longrightarrow> m_bytes m = bs"
  "Message_KEY_decode bs = Inr m' \<Longrightarrow> m_bytes m' = bs"
  "Message_DHT_PUT_KEY_IS_HASH_OF_DATA_decode bs = Inr m'' \<Longrightarrow> m_bytes m'' = bs"
  by (auto simp: decode_defs split: if_splits)

text \<open>The server of \<open>api/main.cpp\<close> answers a request of its three kinds with the request.\<close>

lemma echo_answers:
  assumes "Request_init (MessageHeader_of_raw (header_at bs 0)) bs = Inr r"
    and "msg_type (MessageHeader_of_raw (header_at bs 0)) \<noteq> DHT_GET_KEY_IS_HASH_OF_DATA"
  shows "call_handler echo_api (m_decodedData r) net st = Some (Inr (bs, net, st))"
proof -
  have "msg_type (decoded_header (m_decodedData r)) = msg_type (MessageHeader_of_raw (header_at bs 0))"
    using Request_class [OF assms(1)] by simp
  with assms show ?thesis
    by (auto simp: call_handler_def echo_handlers Request_init_def map_sum_Inr echo_def decode_keeps_bytes msg_type_defs split: if_splits)
qed

text \<open>The peer of \<open>dht/main.cpp\<close>, which knows no other, forms a ring with its first round.\<close>

lemma dht_test_ring: "stable_ring h [dht_test_addr] (stabilize h dht_test_addr (create dht_test_addr (dht_test_net h)))"
  using create_ring [of "dht_test_net h" dht_test_addr "NodeInformation_init h (fst dht_test_addr) (snd dht_test_addr)" h]
  by (auto simp: dht_test_net_def NodeInformation_init_def ni_ok_def)

section \<open>Properties\<close>

text \<open>
  C40: The program that tries out the remote calls returns exactly when its port is free and both its server and its
  client can be made from its key pair. Then it can return from every state it reaches, whatever the order of its
  threads' steps, and it has printed the sum of its operands or that the call failed. Without a server or a port the
  server's thread ends with an exception before it tells the client to start: in every state it reaches the client spins,
  with no step to take, and \<open>main\<close> waits for it. If only the client cannot be made, the server polls for ever.
\<close>

theorem rpc_test_returns:
  "((\<exists>t. (test_step fs bound)\<^sup>*\<^sup>* rpc_test_init t \<and> t_main t = TMain_Returned) \<longleftrightarrow> bound \<and> test_setup fs) \<and>
   (\<forall>t. bound \<and> test_setup fs \<and> (test_step fs bound)\<^sup>*\<^sup>* rpc_test_init t \<longrightarrow>
      (\<exists>t'. (test_step fs bound)\<^sup>*\<^sup>* t t' \<and> t_main t' = TMain_Returned \<and>
         t_printed t' \<in> {[''123 + 297 = 420''], [''send Exception'', ''Error'']})) \<and>
   (\<forall>t. (\<not> bound \<or> isl (getServer fs rpc_test_conf ())) \<and> (test_step fs bound)\<^sup>*\<^sup>* rpc_test_init t \<longrightarrow>
      t_client t = Client_Spin \<and> client_test_step fs t = None \<and> t_main t = TMain_Client \<and> main_test_step t = None) \<and>
   (\<forall>t. bound \<and> \<not> isl (getServer fs rpc_test_conf ()) \<and> isl (getClient fs rpc_test_conf) \<and> (test_step fs bound)\<^sup>*\<^sup>* rpc_test_init t \<longrightarrow>
      t_server t \<in> {TServer_Create, TServer_Loop} \<and> server_test_step fs bound arrived fails t \<noteq> None)"
proof (intro conjI allI impI; (elim conjE)?)
  have goes: "\<exists>t'. (test_step fs True)\<^sup>*\<^sup>* t t' \<and> t_main t' = TMain_Returned \<and>
      t_printed t' \<in> {[''123 + 297 = 420''], [''send Exception'', ''Error'']}"
    if load: "test_setup fs" and "(test_step fs True)\<^sup>*\<^sup>* rpc_test_init t" for t
    using that(2)
  proof (induction "test_left t" arbitrary: t rule: less_induct)
    case less
    have ok: "test_ok t" by (rule test_ok_reachable [OF load less.prems])
    show ?case
    proof (cases "t_main t = TMain_Returned")
      case True
      then show ?thesis using ok by (intro exI [of _ t]) (auto simp: test_ok_def)
    next
      case False
      then obtain t' where t': "test_step fs True t t'" "test_left t' < test_left t" using test_progress [OF load ok] by blast
      from less.hyps [OF t'(2) rtranclp.rtrancl_into_rtrancl [OF less.prems t'(1)]] show ?thesis
        using converse_rtranclp_into_rtranclp [of "test_step fs True" t t', OF t'(1)] by blast
    qed
  qed
  show "\<exists>t'. (test_step fs bound)\<^sup>*\<^sup>* t t' \<and> t_main t' = TMain_Returned \<and>
      t_printed t' \<in> {[''123 + 297 = 420''], [''send Exception'', ''Error'']}"
    if bound "test_setup fs" "(test_step fs bound)\<^sup>*\<^sup>* rpc_test_init t" for t
    using goes that by simp
  have "bound \<and> test_setup fs" if "(test_step fs bound)\<^sup>*\<^sup>* rpc_test_init t" "t_main t = TMain_Returned" for t
  proof (cases "getServer fs rpc_test_conf ()")
    case (Inr s)
    then have bound using test_spins [of bound fs] that by fastforce
    moreover have "\<exists>c. getClient fs rpc_test_conf = Inr c"
      using test_polls_on [OF _ Inr] that \<open>bound\<close> by (cases "getClient fs rpc_test_conf") fastforce+
    ultimately show ?thesis using Inr by (auto simp: test_setup_def)
  qed (use test_spins [of bound fs] that in fastforce)
  moreover have "\<exists>t. (test_step fs bound)\<^sup>*\<^sup>* rpc_test_init t \<and> t_main t = TMain_Returned" if "bound \<and> test_setup fs"
    using goes [of rpc_test_init] that by auto
  ultimately show "(\<exists>t. (test_step fs bound)\<^sup>*\<^sup>* rpc_test_init t \<and> t_main t = TMain_Returned) \<longleftrightarrow> bound \<and> test_setup fs"
    by blast
  fix t assume t: "(test_step fs bound)\<^sup>*\<^sup>* rpc_test_init t"
  {
    assume "\<not> bound \<or> isl (getServer fs rpc_test_conf ())"
    then have "\<not> t_started t \<and> t_client t = Client_Spin \<and> t_main t = TMain_Client"
      using test_spins [OF _ t] by (metis isl_def)
    then show "t_client t = Client_Spin" "client_test_step fs t = None" "t_main t = TMain_Client" "main_test_step t = None"
      by (simp_all add: client_test_step_def main_test_step_def)
  next
    assume *: bound "\<not> isl (getServer fs rpc_test_conf ())" "isl (getClient fs rpc_test_conf)"
    then obtain e s where "getClient fs rpc_test_conf = Inl e" "getServer fs rpc_test_conf () = Inr s"
      by (metis isl_def sum.exhaust)
    from test_polls_on [OF this, of t] t *(1)
    show "t_server t \<in> {TServer_Create, TServer_Loop}" "server_test_step fs bound arrived fails t \<noteq> None"
      by (auto simp: server_test_step_def split: sum.split)
  }
qed

theorem rpc_test_returns_witness:
  "(\<exists>t. (test_step sample_files True)\<^sup>*\<^sup>* rpc_test_init t \<and> t_main t = TMain_Returned) \<and>
   \<not> (\<exists>t. (test_step sample_files False)\<^sup>*\<^sup>* rpc_test_init t \<and> t_main t = TMain_Returned)"
proof -
  have "test_setup sample_files"
    by (simp add: test_setup_def getServer_def getClient_def load_keypair_def sample_files_def Let_def)
  then show ?thesis using rpc_test_returns [of sample_files True] rpc_test_returns [of sample_files False] by auto
qed

end
