(* ===== verification/Unit_Tests.thy ===== *)
theory Unit_Tests
  imports Messages
begin

text \<open>
  The tests under \<open>src/test\<close>: their assertions and the runner of \<open>assertions.h\<close>, and the tests of \<open>test_util.cpp\<close>,
  \<open>test_api.cpp\<close> and \<open>foo.cpp\<close>, run on the definitions of this development.
\<close>

section \<open>Definitions\<close>

subsection \<open>Assertions (assertions.h)\<close>

definition fail :: "string option \<Rightarrow> unit result" where
  "fail message = Inl (Runtime_Error (case message of Some m \<Rightarrow> m | None \<Rightarrow> ''''))"

definition assert_true :: "bool \<Rightarrow> string option \<Rightarrow> unit result" where
  "assert_true expression message = (if \<not> expression then fail message else Inr ())"

definition assert_false :: "bool \<Rightarrow> string option \<Rightarrow> unit result" where
  "assert_false expression message = assert_true (\<not> expression) message"

definition assert_not_null :: "'a option \<Rightarrow> string option \<Rightarrow> unit result" where
  "assert_not_null ptr message = assert_true (ptr \<noteq> None) message"

definition assert_null :: "'a option \<Rightarrow> string option \<Rightarrow> unit result" where
  "assert_null ptr message = assert_true (ptr = None) message"

definition assert_equal :: "'a::len word \<Rightarrow> 'a word \<Rightarrow> string option \<Rightarrow> unit result" where
  "assert_equal expected actual message =
     assert_true (expected = actual)
       (Some (''Expected: ['' @ to_string_nat (unat expected) @ ''], actual: ['' @ to_string_nat (unat actual) @ '']'' @
          (case message of Some m \<Rightarrow> '' ('' @ m @ '')'' | None \<Rightarrow> '''')))"

text \<open>Assertions one after the other; the first that fails ends the test.\<close>

fun in_order :: "unit result list \<Rightarrow> int result" where
  "in_order [] = Inr 0"
| "in_order (Inl e # rs) = Inl e"
| "in_order (Inr u # rs) = in_order rs"

text \<open>The result of a test, or 1 when it throws.\<close>

definition run_test :: "int result \<Rightarrow> int" where
  "run_test test = (case test of Inr n \<Rightarrow> n | Inl e \<Rightarrow> 1)"

text \<open>\<open>a || b\<close> on the results of tests.\<close>

definition either_fails :: "int \<Rightarrow> int \<Rightarrow> int" where
  "either_fails a b = (if a \<noteq> 0 \<or> b \<noteq> 0 then 1 else 0)"

subsection \<open>The tests\<close>

definition test_foo :: int where
  "test_foo = run_test (in_order [assert_true True (Some ''Message 1''), assert_false False (Some ''Message 2'')])"

definition test_util :: int where
  "test_util = run_test (in_order
     [assert_equal 0x3412 (swapBytes16 0x1234) None,
      assert_equal 0x0001 (swapBytes16 0x0100) None,
      assert_equal 0x78563412 (swapBytes32 0x12345678) None,
      assert_equal 0x04030201 (swapBytes32 0x01020304) None,
      assert_equal 0xf0debc9a78563412 (swapBytes64 0x123456789abcdef0) None,
      assert_equal 0x0807060504030201 (swapBytes64 0x0102030405060708) None,
      assert_equal 650 DHT_PUT None,
      assert_equal 651 DHT_GET None,
      assert_equal 652 DHT_SUCCESS None,
      assert_equal 653 DHT_FAILURE None,
      assert_true (is_in_range_loop (1 :: int) 0 2 False False) None,
      assert_true (is_in_range_loop (3 :: int) 2 0 False False) None,
      assert_true (\<not> is_in_range_loop (1 :: int) 2 0 True True) None,
      assert_true (\<not> is_in_range_loop (1 :: int) 2 3 True True) None,
      assert_true (array_add [1, 2, 3, 4] [1, 2, 3, 4] = [2, 4, 6, 8]) (Some ''array addition 1''),
      assert_true (array_add [1, 254, 255, 128] [1, 1, 0, 128] = [3, 0, 0, 0]) (Some ''array addition 2'')])"

text \<open>The key of the decoded messages, and the longer one of those that are built.\<close>

definition test_key :: bytes where
  "test_key = map of_nat [1..<33]"

definition test_long_key :: bytes where
  "test_long_key = map of_nat [1..<17] @ map of_nat [13..<33]"

definition test_value :: bytes where
  "test_value = bytes_of_string (''This is the value '' @ ''that is to be stored.'')"

definition test_get_bytes :: bytes where
  "test_get_bytes = convertToBytes ([0x00, 0x24, 0x02, 0x8b] @ test_key) None"

definition test_put_bytes :: bytes where
  "test_put_bytes = convertToBytes ([0x00, 0x4b, 0x02, 0x8a] @ test_key @ test_value) None"

definition test_decode_get :: "int result" where
  "test_decode_get =
     (case Request_init (MessageHeader_of_raw (header_at test_get_bytes 0)) test_get_bytes of
        Inl e \<Rightarrow> Inl e
      | Inr r \<Rightarrow> in_order [assert_null (getData_PUT r) None, assert_not_null (getData_KEY r) (Some ''Data should not be null!'')])"

definition test_decode_put :: "int result" where
  "test_decode_put =
     (case Request_init (MessageHeader_of_raw (header_at test_put_bytes 0)) test_put_bytes of
        Inl e \<Rightarrow> Inl e
      | Inr r \<Rightarrow> in_order [assert_null (getData_KEY r) None, assert_not_null (getData_PUT r) (Some ''Data should not be null!'')])"

definition test_encode_get :: "int result" where
  "test_encode_get =
     (let key = convertToBytes test_long_key None;
          message = Message_KEY_make DHT_GET key;
          header = MessageHeader_of_raw (header_at (m_bytes message) 0)
      in in_order
           [assert_equal (of_nat (4 + length key)) (hdr_size header) (Some ''Size specified in header''),
            assert_equal DHT_GET (msg_type header) (Some ''Message type specified in header'')])"

definition test_encode_put :: "int result" where
  "test_encode_put =
     (let key = convertToBytes test_long_key None;
          val = convertToBytes (bytes_of_string ''This is the value, and it has an arbitrary size.'') None;
          message = Message_DHT_PUT_make key val 0 0;
          header = MessageHeader_of_raw (header_at (m_bytes message) 0)
      in in_order
           [assert_equal (of_nat (4 + 4 + length key + length val)) (hdr_size header) (Some ''Size specified in header''),
            assert_equal DHT_PUT (msg_type header) (Some ''Message type specified in header'')])"

definition test_api :: int where
  "test_api = either_fails (run_test test_decode_get)
     (either_fails (run_test test_decode_put) (either_fails (run_test test_encode_get) (run_test test_encode_put)))"

section \<open>The tests pass\<close>

lemma test_foo_passes: "test_foo = 0"
  by (simp add: test_foo_def run_test_def assert_true_def assert_false_def)

lemma assert_holds:
  "x = y \<Longrightarrow> assert_equal x y m = Inr ()" "b \<Longrightarrow> assert_true b m' = Inr ()"
  by (simp_all add: assert_equal_def assert_true_def)

lemma test_swaps:
  "swapBytes16 0x1234 = 0x3412" "swapBytes16 0x0100 = 0x0001" "swapBytes32 0x12345678 = 0x78563412"
  "swapBytes32 0x01020304 = 0x04030201" "swapBytes64 0x123456789abcdef0 = 0xf0debc9a78563412"
  "swapBytes64 0x0102030405060708 = 0x0807060504030201"
  by (simp_all add: swapBytes16_def swapBytes32_def swapBytes64_def)

lemma test_arrays:
  "array_add [1, 2, 3, 4] [1, 2, 3, 4] = [2, 4, 6, 8]" "array_add [1, 254, 255, 128] [1, 1, 0, 128] = [3, 0, 0, 0]"
  by code_simp+

lemma test_util_passes: "test_util = 0"
  by (simp add: test_util_def run_test_def assert_holds test_swaps test_arrays msg_type_defs is_in_range_loop_def)

lemma test_decode_passes: "test_decode_get = Inr 0" "test_decode_put = Inr 0"
  by code_simp+

lemma test_encode_passes: "test_encode_get = Inr 0" "test_encode_put = Inr 0"
  by code_simp+

lemma unit_tests_pass: "test_foo = 0 \<and> test_util = 0 \<and> test_api = 0"
  by (simp add: test_foo_passes test_util_passes test_api_def test_decode_passes test_encode_passes run_test_def either_fails_def)

text \<open>
  The message of the second test lacks the part with its time to live, so that its key is read from the fifth byte of the
  key on, and ends with the first four bytes of the value; the test looks at neither.
\<close>

lemma test_put_shifted:
  "\<exists>r d. Request_init (MessageHeader_of_raw (header_at test_put_bytes 0)) test_put_bytes = Inr r \<and> getData_PUT r = Some d \<and>
     put_key d = drop 4 test_key @ bytes_of_string ''This'' \<and> put_value d = drop 4 test_value"
proof -
  have *: "map_option (\<lambda>d. (put_key d, put_value d))
       (case Request_init (MessageHeader_of_raw (header_at test_put_bytes 0)) test_put_bytes of Inl e \<Rightarrow> None | Inr r \<Rightarrow> getData_PUT r) =
      Some (drop 4 test_key @ bytes_of_string ''This'', drop 4 test_value)"
    by code_simp
  then show ?thesis by (auto split: sum.splits)
qed

end
