(* ===== verification/Spec2Isabelle.thy ===== *)
theory Spec2Isabelle
  imports Protocol Growth Departure Rpc Cleaner Dumps Command_Line Test_Programs Unit_Tests
begin

text \<open>
  A verification of Chord++, a distributed hash table in C++ after the Chord protocol. The sources
  are under \<open>src/src\<close>; file names below are relative to it.

  \<^bold>\<open>The program.\<close> A peer keeps its state in \<open>NodeInformation\<close> (its own node, a finger table of 256
  entries, its predecessor, the stored items with their expiry) and offers it to the other peers by
  remote calls (\<open>Peer\<close>). \<open>Dht\<close> runs the maintenance of the ring (join with a proof of work, stabilise,
  fix fingers, check the predecessor) and answers the requests of clients, which arrive as binary
  messages (\<open>api/message_data\<close>, \<open>api/request\<close>) over connections (\<open>api/connection\<close>, \<open>api/api\<close>). Identifiers
  are SHA-256 hashes, 32 bytes read as a big-endian number, on a circle (\<open>util\<close>). The program (\<open>dht-4.cpp\<close>)
  reads its settings (\<open>config\<close>) and runs a shell (\<open>entry\<close>) in which peers are started, removed and looked at.

  \<^bold>\<open>The theories.\<close>

  \<^item> \<open>Chord_Prelude\<close>: types of bytes and words, the errors of the model, big-endian numbers.
  \<^item> \<open>Util\<close> (\<open>util/util.h\<close>, \<open>util/constants.h\<close>): byte order, the interval test
    \<open>is_in_range_loop\<close>, array addition, dumps. Its lemmas show that the interval test is
    membership in an arc of the circle; the locale \<open>arc_order\<close> states the strict order that routing
    relies on, interpreted on the interval test.
  \<^item> \<open>Std_Map\<close>: \<open>std::map\<close> as a sorted association list; the locale \<open>key_value_map\<close> is its contract.
  \<^item> \<open>Messages\<close> (\<open>api/message_data\<close>, \<open>api/request\<close>): decoding and encoding of the client's
    messages, with round trips and the exact conditions of undefined behaviour.
  \<^item> \<open>Node_Information\<close> (\<open>dht/NodeInformation\<close>): the state of a peer as the record
    \<open>NodeInformation\<close>, the static settings of the process as \<open>NodeStatics\<close>, one definition per
    method, the invariant \<open>ni_ok\<close>; the locale \<open>data_store\<close> is the contract of the item store.
  \<^item> \<open>Peer\<close> (\<open>dht/Peer\<close>, \<open>dht/schemas/peer.capnp\<close>): the server methods, the conversion of nodes and
    the lookup, with remote calls as the parameter \<open>rpc_env\<close>.
  \<^item> \<open>Network\<close>: the lookup on a network of honest peers. The locale \<open>ring_routing\<close> states what a
    route relies on and proves that it ends at the responsible peer; it is interpreted on stable
    rings, and both lookup methods follow it.
  \<^item> \<open>Lookup\<close>: the lookup on honest networks in any state, where it always returns, and on answers
    that are not honest, where its checks do not hold what they promise.
  \<^item> \<open>Dht\<close> (\<open>dht/Dht.cpp\<close>, request handlers; \<open>PeerImpl::getData\<close> and \<open>setData\<close>): put and get, by key
    and by hash, with replication. The locale \<open>networked_store\<close> is the contract of reading and
    writing on all peers; a put is shown to be a sequence of such writes.
  \<^item> \<open>Maintenance\<close> (\<open>dht/Dht.cpp\<close>, maintenance): create, join, stabilise, fix fingers, check
    predecessor, a round of the main loop, the search of the proof of work.
  \<^item> \<open>Protocol\<close>: a step relation with every operation of every peer, peers leaving included, and its
    reachable networks; on all of them every local lookup, request handler and round of the main loop returns, and what
    it can end with.
  \<^item> \<open>Join\<close>: a new peer joins a stable ring. If the remote call library permits the wait that a join relies on, the ring is
    stable again with every item in place that is placed by the hash of its key, also when the other peers stabilise in
    between; if it refuses, as KJ documents, the ring stays as it was. Items that were put by hash are misplaced by a join.
  \<^item> \<open>Live\<close>: rings some of whose peers have gone while the state of the others still names them. A lookup asks
    a departed finger at most once and finds the responsible peer among those that are left.
  \<^item> \<open>Fingers\<close>: distances on the circle. The locale \<open>halving_routing\<close> extends \<open>ring_routing\<close> by a measure that
    every hop halves; it is interpreted on stable rings with right fingers, where a lookup needs at most 256
    hops. Rounds of the main loops, in any order, make the fingers right.
  \<^item> \<open>Growth\<close>: from peers that have just been started to a stable ring with right fingers, of all of them or of the first
    one, depending on the same choice of the library.
  \<^item> \<open>Departure\<close>: a peer leaves a stable ring. Which rounds of its neighbours make the ring of the others stable
    again and in the end their fingers right; and what goes wrong before: the peer in front of it can lose its whole finger
    table, and a stale finger can make a lookup return the wrong peer.

  \<^item> \<open>Connection\<close> (\<open>api/connection\<close>): reading messages from the stream of a client, the queue of handler
    calls and the thread that sends the answers, with \<open>conn_step\<close> for every interleaving. The locale
    \<open>frame_reader\<close> states what reading one message does and proves what reading a stream does.
  \<^item> \<open>Api\<close> (\<open>api/api\<close>, \<open>Dht::setApi\<close>): the server and its connections, and the dispatch of a decoded
    message to the handler of its class; a put and a get from the client's bytes to the answer's.
  \<^item> \<open>Process\<close> (\<open>dht/Dht.h\<close>, \<open>Dht::runServer\<close>, \<open>Dht::mainLoop\<close>): the threads of a \<open>Dht\<close> object from its
    constructor to its destructor. Operations, request handlers and replication tasks return, throw or never return; the
    destructor can end exactly in the states in which nothing that it waits for hangs (\<open>hung\<close>).
  \<^item> \<open>Cleaner\<close> (\<open>dht/NodeInformation\<close>, constructor and destructor): the thread that removes expired items, its
    condition variable and the destructor, in every order of their steps; the destructor ends without spurious wake-ups,
    and without the timer unless the notification was lost.
  \<^item> \<open>Rpc\<close> (\<open>rpc\<close>): the server with its tasks and exported capabilities, the client with its setup, TLS from the
    configuration, and the threads of \<open>Process\<close> with the call a peer makes to its own server.
  \<^item> \<open>Dumps\<close> (\<open>util/util.cpp\<close>, \<open>HexDump64ToHexDump32\<close>): the dumps that nothing else uses.
  \<^item> \<open>Std_Regex\<close>: regular expressions with the backtracking matcher of \<open>std::regex\<close>, shown to agree with
    the languages they denote, and the reading of numbers.
  \<^item> \<open>Config\<close> (\<open>config\<close>, settings of \<open>dht-4.cpp\<close>): splitting addresses, the configuration file, and how
    the command line changes the settings.
  \<^item> \<open>Logging\<close> (\<open>logging\<close>, \<open>InitSpdlog\<close> of \<open>dht-4.cpp\<close>): the levels of the log, its macros and its sinks, and which
    messages are written where.
  \<^item> \<open>Shell\<close> (\<open>entry\<close>, \<open>main\<close> of \<open>dht-4.cpp\<close>): the shell with its commands and scripts. Commands call one
    another to a depth of four; \<open>execute_depth\<close> shows that more changes nothing. The main loop is a
    \<open>while_option\<close>, where \<open>None\<close> is a loop that does not end.
  \<^item> \<open>Shell_Correct\<close>: the program returns on every input unless destroying some peer does not; which commands are undefined
    behaviour; peers and \<open>Dht\<close> objects stay paired by position; what starting, removing, listing and repeating do.

  \<^item> \<open>Command_Line\<close> (\<open>main\<close> of \<open>dht-4.cpp\<close>): the table of options and the program from its arguments to its end.
  \<^item> \<open>Test_Programs\<close> (\<open>main.cpp\<close> of \<open>rpc\<close>, \<open>api\<close>, \<open>dht\<close> and \<open>config\<close>): the programs that try out the libraries; the
    one for remote calls with the steps of its threads in every order.
  \<^item> \<open>Unit_Tests\<close> (\<open>src/test\<close>): the unit tests of the repository, run on the definitions of this development.

  \<^bold>\<open>Modelling decisions.\<close> Errors are values: \<open>Inl\<close> of \<open>cpp_error\<close>, where \<open>Undefined_Behaviour\<close> marks
  what the C++ standard leaves undefined (an empty optional dereferenced, an iterator outside its
  buffer, a signed overflow, a float outside the integers it is converted to) and \<open>Never_Returns\<close> a call that waits
  for ever. SHA-256 and SHA-1 (OpenSSL) are parameters \<open>h\<close> and \<open>sha1\<close>; of them only
  the length of the digest is assumed, and that the addresses of a ring do not collide. The clock is a
  parameter. Each method of \<open>NodeInformation\<close> takes its lock, so it is one step; a request handler or
  a maintenance step is evaluated with no other peer changing state in between, and the background
  task of a put is run to its end. Loops that need not end are partial functions into \<open>option\<close>, where
  \<open>None\<close> is a call that never returns: the lookup's two loops. The program's \<open>None\<close> includes a destructor that does not
  return: which peers come to hang while the shell waits is \<open>w_hangs\<close> of \<open>world\<close>, and \<open>Process\<close> says in which states a peer does. Passing a request on is bounded by a
  number of hops; as many as the ring has peers are proved to be enough, and 256 once the fingers are right. Messages of 16-bit length
  keep their width, as do the 8-bit replication counters.

  \<^bold>\<open>A stable ring\<close> (\<open>stable_ring\<close>) is a list of addresses with different identifiers whose peers are
  online, have their neighbours on the circle as first finger and predecessor, and other peers of the
  list, or nothing, in the other fingers. \<open>responsible\<close> is the specification of the table: the first
  peer at or after an identifier. The theorems on stable rings assume nothing else about the peers'
  states; \<open>create_makes_ring\<close> and \<open>join_keeps_ring_and_data\<close> show how stable rings come about, and
  \<open>main_loop_keeps_ring\<close> that maintenance keeps them; \<open>network_from_nothing\<close> puts the whole way together.
  A live ring (\<open>live_ring\<close>) weakens this to rings whose fingers may name peers that have gone; \<open>departure_repaired\<close>
  shows the way back.

  \<^bold>\<open>Surroundings.\<close> Sockets complete a read with the bytes asked for or with an error, and take any
  number of bytes of an answer. Files, free ports, the terminal, and what the peers' threads do while the
  shell waits are the record \<open>world\<close>; the INI parser is the record \<open>ini\<close>. Output is kept as text where the
  sources build it from strings, and as the entries of a table where a formatting library lays it out.

  \<^bold>\<open>Remote calls.\<close> In \<open>Network\<close> and above, a remote call is answered by the peer at the address or fails; \<open>Rpc\<close>
  shows that peers with the same settings reach each other. The record \<open>kj_library\<close> has what depends on the
  build of KJ: whether a failed assertion throws, and whether a promise may be waited for in a callback, which
  KJ documents as forbidden and \<open>Dht::join\<close> does; the theorems on joins state what happens in both cases. \<open>Dht::getSuccessor\<close> is modelled for a peer without TLS; with TLS it does not reach its own
  server (\<open>tls_peer_deadlocks\<close>). The outcomes of the operations of KJ are events in \<open>Rpc\<close>; what TLS promises is
  the hypothesis \<open>tls_documented\<close>, which \<open>sample_tls\<close> satisfies.

  \<^bold>\<open>The command line.\<close> The parser cxxopts is the record \<open>cxxopts\<close>; what its documentation promises about counts,
  defaults and types is the hypothesis \<open>cxxopts_documented\<close>, which \<open>plain_cxxopts\<close> satisfies. Opening the log's file may
  fail and is a parameter.

  \<^bold>\<open>Not modelled.\<close> The promises, event loops, files and TLS streams of Cap'n Proto and KJ themselves, the log's
  thread and formats (spdlog), the hash functions (OpenSSL), reading floating point numbers, moved-from
  objects, and the signal handler of the echo program. The remaining lines of the headers are declarations
  whose definitions are modelled.
\<close>

end
